(* ===== verification/Prelude.thy ===== *)
theory Prelude
  imports Main "HOL-Library.Word" "HOL-Library.Char_ord" "HOL-Library.List_Lexorder"
    "HOL-Library.Log_Nat"
begin

text \<open>
  What every component shares: Rust results, the slice of Rust's \<open>str\<close> the program uses,
  the JSON values of \<open>serde_json\<close>, \<open>f64\<close> comparisons, insertion-ordered key/value maps and
  hash sets, with the lemma collections the component proofs draw on. A Rust \<open>String\<close> is its
  UTF-8 bytes, a \<^typ>\<open>string\<close>, so \<open>len()\<close> is \<^const>\<open>length\<close> and Rust's byte order on
  strings is the lexicographic order of \<open>List_Lexorder\<close>.
\<close>

named_theorems set_algebra \<open>rewrites that turn the list-backed hash sets into sets\<close>
named_theorems run_simps \<open>equations that evaluate the model on a concrete input\<close>

section \<open>Results\<close>

type_synonym ('a, 'e) result = "'e + 'a"

abbreviation Ok :: "'a \<Rightarrow> 'e + 'a" where "Ok \<equiv> Inr"
abbreviation Err :: "'e \<Rightarrow> 'e + 'a" where "Err \<equiv> Inl"

fun is_ok :: "'e + 'a \<Rightarrow> bool" where
  "is_ok (Inr _) = True"
| "is_ok (Inl _) = False"

lemma is_ok_iff: "is_ok r \<longleftrightarrow> (\<exists>v. r = Ok v)"
  by (cases r) auto

section \<open>Rust strings\<close>

text \<open>\<open>s.starts_with(p)\<close>, \<open>s.contains(p)\<close> and \<open>s.strip_prefix(p)\<close> on the bytes.\<close>

fun starts_with :: "string \<Rightarrow> string \<Rightarrow> bool" where
  "starts_with s [] = True"
| "starts_with [] (p # ps) = False"
| "starts_with (c # s) (p # ps) = (c = p \<and> starts_with s ps)"

fun contains_str :: "string \<Rightarrow> string \<Rightarrow> bool" where
  "contains_str [] n = (n = [])"
| "contains_str (c # h) n = (starts_with (c # h) n \<or> contains_str h n)"

definition strip_prefix :: "string \<Rightarrow> string \<Rightarrow> string option" where
  "strip_prefix s p = (if starts_with s p then Some (drop (length p) s) else None)"

lemma starts_with_iff: "starts_with s p \<longleftrightarrow> (\<exists>r. s = p @ r)"
  by (induction s p rule: starts_with.induct) auto

lemma contains_str_iff: "contains_str s p \<longleftrightarrow> (\<exists>a b. s = a @ p @ b)"
proof (induction s)
  case Nil
  show ?case by auto
next
  case (Cons c h)
  have "(\<exists>a b. c # h = a @ p @ b) \<longleftrightarrow> (\<exists>b. c # h = p @ b) \<or> (\<exists>a b. h = a @ p @ b)"
    by (metis append_Cons append_Nil list.sel(3) neq_Nil_conv)
  with Cons show ?case by (simp add: starts_with_iff)
qed

lemma contains_char: "contains_str s [c] \<longleftrightarrow> c \<in> set s"
  by (auto simp: contains_str_iff dest: split_list)

text \<open>
  \<open>s.chars()\<close>: the bytes cut before every byte that is not a UTF-8 continuation byte.
\<close>

definition byte :: "char \<Rightarrow> nat" where
  "byte c = of_char c"

definition is_cont :: "char \<Rightarrow> bool" where
  "is_cont c \<longleftrightarrow> 128 \<le> byte c \<and> byte c < 192"

lemma length_dropWhile_Suc [simp]: "length (dropWhile P s) < Suc (length s)"
  by (simp add: length_dropWhile_le less_Suc_eq_le)

function utf8_chars :: "string \<Rightarrow> string list" where
  "utf8_chars [] = []"
| "utf8_chars (c # s) = (c # takeWhile is_cont s) # utf8_chars (dropWhile is_cont s)"
  by pat_completeness auto
termination
  by (relation "measure length") auto

definition take_chars :: "nat \<Rightarrow> string \<Rightarrow> string" where
  "take_chars n s = concat (take n (utf8_chars s))"

lemma concat_utf8_chars [simp]: "concat (utf8_chars s) = s"
  by (induction s rule: utf8_chars.induct) auto

text \<open>A list of chunks is a cut of its concatenation when every chunk is a byte and its
  continuation bytes, and every chunk after the first starts with a lead byte.\<close>

definition chunk :: "string \<Rightarrow> bool" where
  "chunk s \<longleftrightarrow> s \<noteq> [] \<and> (\<forall>c \<in> set (tl s). is_cont c)"

definition lead_chunk :: "string \<Rightarrow> bool" where
  "lead_chunk s \<longleftrightarrow> chunk s \<and> \<not> is_cont (hd s)"

lemma chunk_Cons [simp]: "chunk (c # s) \<longleftrightarrow> (\<forall>x \<in> set s. is_cont x)"
  by (simp add: chunk_def)

lemma chunk_Nil [simp]: "\<not> chunk []"
  by (simp add: chunk_def)

lemma lead_chunk_Cons [simp]: "lead_chunk (c # s) \<longleftrightarrow> \<not> is_cont c \<and> (\<forall>x \<in> set s. is_cont x)"
  by (auto simp: lead_chunk_def)

lemma lead_chunk_chunk: "lead_chunk s \<Longrightarrow> chunk s"
  by (simp add: lead_chunk_def)

lemma concat_lead_starts: "\<forall>s \<in> set cs. lead_chunk s \<Longrightarrow>
    takeWhile is_cont (concat cs) = [] \<and> dropWhile is_cont (concat cs) = concat cs"
  by (cases cs) (auto simp: lead_chunk_def chunk_def neq_Nil_conv)

lemma utf8_chars_concat_lead: "\<forall>s \<in> set cs. lead_chunk s \<Longrightarrow> utf8_chars (concat cs) = cs"
proof (induction cs)
  case Nil
  show ?case by simp
next
  case (Cons s cs)
  then obtain c t where s: "s = c # t" and t: "\<forall>x \<in> set t. is_cont x"
    by (auto simp: lead_chunk_def chunk_def neq_Nil_conv)
  have "takeWhile is_cont (t @ concat cs) = t" "dropWhile is_cont (t @ concat cs) = concat cs"
    using t concat_lead_starts [of cs] Cons.prems
    by (auto simp: takeWhile_append dropWhile_append)
  with s Cons show ?case by simp
qed

lemma utf8_chars_concat:
  "chunk s \<Longrightarrow> \<forall>x \<in> set cs. lead_chunk x \<Longrightarrow> utf8_chars (s @ concat cs) = s # cs"
  using concat_lead_starts [of cs] utf8_chars_concat_lead [of cs]
  by (cases s) (auto simp: takeWhile_append dropWhile_append)

lemma utf8_chars_chunks:
  "utf8_chars s = c # cs \<Longrightarrow> chunk c \<and> (\<forall>x \<in> set cs. lead_chunk x)"
proof (induction s arbitrary: c cs rule: utf8_chars.induct)
  case 1
  then show ?case by simp
next
  case (2 b s)
  let ?r = "dropWhile is_cont s"
  have "\<forall>x \<in> set (utf8_chars ?r). lead_chunk x"
  proof (cases "utf8_chars ?r")
    case (Cons d ds)
    then obtain e r where r: "?r = e # r" and d: "d = e # takeWhile is_cont r"
      by (cases ?r) auto
    have "\<not> is_cont e" using r by (metis hd_dropWhile list.distinct(1) list.sel(1))
    with d "2.IH" [OF Cons] Cons show ?thesis by (auto dest: set_takeWhileD)
  qed simp
  with "2.prems" show ?case by (auto dest: set_takeWhileD)
qed

lemma utf8_chars_take_filter:
  "utf8_chars (concat (filter P (take n (utf8_chars s)))) = filter P (take n (utf8_chars s))"
proof -
  let ?cs = "utf8_chars s"
  have *: "utf8_chars (concat xs) = xs"
    if "xs = [] \<or> (chunk (hd xs) \<and> (\<forall>x \<in> set (tl xs). lead_chunk x))" for xs
    using that by (cases xs) (auto simp: utf8_chars_concat)
  show ?thesis
  proof (cases ?cs)
    case (Cons c cs)
    have c: "chunk c" and cs: "\<forall>x \<in> set cs. lead_chunk x"
      using utf8_chars_chunks [OF Cons] by auto
    let ?f = "filter P (take n ?cs)"
    have "?f = [] \<or> (chunk (hd ?f) \<and> (\<forall>x \<in> set (tl ?f). lead_chunk x))"
    proof (cases n)
      case (Suc m)
      have fl: "\<forall>x \<in> set (filter P (take m cs)). lead_chunk x"
        using cs by (auto dest: in_set_takeD)
      show ?thesis
      proof (cases "P c")
        case True
        with Suc Cons c fl show ?thesis by simp
      next
        case False
        with Suc Cons fl show ?thesis
          by (cases "filter P (take m cs)") (auto intro: lead_chunk_chunk)
      qed
    qed simp
    then show ?thesis by (rule *)
  qed simp
qed

lemma length_take_chars: "length (utf8_chars (take_chars n s)) \<le> n"
  using utf8_chars_take_filter [of "\<lambda>_. True" n s] by (simp add: take_chars_def)

lemma take_chars_idem: "take_chars n (take_chars n s) = take_chars n s"
  using utf8_chars_take_filter [of "\<lambda>_. True" n s] by (simp add: take_chars_def)

text \<open>\<open>char::is_control\<close>: the C0 and C1 controls and DEL.\<close>

definition is_control :: "string \<Rightarrow> bool" where
  "is_control ch = (case ch of
     [b] \<Rightarrow> byte b < 32 \<or> byte b = 127
   | [a, b] \<Rightarrow> byte a = 194 \<and> 128 \<le> byte b \<and> byte b < 160
   | _ \<Rightarrow> False)"

text \<open>
  Whitespace of \<open>str::trim\<close> (the Unicode property \<open>White_Space\<close>) on characters, and
  \<open>s.trim().is_empty()\<close>.
\<close>

definition is_whitespace :: "string \<Rightarrow> bool" where
  "is_whitespace ch = (case map byte ch of
     [b] \<Rightarrow> (9 \<le> b \<and> b \<le> 13) \<or> b = 32
   | [a, b] \<Rightarrow> a = 194 \<and> (b = 133 \<or> b = 160)
   | [a, b, c] \<Rightarrow>
       (a = 225 \<and> b = 154 \<and> c = 128)
       \<or> (a = 226 \<and> b = 128 \<and> (128 \<le> c \<and> c \<le> 138 \<or> c = 168 \<or> c = 169 \<or> c = 175))
       \<or> (a = 226 \<and> b = 129 \<and> c = 159)
       \<or> (a = 227 \<and> b = 128 \<and> c = 128)
   | _ \<Rightarrow> False)"

definition str_trim :: "string \<Rightarrow> string" where
  "str_trim s = concat (rev (dropWhile is_whitespace (rev (dropWhile is_whitespace (utf8_chars s)))))"

definition str_blank :: "string \<Rightarrow> bool" where
  "str_blank s \<longleftrightarrow> str_trim s = []"

text \<open>\<open>format!("{n}")\<close> of an unsigned integer.\<close>

definition digit :: "nat \<Rightarrow> char" where
  "digit d = char_of (48 + d)"

fun nat_str :: "nat \<Rightarrow> string" where
  "nat_str n = (if n < 10 then [digit n] else nat_str (n div 10) @ [digit (n mod 10)])"

declare nat_str.simps [simp del]

fun str_nat :: "string \<Rightarrow> nat" where
  "str_nat s = foldl (\<lambda>a c. 10 * a + (byte c - 48)) 0 s"

lemma byte_digit: "d < 10 \<Longrightarrow> byte (digit d) = 48 + d"
  by (simp add: byte_def digit_def)

lemma str_nat_nat_str: "str_nat (nat_str n) = n"
proof (induction n rule: nat_str.induct)
  case (1 n)
  show ?case
  proof (cases "n < 10")
    case True
    then show ?thesis by (simp add: nat_str.simps [of n] byte_digit)
  next
    case False
    with 1 show ?thesis by (simp add: nat_str.simps [of n] byte_digit)
  qed
qed

lemma nat_str_inject [simp]: "nat_str m = nat_str n \<longleftrightarrow> m = n"
  by (metis str_nat_nat_str)

section \<open>64-bit counters\<close>

lemma unat_plus_one: "unat w < 2 ^ 64 - 1 \<Longrightarrow> unat (w + 1) = Suc (unat w)" for w :: "64 word"
  by (simp add: unat_word_ariths)

lemma word_incr_le:
  fixes a b :: "64 word"
  assumes "a < b"
  shows "a + 1 \<le> b" "unat (a + 1) = Suc (unat a)"
proof -
  have lt: "unat a < unat b" using assms by (simp add: word_less_nat_alt)
  moreover have "unat b < 2 ^ 64" using unsigned_less [of b] by simp
  ultimately show s: "unat (a + 1) = Suc (unat a)" by (intro unat_plus_one) linarith
  show "a + 1 \<le> b" using lt by (simp add: word_le_nat_alt s)
qed

lemma unat_incr: "unat (a + 1) = Suc (unat a)" if "a < b" for a b :: "'a::len word"
proof -
  have "unat a < unat b" "unat b < 2 ^ LENGTH('a)" using that by (simp_all add: word_less_nat_alt)
  then have "Suc (unat a) < 2 ^ LENGTH('a)" by linarith
  then show ?thesis by (simp add: unat_word_ariths unat_of_nat)
qed

end
