(* ===== verification/Favorites.thy ===== *)
theory Favorites
  imports Prelude
begin

text \<open>
  Favorites and pins (\<open>launcher-core/src/favorites.rs\<close>): the two SQLite tables as lists of rows in row
  order. Whether SQLite executes a statement, or commits a transaction, is an argument; a failed one
  leaves the tables as they are. Opening the file is I/O and left out.
\<close>

section \<open>The tables\<close>

definition MAX_FAVORITES :: nat where "MAX_FAVORITES = 256"
definition MAX_PINS :: nat where "MAX_PINS = 32"

record favorite_tables =
  fv_rows :: "(string \<times> int) list"
  fv_pins :: "(string \<times> int) list"

definition fv_empty :: favorite_tables where
  "fv_empty = \<lparr>fv_rows = [], fv_pins = []\<rparr>"

definition insert_or_ignore :: "string \<Rightarrow> int \<Rightarrow> (string \<times> int) list \<Rightarrow> (string \<times> int) list" where
  "insert_or_ignore k v rows = (if k \<in> fst ` set rows then rows else rows @ [(k, v)])"

definition insert_or_replace :: "string \<Rightarrow> int \<Rightarrow> (string \<times> int) list \<Rightarrow> (string \<times> int) list" where
  "insert_or_replace k v rows = filter (\<lambda>(k', _). k' \<noteq> k) rows @ [(k, v)]"

definition delete_row :: "string \<Rightarrow> (string \<times> int) list \<Rightarrow> (string \<times> int) list" where
  "delete_row k rows = filter (\<lambda>(k', _). k' \<noteq> k) rows"

text \<open>\<open>SELECT COALESCE(MAX(order_index), -1) + 1\<close>.\<close>

definition next_order :: "(string \<times> int) list \<Rightarrow> int" where
  "next_order pins = (if pins = [] then -1 else Max (snd ` set pins)) + 1"

text \<open>\<open>SELECT identity_key FROM pins ORDER BY order_index\<close>.\<close>

definition pinned_keys :: "(string \<times> int) list \<Rightarrow> string list" where
  "pinned_keys pins = map fst (sort_key snd pins)"

section \<open>Operations\<close>

text \<open>The result is \<open>None\<close> for a database error. The lookup of \<open>add\<close> and \<open>pin\<close> takes an error for a miss.\<close>

definition fv_add :: "bool \<times> bool \<times> bool \<Rightarrow> int \<Rightarrow> string \<Rightarrow> favorite_tables \<Rightarrow> bool option \<times> favorite_tables" where
  "fv_add db now k s = (case db of (count_ok, lookup_ok, insert_ok) \<Rightarrow>
     if \<not> count_ok then (None, s)
     else if (lookup_ok \<and> k \<in> fst ` set (fv_rows s)) \<or> length (fv_rows s) \<ge> MAX_FAVORITES then (Some False, s)
     else if \<not> insert_ok then (None, s)
     else (Some True, s\<lparr>fv_rows := insert_or_ignore k now (fv_rows s)\<rparr>))"

definition fv_remove :: "bool \<Rightarrow> string \<Rightarrow> favorite_tables \<Rightarrow> unit option \<times> favorite_tables" where
  "fv_remove commits k s =
     (if commits then (Some (), s\<lparr>fv_pins := delete_row k (fv_pins s), fv_rows := delete_row k (fv_rows s)\<rparr>) else (None, s))"

definition fv_pin :: "bool \<times> bool \<times> bool \<Rightarrow> int \<Rightarrow> string \<Rightarrow> favorite_tables \<Rightarrow> bool option \<times> favorite_tables" where
  "fv_pin db now k s = (case db of (count_ok, lookup_ok, commits) \<Rightarrow>
     if \<not> count_ok then (None, s)
     else if \<not> (lookup_ok \<and> k \<in> fst ` set (fv_pins s)) \<and> length (fv_pins s) \<ge> MAX_PINS then (Some False, s)
     else if \<not> commits then (None, s)
     else (Some True, s\<lparr>fv_rows := insert_or_ignore k now (fv_rows s),
            fv_pins := insert_or_replace k (next_order (fv_pins s)) (fv_pins s)\<rparr>))"

definition fv_unpin :: "bool \<Rightarrow> string \<Rightarrow> favorite_tables \<Rightarrow> unit option \<times> favorite_tables" where
  "fv_unpin ok k s = (if ok then (Some (), s\<lparr>fv_pins := delete_row k (fv_pins s)\<rparr>) else (None, s))"

definition move_to :: "string \<Rightarrow> nat \<Rightarrow> string list \<Rightarrow> string list" where
  "move_to k n keys = (let rest = remove1 k keys; n' = min n (length rest) in take n' rest @ k # drop n' rest)"

definition renumber :: "string list \<Rightarrow> (string \<times> int) list \<Rightarrow> (string \<times> int) list" where
  "renumber keys pins =
     fold (\<lambda>(i, k) rows. map (\<lambda>(k', v). (k', if k' = k then int i else v)) rows) (enumerate 0 keys) pins"

definition fv_reorder :: "bool \<times> bool \<Rightarrow> string \<Rightarrow> nat \<Rightarrow> favorite_tables \<Rightarrow> unit option \<times> favorite_tables" where
  "fv_reorder db k n s = (case db of (select_ok, commits) \<Rightarrow>
     if \<not> select_ok then (None, s)
     else if k \<notin> set (pinned_keys (fv_pins s)) then (Some (), s)
     else if \<not> commits then (None, s)
     else (Some (), s\<lparr>fv_pins := renumber (move_to k n (pinned_keys (fv_pins s))) (fv_pins s)\<rparr>))"

record favorite_snapshot =
  fs_favorites :: "string set"
  fs_pinned :: "string list"

definition fv_snapshot :: "bool \<Rightarrow> favorite_tables \<Rightarrow> favorite_snapshot option" where
  "fv_snapshot ok s = (if ok then Some \<lparr>fs_favorites = fst ` set (fv_rows s), fs_pinned = pinned_keys (fv_pins s)\<rparr> else None)"

definition is_favorite :: "favorite_snapshot \<Rightarrow> string \<Rightarrow> bool" where
  "is_favorite s k \<longleftrightarrow> k \<in> fs_favorites s"

definition is_pinned :: "favorite_snapshot \<Rightarrow> string \<Rightarrow> bool" where
  "is_pinned s k \<longleftrightarrow> list_ex (\<lambda>p. p = k) (fs_pinned s)"

section \<open>Pins are favorites\<close>

definition favorites_inv :: "favorite_tables \<Rightarrow> bool" where
  "favorites_inv s \<longleftrightarrow> distinct (map fst (fv_rows s)) \<and> distinct (map fst (fv_pins s))
     \<and> fst ` set (fv_pins s) \<subseteq> fst ` set (fv_rows s) \<and> length (fv_pins s) \<le> MAX_PINS"

datatype favorite_call =
    FavAdd "bool \<times> bool \<times> bool" int string | FavRemove bool string | FavPin "bool \<times> bool \<times> bool" int string
  | FavUnpin bool string | FavReorder "bool \<times> bool" string nat

fun favorite_step :: "favorite_call \<Rightarrow> favorite_tables \<Rightarrow> favorite_tables" where
  "favorite_step (FavAdd db now k) s = snd (fv_add db now k s)"
| "favorite_step (FavRemove ok k) s = snd (fv_remove ok k s)"
| "favorite_step (FavPin db now k) s = snd (fv_pin db now k s)"
| "favorite_step (FavUnpin ok k) s = snd (fv_unpin ok k s)"
| "favorite_step (FavReorder db k n) s = snd (fv_reorder db k n s)"

lemma keys_insert_or_ignore: "fst ` set (insert_or_ignore k v rows) = insert k (fst ` set rows)"
  by (auto simp: insert_or_ignore_def)

lemma distinct_insert_or_ignore: "distinct (map fst rows) \<Longrightarrow> distinct (map fst (insert_or_ignore k v rows))"
  by (auto simp: insert_or_ignore_def)

lemma keys_delete: "fst ` set (delete_row k rows) = fst ` set rows - {k}"
  by (auto simp: delete_row_def image_iff)

lemma distinct_delete: "distinct (map fst rows) \<Longrightarrow> distinct (map fst (delete_row k rows))"
  by (simp add: delete_row_def distinct_map_filter)

lemma insert_or_replace_delete: "insert_or_replace k v rows = delete_row k rows @ [(k, v)]"
  by (simp add: insert_or_replace_def delete_row_def)

lemma keys_insert_or_replace: "fst ` set (insert_or_replace k v rows) = insert k (fst ` set rows)"
  using keys_delete [of k rows] by (auto simp: insert_or_replace_delete)

lemma distinct_insert_or_replace: "distinct (map fst rows) \<Longrightarrow> distinct (map fst (insert_or_replace k v rows))"
  using keys_delete [of k rows] by (simp add: insert_or_replace_delete distinct_delete)

lemma length_insert_or_replace:
  "length (insert_or_replace k v rows) \<le> Suc (length rows)"
  "distinct (map fst rows) \<Longrightarrow> k \<in> fst ` set rows \<Longrightarrow> length (insert_or_replace k v rows) \<le> length rows"
proof -
  show "length (insert_or_replace k v rows) \<le> Suc (length rows)" by (simp add: insert_or_replace_def)
  assume "k \<in> fst ` set rows"
  then obtain x where "x \<in> set rows" "fst x = k" by auto
  then have "length (filter (\<lambda>(k', _). k' \<noteq> k) rows) < length rows"
    by (intro length_filter_less [of x]) auto
  then show "length (insert_or_replace k v rows) \<le> length rows" by (simp add: insert_or_replace_def)
qed

lemma keys_renumber [simp]: "map fst (renumber keys pins) = map fst pins"
proof -
  have "map fst (fold (\<lambda>(i, k) rows. map (\<lambda>(k', v). (k', if k' = k then int i else v)) rows) ps rows) = map fst rows" for ps rows
    by (induction ps arbitrary: rows) (auto simp: comp_def case_prod_beta)
  then show ?thesis by (simp add: renumber_def)
qed

lemma call_outcomes:
  "snd (fv_add db now k s) \<in> {s, s\<lparr>fv_rows := insert_or_ignore k now (fv_rows s)\<rparr>}"
  "snd (fv_remove ok k s) \<in> {s, s\<lparr>fv_pins := delete_row k (fv_pins s), fv_rows := delete_row k (fv_rows s)\<rparr>}"
  "snd (fv_unpin ok k s) \<in> {s, s\<lparr>fv_pins := delete_row k (fv_pins s)\<rparr>}"
  "snd (fv_reorder cb k n s) \<in> {s, s\<lparr>fv_pins := renumber (move_to k n (pinned_keys (fv_pins s))) (fv_pins s)\<rparr>}"
  "snd (fv_pin db now k s) = s \<or> ((k \<in> fst ` set (fv_pins s) \<or> length (fv_pins s) < MAX_PINS)
     \<and> snd (fv_pin db now k s) = s\<lparr>fv_rows := insert_or_ignore k now (fv_rows s),
          fv_pins := insert_or_replace k (next_order (fv_pins s)) (fv_pins s)\<rparr>)"
  by (auto simp: fv_add_def fv_remove_def fv_unpin_def fv_reorder_def fv_pin_def not_le split: prod.split if_split)

lemma favorites_inv_changes:
  assumes "favorites_inv s"
  shows "favorites_inv (s\<lparr>fv_rows := insert_or_ignore k now (fv_rows s)\<rparr>)"
    "favorites_inv (s\<lparr>fv_pins := delete_row k (fv_pins s), fv_rows := delete_row k (fv_rows s)\<rparr>)"
    "favorites_inv (s\<lparr>fv_pins := delete_row k (fv_pins s)\<rparr>)"
    "favorites_inv (s\<lparr>fv_pins := renumber keys (fv_pins s)\<rparr>)"
    "k \<in> fst ` set (fv_pins s) \<or> length (fv_pins s) < MAX_PINS \<Longrightarrow>
      favorites_inv (s\<lparr>fv_rows := insert_or_ignore k now (fv_rows s), fv_pins := insert_or_replace k v (fv_pins s)\<rparr>)"
proof -
  have inv: "distinct (map fst (fv_rows s))" "distinct (map fst (fv_pins s))" "fst ` set (fv_pins s) \<subseteq> fst ` set (fv_rows s)"
    "length (fv_pins s) \<le> MAX_PINS" using assms by (simp_all add: favorites_inv_def)
  have short: "length (delete_row k (fv_pins s)) \<le> MAX_PINS"
    using inv(4) unfolding delete_row_def by (rule le_trans [OF length_filter_le])
  show "favorites_inv (s\<lparr>fv_rows := insert_or_ignore k now (fv_rows s)\<rparr>)"
    using inv by (simp add: favorites_inv_def keys_insert_or_ignore distinct_insert_or_ignore subset_insertI2)
  show "favorites_inv (s\<lparr>fv_pins := delete_row k (fv_pins s), fv_rows := delete_row k (fv_rows s)\<rparr>)"
    "favorites_inv (s\<lparr>fv_pins := delete_row k (fv_pins s)\<rparr>)"
    using inv short by (auto simp: favorites_inv_def keys_delete distinct_delete)
  have "fst ` set (renumber keys (fv_pins s)) = fst ` set (fv_pins s)" "length (renumber keys (fv_pins s)) = length (fv_pins s)"
    by (metis keys_renumber list.set_map, metis keys_renumber length_map)
  then show "favorites_inv (s\<lparr>fv_pins := renumber keys (fv_pins s)\<rparr>)" using inv by (simp add: favorites_inv_def)
  assume "k \<in> fst ` set (fv_pins s) \<or> length (fv_pins s) < MAX_PINS"
  then have "length (insert_or_replace k v (fv_pins s)) \<le> MAX_PINS"
    using length_insert_or_replace [where k = k and v = v and rows = "fv_pins s"] inv(2,4) by linarith
  then show "favorites_inv (s\<lparr>fv_rows := insert_or_ignore k now (fv_rows s), fv_pins := insert_or_replace k v (fv_pins s)\<rparr>)"
    using inv by (auto simp: favorites_inv_def keys_insert_or_ignore distinct_insert_or_ignore keys_insert_or_replace
        distinct_insert_or_replace)
qed

lemma favorites_inv_step: "favorites_inv s \<Longrightarrow> favorites_inv (favorite_step c s)"
  by (cases c) (metis favorite_step.simps favorites_inv_changes call_outcomes insertE singletonD)+

lemma favorites_inv_calls: "favorites_inv (fold favorite_step cs fv_empty)"
proof -
  have "favorites_inv s \<Longrightarrow> favorites_inv (fold favorite_step cs s)" for s
    by (induction cs arbitrary: s) (simp_all add: favorites_inv_step)
  then show ?thesis by (simp add: favorites_inv_def fv_empty_def)
qed

text \<open>A pin adds a favorite past the limit that \<open>add\<close> keeps.\<close>

lemma pin_exceeds_favorites:
  assumes "length (fv_rows s) = MAX_FAVORITES" "k \<notin> fst ` set (fv_rows s)" "length (fv_pins s) < MAX_PINS"
  shows "fv_add (True, True, True) now k s = (Some False, s)"
    "length (fv_rows (snd (fv_pin (True, True, True) now k s))) = Suc MAX_FAVORITES"
  using assms by (simp_all add: fv_add_def fv_pin_def insert_or_ignore_def)

end
