(* ===== verification/Values.thy ===== *)
theory Values
  imports Prelude
begin

text \<open>
  Data the components exchange: \<open>f64\<close> values with their IEEE comparisons, \<open>serde_json::Value\<close>,
  \<open>HashSet<String>\<close> as a list without repetitions, keyed stores (hash maps and tables with a
  primary key) and first-in-first-out bounded logs. The interfaces several components share
  are locales: \<open>keyed_store\<close> (what a lookup returns after an insert), \<open>bounded_log\<close>
  (what a capped push keeps) and \<open>frozen_states\<close> (what no operation leaves).
\<close>

section \<open>Numbers\<close>

text \<open>
  \<open>f64\<close> as far as the program compares it: a finite value is the rational it denotes. The sign
  of zero is not kept, since no comparison sees it.
\<close>

datatype f64 = Fin rat | PInf | NInf | NaN

fun f64_eq :: "f64 \<Rightarrow> f64 \<Rightarrow> bool" where
  "f64_eq (Fin a) (Fin b) = (a = b)"
| "f64_eq PInf PInf = True"
| "f64_eq NInf NInf = True"
| "f64_eq _ _ = False"

fun f64_lt :: "f64 \<Rightarrow> f64 \<Rightarrow> bool" where
  "f64_lt (Fin a) (Fin b) = (a < b)"
| "f64_lt (Fin a) PInf = True"
| "f64_lt NInf (Fin b) = True"
| "f64_lt NInf PInf = True"
| "f64_lt _ _ = False"

definition f64_le :: "f64 \<Rightarrow> f64 \<Rightarrow> bool" where
  "f64_le a b \<longleftrightarrow> f64_lt a b \<or> f64_eq a b"

lemma f64_lt_irrefl [simp]: "\<not> f64_lt x x"
  by (cases x) auto

lemma f64_lt_trans: "f64_lt x y \<Longrightarrow> f64_lt y z \<Longrightarrow> f64_lt x z"
  by (cases x; cases y; cases z) auto

text \<open>Rounding an integer to the nearest double, ties to even (\<open>u64 as f64\<close>).\<close>

definition round53 :: "nat \<Rightarrow> nat" where
  "round53 n = (if n < 2 ^ 53 then n else
     let e = floorlog 2 n - 53; q = n div 2 ^ e; r = n mod 2 ^ e; h = 2 ^ (e - 1)
     in (if h < r \<or> (r = h \<and> odd q) then q + 1 else q) * 2 ^ e)"

definition f64_of_int :: "int \<Rightarrow> f64" where
  "f64_of_int i = Fin (of_int (sgn i * int (round53 (nat \<bar>i\<bar>))))"

section \<open>JSON\<close>

text \<open>\<open>serde_json::Number\<close> is an unsigned or a negative 64-bit integer or a finite double.
  A JSON object is its member list, keys distinct.\<close>

datatype json_number = PosInt "64 word" | NegInt "64 word" | JFloat f64

datatype json =
    JNull
  | JBool bool
  | JNumber json_number
  | JString string
  | JArray "json list"
  | JObject "(string \<times> json) list"

fun number_as_f64 :: "json_number \<Rightarrow> f64" where
  "number_as_f64 (PosInt w) = f64_of_int (uint w)"
| "number_as_f64 (NegInt w) = f64_of_int (sint w)"
| "number_as_f64 (JFloat x) = x"

fun json_as_f64 :: "json \<Rightarrow> f64 option" where
  "json_as_f64 (JNumber n) = Some (number_as_f64 n)"
| "json_as_f64 _ = None"

fun json_as_str :: "json \<Rightarrow> string option" where
  "json_as_str (JString s) = Some s"
| "json_as_str _ = None"

fun json_as_object :: "json \<Rightarrow> (string \<times> json) list option" where
  "json_as_object (JObject m) = Some m"
| "json_as_object _ = None"

definition json_is_null :: "json \<Rightarrow> bool" where
  "json_is_null v \<longleftrightarrow> v = JNull"

definition json_is_object :: "json \<Rightarrow> bool" where
  "json_is_object v \<longleftrightarrow> json_as_object v \<noteq> None"

section \<open>Hash sets of strings\<close>

text \<open>A \<open>HashSet\<close> is a list without repetitions; \<open>insert\<close> keeps a present element. Its
  iteration order, which Rust leaves unspecified, is the list's.\<close>

definition hs_insert :: "'a \<Rightarrow> 'a list \<Rightarrow> 'a list" where
  "hs_insert x xs = (if x \<in> set xs then xs else xs @ [x])"

definition hs_from_list :: "'a list \<Rightarrow> 'a list" where
  "hs_from_list xs = fold hs_insert xs []"

lemma set_hs_insert [simp, set_algebra]: "set (hs_insert x xs) = insert x (set xs)"
  by (auto simp: hs_insert_def)

lemma distinct_hs_insert [simp]: "distinct (hs_insert x xs) = distinct xs"
  by (auto simp: hs_insert_def)

lemma set_fold_hs_insert: "set (fold hs_insert xs ys) = set xs \<union> set ys"
  by (induction xs arbitrary: ys) auto

lemma set_hs_from_list [simp, set_algebra]: "set (hs_from_list xs) = set xs"
  by (simp add: hs_from_list_def set_fold_hs_insert)

lemma distinct_hs_from_list [simp]: "distinct (hs_from_list xs)"
proof -
  have "distinct ys \<Longrightarrow> distinct (fold hs_insert xs ys)" for ys
    by (induction xs arbitrary: ys) auto
  then show ?thesis by (simp add: hs_from_list_def)
qed

section \<open>Keyed stores\<close>

text \<open>A store of entries, each under its key: a lookup after an insert returns the entry just
  inserted under its key and leaves every other key alone.\<close>

locale keyed_store =
  fixes get :: "'s \<Rightarrow> 'k \<Rightarrow> 'v option"
    and put :: "'v \<Rightarrow> 's \<Rightarrow> 's"
    and key :: "'v \<Rightarrow> 'k"
  assumes get_put: "get (put v s) k = (if k = key v then Some v else get s k)"
begin

lemma get_put_same: "get (put v s) (key v) = Some v"
  by (simp add: get_put)

lemma get_put_other: "k \<noteq> key v \<Longrightarrow> get (put v s) k = get s k"
  by (simp add: get_put)

lemma get_put_twice: "key v = key w \<Longrightarrow> get (put w (put v s)) k = get (put w s) k"
  by (simp add: get_put)

lemma get_put_commute: "key v \<noteq> key w \<Longrightarrow> get (put w (put v s)) k = get (put v (put w s)) k"
  by (auto simp: get_put)

text \<open>A batch of inserts: the last entry under a key wins.\<close>

lemma get_fold_put:
  "get (fold put vs s) k = (case find (\<lambda>v. key v = k) (rev vs) of Some v \<Rightarrow> Some v | None \<Rightarrow> get s k)"
proof (induction vs arbitrary: s)
  case (Cons v vs)
  have "find P (xs @ [x]) = (case find P xs of Some y \<Rightarrow> Some y | None \<Rightarrow> if P x then Some x else None)"
    for P xs and x :: 'v
    by (induction xs) auto
  with Cons show ?case by (auto simp: get_put split: option.splits)
qed simp

lemma get_fold_put_none: "(\<forall>v \<in> set vs. key v \<noteq> k) \<Longrightarrow> get (fold put vs s) k = get s k"
  by (induction vs arbitrary: s) (auto simp: get_put)

end

text \<open>Rows in insertion order, unique under a key: \<open>INSERT ... ON CONFLICT DO UPDATE\<close> and a
  lookup by primary key.\<close>

fun upsert :: "('r \<Rightarrow> 'k) \<Rightarrow> 'r \<Rightarrow> 'r list \<Rightarrow> 'r list" where
  "upsert key r [] = [r]"
| "upsert key r (q # rs) = (if key q = key r then r # rs else q # upsert key r rs)"

definition row_get :: "('r \<Rightarrow> 'k) \<Rightarrow> 'r list \<Rightarrow> 'k \<Rightarrow> 'r option" where
  "row_get key rs k = find (\<lambda>r. key r = k) rs"

interpretation rows: keyed_store "row_get key" "upsert key" key for key :: "'r \<Rightarrow> 'k"
proof
  fix v s k
  show "row_get key (upsert key v s) k = (if k = key v then Some v else row_get key s k)"
    by (induction s) (auto simp: row_get_def)
qed

lemma row_get_key: "row_get key rs k = Some r \<Longrightarrow> key r = k \<and> r \<in> set rs"
  by (auto simp: row_get_def find_Some_iff)

lemma find_append:
  "find P (xs @ ys) = (case find P xs of Some y \<Rightarrow> Some y | None \<Rightarrow> find P ys)"
  by (induction xs) auto

lemma find_rev_distinct:
  "distinct (map f xs) \<Longrightarrow> find (\<lambda>x. f x = k) (rev xs) = find (\<lambda>x. f x = k) xs"
proof (induction xs)
  case (Cons x xs)
  have "f x = k \<Longrightarrow> find (\<lambda>x. f x = k) xs = None"
    using Cons.prems unfolding find_None_iff
    by (metis distinct.simps(2) image_eqI list.simps(9) set_map)
  with Cons show ?case by (auto simp: find_append split: option.splits)
qed simp

lemma distinct_upsert: "distinct (map key rs) \<Longrightarrow> distinct (map key (upsert key r rs))"
proof (induction rs)
  case (Cons q rs)
  have "key ` set (upsert key r rs) \<subseteq> insert (key r) (key ` set rs)"
    by (induction rs) auto
  with Cons show ?case by auto
qed simp

lemma set_upsert: "set (upsert key r rs) \<subseteq> insert r (set rs)"
  by (induction rs) auto

text \<open>Insertion into a \<open>BTreeMap\<close>: rows sorted by key.\<close>

fun bt_insert :: "('r \<Rightarrow> 'k::linorder) \<Rightarrow> 'r \<Rightarrow> 'r list \<Rightarrow> 'r list" where
  "bt_insert key r [] = [r]"
| "bt_insert key r (q # rs) =
     (if key r < key q then r # q # rs
      else if key r = key q then r # rs
      else q # bt_insert key r rs)"

lemma row_get_bt_insert:
  "row_get key (bt_insert key r rs) k = (if k = key r then Some r else row_get key rs k)"
  by (induction rs) (auto simp: row_get_def)

lemma set_bt_insert: "set (bt_insert key r rs) \<subseteq> insert r (set rs)"
  by (induction rs) auto

lemma sorted_bt_insert: "sorted_wrt (<) (map key rs) \<Longrightarrow> sorted_wrt (<) (map key (bt_insert key r rs))"
proof (induction rs)
  case (Cons q rs)
  have "key ` set (bt_insert key r rs) \<subseteq> insert (key r) (key ` set rs)"
    using set_bt_insert [of key r rs] by auto
  with Cons show ?case by (auto dest: less_trans)
qed simp

section \<open>Bounded logs\<close>

text \<open>A first-in-first-out log capped at a length: a push appends the entry and drops the
  oldest ones.\<close>

locale bounded_log =
  fixes push :: "'e \<Rightarrow> 'l \<Rightarrow> 'l"
    and items :: "'l \<Rightarrow> 'i list"
    and item :: "'e \<Rightarrow> 'i"
    and cap :: nat
  assumes cap_pos: "0 < cap"
    and items_push: "items (push e l) =
      (if cap \<le> length (items l) then tl (items l) else items l) @ [item e]"
begin

lemma push_within_cap: "length (items l) \<le> cap \<Longrightarrow> length (items (push e l)) \<le> cap"
  using cap_pos by (auto simp: items_push)

lemma last_push: "last (items (push e l)) = item e"
  by (simp add: items_push)

lemma fold_push_within_cap: "length (items l) \<le> cap \<Longrightarrow> length (items (fold push es l)) \<le> cap"
  by (induction es arbitrary: l) (auto simp: push_within_cap)

text \<open>What a run of pushes leaves is the newest part of everything pushed.\<close>

lemma items_fold_push:
  assumes "length (items l) \<le> cap"
  shows "items (fold push es l) =
    drop (length (items l) + length es - cap) (items l @ map item es)"
  using assms
proof (induction es arbitrary: l)
  case (Cons e es)
  have len: "length (items (push e l)) \<le> cap"
    by (rule push_within_cap) (rule Cons.prems)
  show ?case
  proof (cases "cap \<le> length (items l)")
    case True
    with Cons.prems have full: "length (items l) = cap" by simp
    then obtain x xs where x: "items l = x # xs" using cap_pos by (cases "items l") auto
    from full x have "items (push e l) = xs @ [item e]" and "length xs = cap - 1"
      by (simp_all add: items_push)
    with Cons.IH [OF len] full x cap_pos show ?thesis
      by (simp add: drop_Cons' Suc_diff_le)
  next
    case False
    then have "items (push e l) = items l @ [item e]" by (simp add: items_push)
    with Cons.IH [OF len] show ?thesis by simp
  qed
qed simp

end

section \<open>Frozen states\<close>

text \<open>An operation that leaves some states alone: once such a state is reached, no sequence of
  operations leaves it.\<close>

locale frozen_states =
  fixes step :: "'op \<Rightarrow> 's \<Rightarrow> 's"
    and frozen :: "'s \<Rightarrow> bool"
  assumes frozen_step: "frozen s \<Longrightarrow> step opn s = s"
begin

lemma frozen_fold: "frozen s \<Longrightarrow> fold step ops s = s"
  by (induction ops) (simp_all add: frozen_step)

lemma frozen_prefix: "frozen (fold step xs s) \<Longrightarrow> fold step (xs @ ys) s = fold step xs s"
  by (simp add: frozen_fold)

end

end
