(* ===== verification/Domain.thy ===== *)
theory Domain
  imports Values
begin

text \<open>
  The domain model (\<open>launcher-domain/src/lib.rs\<close>): commands, actions and capabilities, the resolver
  that turns an untrusted action descriptor into an executable action, the projection of a payload's
  identity fields, and the lexical identity of file system paths.
\<close>

section \<open>Splitting and joining\<close>

text \<open>\<open>s.split(p)\<close> for a character predicate, and \<open>join\<close>.\<close>

fun split_on :: "('a \<Rightarrow> bool) \<Rightarrow> 'a list \<Rightarrow> 'a list list" where
  "split_on P [] = [[]]"
| "split_on P (c # s) =
     (if P c then [] # split_on P s
      else case split_on P s of [] \<Rightarrow> [[c]] | w # ws \<Rightarrow> (c # w) # ws)"

fun join_str :: "string \<Rightarrow> string list \<Rightarrow> string" where
  "join_str sep [] = []"
| "join_str sep [w] = w"
| "join_str sep (w # v # ws) = w @ sep @ join_str sep (v # ws)"

lemma split_on_neq_Nil [simp]: "split_on P s \<noteq> []"
  by (induction s) (auto split: list.splits)

lemma split_on_free: "\<forall>c \<in> set s. \<not> P c \<Longrightarrow> split_on P s = [s]"
  by (induction s) auto

lemma split_on_append: "\<forall>c \<in> set w. \<not> P c \<Longrightarrow> P d \<Longrightarrow> split_on P (w @ d # s) = w # split_on P s"
  by (induction w) auto

lemma split_on_parts: "w \<in> set (split_on P s) \<Longrightarrow> c \<in> set w \<Longrightarrow> \<not> P c"
  by (induction s arbitrary: w) (fastforce split: if_splits list.splits)+

lemma split_join:
  "\<forall>w \<in> set ws. \<forall>c \<in> set w. \<not> P c \<Longrightarrow> P d \<Longrightarrow> ws \<noteq> [] \<Longrightarrow> split_on P (join_str [d] ws) = ws"
  by (induction ws rule: induct_list012) (auto simp: split_on_free split_on_append)

section \<open>Actions and commands\<close>

datatype action_kind = ActOpen | ActCopy | ActReveal | ActOpenTerminalHere | ActExecute | ActPaste
  | ActPluginInvoke | ActRunAsAdmin

datatype action_payload = PlPath string | PlText string | PlCommandLine string | PlHwnd int
  | PlJson json | PlNone

record action =
  ac_kind :: action_kind
  ac_payload :: "action_payload option"
  ac_id :: "string option"
  ac_title :: "string option"
  ac_disabled :: "string option"
  ac_shortcut :: "string option"
  ac_confirm :: bool

datatype capability = FilesystemRead | FilesystemWrite | ClipboardRead | ClipboardWrite | Network
  | ShellExecute | ProcessSpawn | Notifications | UiRender | ContextProcessRead | ContextWindowRead
  | ContextLocationRead | ContextSelectionRead | StoreRead | StoreWrite | CapPluginInvoke | McpInvoke

record action_descriptor =
  de_id :: string
  de_title :: "string option"
  de_type :: string
  de_input :: json
  de_requires :: "capability list"
  de_shortcut :: "string option"
  de_confirmation :: "string option"

datatype descriptor_error = UnknownActionType string | InvalidDescriptorInput string
  | CapabilityDenied "capability list"

datatype category = CatApplication | CatFile | CatFolder | CatCommand | CatPlugin

record command =
  cmd_id :: string
  cmd_title :: string
  cmd_subtitle :: "string option"
  cmd_icon :: "string option"
  cmd_provider :: string
  cmd_score :: f64
  cmd_keywords :: "string list"
  cmd_category :: category
  cmd_actions :: "action list"
  cmd_target :: "string option"

definition primary_action :: "command \<Rightarrow> action option" where
  "primary_action c = find (\<lambda>a. ac_disabled a = None) (cmd_actions c)"

section \<open>Resolving descriptors\<close>

text \<open>\<open>Value::get(key)\<close>.\<close>

fun json_get :: "json \<Rightarrow> string \<Rightarrow> json option" where
  "json_get (JObject m) k = map_of m k"
| "json_get _ k = None"

definition owns_plugin_namespace :: "string \<Rightarrow> string \<Rightarrow> bool" where
  "owns_plugin_namespace owner target =
     (if owner = [] \<or> target = [] then False
      else target = owner
        \<or> (case strip_prefix target owner of Some rest \<Rightarrow> starts_with rest ''.'' | None \<Rightarrow> False))"

definition base_action :: "action_descriptor \<Rightarrow> action_kind \<Rightarrow> action_payload option \<Rightarrow> action" where
  "base_action d kind payload =
     \<lparr>ac_kind = kind, ac_payload = payload, ac_id = None, ac_title = None, ac_disabled = None,
      ac_shortcut = de_shortcut d,
      ac_confirm = (de_confirmation d = Some ''confirm''
        \<or> list_ex (\<lambda>c. c = ShellExecute \<or> c = ProcessSpawn) (de_requires d))\<rparr>"

definition get_str :: "action_descriptor \<Rightarrow> string \<Rightarrow> string option" where
  "get_str d key = (case json_get (de_input d) key of Some v \<Rightarrow> json_as_str v | None \<Rightarrow> None)"

definition from_field :: "action_descriptor \<Rightarrow> string \<Rightarrow> action_kind \<Rightarrow> (string \<Rightarrow> action_payload) \<Rightarrow>
    descriptor_error + action" where
  "from_field d key kind payload = (case get_str d key of
     Some t \<Rightarrow> Ok (base_action d kind (Some (payload t)))
   | None \<Rightarrow> Err (InvalidDescriptorInput (de_type d)))"

definition resolve_system :: "action_descriptor \<Rightarrow> capability list \<Rightarrow> capability list \<Rightarrow>
    descriptor_error + action" where
  "resolve_system d granted effective =
     (let missing = filter (\<lambda>c. c \<notin> set granted) effective in
      if missing \<noteq> [] then Err (CapabilityDenied missing)
      else if de_type d = ''system.copy_to_clipboard'' then from_field d ''text'' ActCopy PlText
      else if de_type d = ''system.open'' then from_field d ''target'' ActOpen PlPath
      else if de_type d = ''system.reveal'' then from_field d ''path'' ActReveal PlPath
      else if de_type d = ''system.open_terminal_here'' then from_field d ''path'' ActOpenTerminalHere PlPath
      else if de_type d = ''system.execute'' then from_field d ''command_line'' ActExecute PlCommandLine
      else if de_type d = ''system.paste'' then Ok (base_action d ActPaste None)
      else if starts_with (de_type d) ''plugin.'' then
        (if json_is_object (de_input d) then Ok (base_action d ActPluginInvoke (Some (PlJson (de_input d))))
         else Err (InvalidDescriptorInput (de_type d)))
      else Err (UnknownActionType (de_type d)))"

definition push_new :: "'a \<Rightarrow> 'a list \<Rightarrow> 'a list" where
  "push_new x xs = (if x \<in> set xs then xs else xs @ [x])"

definition resolve_descriptor_for :: "action_descriptor \<Rightarrow> capability list \<Rightarrow> string option \<Rightarrow>
    descriptor_error + action" where
  "resolve_descriptor_for d granted own =
     (if de_type d = ''plugin.mcp.invoke''
      then resolve_system d granted (push_new McpInvoke (de_requires d))
      else case strip_prefix (de_type d) ''plugin.'' of
        None \<Rightarrow> resolve_system d granted (de_requires d)
      | Some rest \<Rightarrow> (case own of
          None \<Rightarrow> Err (UnknownActionType (de_type d))
        | Some o' \<Rightarrow>
            if \<not> owns_plugin_namespace o' rest
            then Err (InvalidDescriptorInput (''cross-plugin action denied: '' @ de_type d @ '' (producer is '' @ o' @ '')''))
            else resolve_system d granted (push_new CapPluginInvoke (de_requires d))))"

definition resolve_descriptor :: "action_descriptor \<Rightarrow> capability list \<Rightarrow> descriptor_error + action" where
  "resolve_descriptor d granted = resolve_descriptor_for d granted None"

definition ACTION_IDENTITY_FIELDS :: "string list" where
  "ACTION_IDENTITY_FIELDS = [''server_id'', ''tool_name'']"

definition identity_mismatch :: "json \<Rightarrow> json \<Rightarrow> string list" where
  "identity_mismatch projected runtime = (case (json_as_object projected, json_as_object runtime) of
     (Some p, Some r) \<Rightarrow> filter (\<lambda>f. case (map_of p f, map_of r f) of
         (Some a, Some b) \<Rightarrow> a \<noteq> b | _ \<Rightarrow> False) ACTION_IDENTITY_FIELDS
   | _ \<Rightarrow> [])"

lemma owns_plugin_namespace_iff:
  "owns_plugin_namespace owner target \<longleftrightarrow>
    owner \<noteq> [] \<and> (target = owner \<or> (\<exists>rest. target = owner @ CHR ''.'' # rest))"
  by (auto simp: owns_plugin_namespace_def strip_prefix_def starts_with_iff split: if_splits)

lemma resolve_system_Ok:
  assumes "resolve_system d granted eff = Ok a"
  shows "set eff \<subseteq> set granted" "ac_disabled a = None"
    "ac_confirm a \<longleftrightarrow> de_confirmation d = Some ''confirm'' \<or> ShellExecute \<in> set (de_requires d) \<or> ProcessSpawn \<in> set (de_requires d)"
    "ac_kind a = ActPluginInvoke \<longleftrightarrow> starts_with (de_type d) ''plugin.''"
    "ac_kind a = ActPluginInvoke \<Longrightarrow> ac_payload a = Some (PlJson (de_input d)) \<and> json_is_object (de_input d)"
    "ac_kind a \<noteq> ActRunAsAdmin"
proof -
  have miss: "filter (\<lambda>c. c \<notin> set granted) eff = []"
    using assms by (auto simp: resolve_system_def Let_def split: if_splits)
  then show "set eff \<subseteq> set granted" by (auto simp: filter_empty_conv)
  note A = assms [unfolded resolve_system_def Let_def miss from_field_def]
  show "ac_disabled a = None" "ac_kind a \<noteq> ActRunAsAdmin"
    using A by (auto simp: base_action_def split: if_splits option.splits)
  show "ac_confirm a \<longleftrightarrow> de_confirmation d = Some ''confirm'' \<or> ShellExecute \<in> set (de_requires d) \<or> ProcessSpawn \<in> set (de_requires d)"
    using A by (auto simp: base_action_def list_ex_iff split: if_splits option.splits)
  show "ac_kind a = ActPluginInvoke \<longleftrightarrow> starts_with (de_type d) ''plugin.''"
    using A by (auto simp: base_action_def split: if_splits option.splits)
  show "ac_kind a = ActPluginInvoke \<Longrightarrow> ac_payload a = Some (PlJson (de_input d)) \<and> json_is_object (de_input d)"
    using A by (auto simp: base_action_def split: if_splits option.splits)
qed

lemma set_push_new [simp]: "set (push_new x xs) = insert x (set xs)"
  by (auto simp: push_new_def)

text \<open>What a resolved action carries: no capability that was not granted, no namespace of another
  plugin.\<close>

lemma resolve_descriptor_for_Ok:
  assumes "resolve_descriptor_for d granted own = Ok a"
  shows "set (de_requires d) \<subseteq> set granted"
    "ac_kind a = ActPluginInvoke \<Longrightarrow>
      (de_type d = ''plugin.mcp.invoke'' \<and> McpInvoke \<in> set granted)
      \<or> (\<exists>o' rest. own = Some o' \<and> de_type d = ''plugin.'' @ rest \<and> owns_plugin_namespace o' rest
           \<and> CapPluginInvoke \<in> set granted)"
    "ac_confirm a \<longleftrightarrow> de_confirmation d = Some ''confirm'' \<or> ShellExecute \<in> set (de_requires d) \<or> ProcessSpawn \<in> set (de_requires d)"
proof -
  have *: "set (de_requires d) \<subseteq> set granted
    \<and> (ac_kind a = ActPluginInvoke \<longrightarrow>
      (de_type d = ''plugin.mcp.invoke'' \<and> McpInvoke \<in> set granted)
      \<or> (\<exists>o' rest. own = Some o' \<and> de_type d = ''plugin.'' @ rest \<and> owns_plugin_namespace o' rest
           \<and> CapPluginInvoke \<in> set granted))
    \<and> (\<exists>eff. resolve_system d granted eff = Ok a)"
  proof (cases "de_type d = ''plugin.mcp.invoke''")
    case True
    with assms have r: "resolve_system d granted (push_new McpInvoke (de_requires d)) = Ok a"
      by (simp add: resolve_descriptor_for_def)
    with resolve_system_Ok(1) [OF r] True show ?thesis by auto
  next
    case nm: False
    show ?thesis
    proof (cases "starts_with (de_type d) ''plugin.''")
      case False
      with nm assms have r: "resolve_system d granted (de_requires d) = Ok a"
        by (simp add: resolve_descriptor_for_def strip_prefix_def)
      with resolve_system_Ok(1,4) [OF r] False show ?thesis by auto
    next
      case True
      then obtain rest where rest: "de_type d = ''plugin.'' @ rest" by (auto simp: starts_with_iff)
      with nm assms obtain o' where o': "own = Some o'" "owns_plugin_namespace o' rest"
        and r: "resolve_system d granted (push_new CapPluginInvoke (de_requires d)) = Ok a"
        by (auto simp: resolve_descriptor_for_def strip_prefix_def split: option.splits if_splits)
      with resolve_system_Ok(1) [OF r] rest show ?thesis by auto
    qed
  qed
  then show "set (de_requires d) \<subseteq> set granted"
    "ac_kind a = ActPluginInvoke \<Longrightarrow>
      (de_type d = ''plugin.mcp.invoke'' \<and> McpInvoke \<in> set granted)
      \<or> (\<exists>o' rest. own = Some o' \<and> de_type d = ''plugin.'' @ rest \<and> owns_plugin_namespace o' rest
           \<and> CapPluginInvoke \<in> set granted)"
    by blast+
  from * show "ac_confirm a \<longleftrightarrow> de_confirmation d = Some ''confirm'' \<or> ShellExecute \<in> set (de_requires d) \<or> ProcessSpawn \<in> set (de_requires d)"
    using resolve_system_Ok(3) by blast
qed

lemma identity_mismatch_Nil:
  "identity_mismatch (JObject p) (JObject r) = [] \<longleftrightarrow>
    (\<forall>f \<in> {''server_id'', ''tool_name''}. \<forall>a b. map_of p f = Some a \<longrightarrow> map_of r f = Some b \<longrightarrow> a = b)"
  by (auto simp: identity_mismatch_def ACTION_IDENTITY_FIELDS_def filter_empty_conv split: option.splits)

section \<open>Path identity\<close>

text \<open>\<open>normalize_path_identity\<close>, purely lexical. Unicode lowercasing is the argument \<open>lower\<close>.\<close>

definition is_sep :: "char \<Rightarrow> bool" where
  "is_sep c \<longleftrightarrow> c = CHR ''/'' \<or> c = CHR 0x5C"

definition verbatim_prefix :: string where "verbatim_prefix = [CHR 0x5C, CHR 0x5C, CHR ''?'', CHR 0x5C]"
definition verbatim_unc :: string where "verbatim_unc = verbatim_prefix @ ''UNC'' @ [CHR 0x5C]"
definition device_prefix :: string where "device_prefix = [CHR 0x5C, CHR 0x5C, CHR ''.'', CHR 0x5C]"

definition is_device_namespace :: "string \<Rightarrow> bool" where
  "is_device_namespace raw = starts_with raw device_prefix"

definition push_segment :: "string \<Rightarrow> string list \<Rightarrow> string list" where
  "push_segment seg out =
     (if seg = [] \<or> seg = ''.'' then out else if seg = ''..'' then butlast out else out @ [seg])"

definition strip_verbatim :: "string \<Rightarrow> string" where
  "strip_verbatim raw = (case strip_prefix raw verbatim_unc of
     Some rest \<Rightarrow> CHR 0x5C # CHR 0x5C # rest
   | None \<Rightarrow> (case strip_prefix raw verbatim_prefix of Some rest \<Rightarrow> rest | None \<Rightarrow> raw))"

definition normalize_path_identity :: "(string \<Rightarrow> string) \<Rightarrow> string \<Rightarrow> string" where
  "normalize_path_identity lower raw0 =
     (if is_device_namespace raw0 then lower raw0
      else let raw = strip_verbatim raw0;
          leading = length (takeWhile is_sep raw);
          out = fold push_segment (split_on is_sep raw) [];
          joined = join_str [CHR 0x5C] out
        in replicate (min leading 2) (CHR 0x5C) @ lower joined)"

text \<open>What is used of lowercasing: it is idempotent, works through a separator, makes no separator
  and keeps the names that mean something apart.\<close>

definition lowercasing :: "(string \<Rightarrow> string) \<Rightarrow> bool" where
  "lowercasing lower \<longleftrightarrow> (\<forall>s. lower (lower s) = lower s)
     \<and> (\<forall>a b. lower (a @ CHR 0x5C # b) = lower a @ CHR 0x5C # lower b)
     \<and> (\<forall>s. (\<forall>c \<in> set s. \<not> is_sep c) \<longrightarrow> (\<forall>c \<in> set (lower s). \<not> is_sep c))
     \<and> (\<forall>d \<in> {[], ''.'', ''..''}. \<forall>s. lower s = d \<longleftrightarrow> s = d)"

definition real_segment :: "string \<Rightarrow> bool" where
  "real_segment s \<longleftrightarrow> s \<notin> {[], ''.'', ''..''} \<and> (\<forall>c \<in> set s. \<not> is_sep c)"

lemma push_segments_real:
  "\<forall>s \<in> set ss. \<forall>c \<in> set s. \<not> is_sep c \<Longrightarrow> \<forall>s \<in> set out. real_segment s \<Longrightarrow>
    \<forall>s \<in> set (fold push_segment ss out). real_segment s"
proof (induction ss arbitrary: out)
  case (Cons s ss)
  have "\<forall>t \<in> set (push_segment s out). real_segment t"
    using Cons.prems by (auto simp: push_segment_def real_segment_def dest: in_set_butlastD)
  with Cons show ?case by simp
qed simp

lemma fold_push_real: "\<forall>s \<in> set ss. real_segment s \<Longrightarrow> fold push_segment ss out = out @ ss"
  by (induction ss arbitrary: out) (auto simp: real_segment_def push_segment_def)

lemma lower_join: "lowercasing lower \<Longrightarrow> lower (join_str [CHR 0x5C] ws) = join_str [CHR 0x5C] (map lower ws)"
  by (induction ws rule: induct_list012) (auto simp: lowercasing_def)

lemma real_lower: "lowercasing lower \<Longrightarrow> real_segment s \<Longrightarrow> real_segment (lower s)"
  by (auto simp: lowercasing_def real_segment_def)

lemma split_seps: "is_sep d \<Longrightarrow> split_on is_sep (d # s) = [] # split_on is_sep s"
  by simp

lemma fold_split_leading:
  "fold push_segment (split_on is_sep (replicate n (CHR 0x5C) @ s)) out = fold push_segment (split_on is_sep s) out"
  by (induction n) (simp_all add: is_sep_def push_segment_def)

text \<open>The segments of an identity: the real ones of the path, in canonical case, no dots.\<close>

lemma identity_parts:
  assumes "lowercasing lower" "\<not> is_device_namespace raw"
  obtains k segs where "normalize_path_identity lower raw = replicate k (CHR 0x5C) @ join_str [CHR 0x5C] (map lower segs)"
    "k \<le> 2" "\<forall>s \<in> set (map lower segs). real_segment s"
proof
  let ?raw = "strip_verbatim raw"
  let ?segs = "fold push_segment (split_on is_sep ?raw) []"
  show "normalize_path_identity lower raw = replicate (min (length (takeWhile is_sep ?raw)) 2) (CHR 0x5C)
    @ join_str [CHR 0x5C] (map lower ?segs)"
    using assms by (simp add: normalize_path_identity_def Let_def lower_join)
  have "\<forall>s \<in> set ?segs. real_segment s"
    by (rule push_segments_real) (auto dest: split_on_parts)
  then show "\<forall>s \<in> set (map lower ?segs). real_segment s" using real_lower [OF assms(1)] by auto
qed simp

lemma join_real_head:
  assumes "\<forall>s \<in> set ws. real_segment s"
  shows "takeWhile is_sep (join_str [CHR 0x5C] ws) = []"
proof (cases ws)
  case (Cons w ws')
  then obtain c w' where "w = c # w'" "\<not> is_sep c"
    using assms by (cases w) (auto simp: real_segment_def)
  with Cons show ?thesis by (cases ws') simp_all
qed simp

lemma device_free:
  assumes "\<forall>s \<in> set ws. real_segment s" "k \<le> 2"
  shows "\<not> is_device_namespace (replicate k (CHR 0x5C) @ join_str [CHR 0x5C] ws)"
proof
  assume "is_device_namespace (replicate k (CHR 0x5C) @ join_str [CHR 0x5C] ws)"
  then obtain r where r: "replicate k (CHR 0x5C) @ join_str [CHR 0x5C] ws = device_prefix @ r"
    by (auto simp: is_device_namespace_def starts_with_iff)
  have "takeWhile is_sep (replicate k (CHR 0x5C) @ join_str [CHR 0x5C] ws) = replicate k (CHR 0x5C)"
    using join_real_head [OF assms(1)] by (induction k) (auto simp: is_sep_def)
  then have "replicate k (CHR 0x5C) = [CHR 0x5C, CHR 0x5C]"
    unfolding r by (simp add: device_prefix_def is_sep_def)
  then have j: "join_str [CHR 0x5C] ws = CHR ''.'' # CHR 0x5C # r"
    using r by (simp add: device_prefix_def)
  then have "ws \<noteq> []" by auto
  have "split_on is_sep (join_str [CHR 0x5C] ws) = ws"
    by (rule split_join) (use assms(1) \<open>ws \<noteq> []\<close> in \<open>auto simp: real_segment_def is_sep_def\<close>)
  then have "ws = ''.'' # split_on is_sep r" by (simp add: j is_sep_def)
  with assms(1) show False by (simp add: real_segment_def)
qed

lemma normalize_idempotent:
  assumes "lowercasing lower" "\<not> starts_with (normalize_path_identity lower raw) verbatim_prefix"
  shows "normalize_path_identity lower (normalize_path_identity lower raw) = normalize_path_identity lower raw"
proof (cases "is_device_namespace raw")
  case True
  then obtain r where r: "raw = [] @ CHR 0x5C # [] @ CHR 0x5C # ''.'' @ CHR 0x5C # r"
    by (auto simp: is_device_namespace_def starts_with_iff device_prefix_def)
  have l: "lower (a @ CHR 0x5C # b) = lower a @ CHR 0x5C # lower b" "lower [] = []" "lower ''.'' = ''.''" for a b
    using assms(1) by (auto simp: lowercasing_def)
  have idm: "lower (lower s) = lower s" for s using assms(1) by (simp add: lowercasing_def)
  have "lower raw = CHR 0x5C # CHR 0x5C # ''.'' @ CHR 0x5C # lower r"
    unfolding r l by simp
  then have "is_device_namespace (lower raw)"
    by (simp add: is_device_namespace_def device_prefix_def)
  with True show ?thesis by (simp add: normalize_path_identity_def idm)
next
  case False
  then obtain k segs where n: "normalize_path_identity lower raw = replicate k (CHR 0x5C) @ join_str [CHR 0x5C] (map lower segs)"
    and k: "k \<le> 2" and real: "\<forall>s \<in> set (map lower segs). real_segment s"
    using identity_parts [OF assms(1)] by blast
  let ?n = "replicate k (CHR 0x5C) @ join_str [CHR 0x5C] (map lower segs)"
  have nodev: "\<not> is_device_namespace ?n" by (rule device_free [OF real k])
  have "\<not> starts_with ?n verbatim_unc"
    using assms(2) unfolding n by (auto simp: starts_with_iff verbatim_unc_def)
  then have strip: "strip_verbatim ?n = ?n"
    using assms(2) unfolding n by (simp add: strip_verbatim_def strip_prefix_def)
  have lead: "length (takeWhile is_sep ?n) = k"
    using join_real_head [OF real] by (induction k) (auto simp: is_sep_def)
  have segs: "fold push_segment (split_on is_sep ?n) [] = map lower segs"
  proof (cases "segs = []")
    case True
    then show ?thesis by (simp add: fold_split_leading push_segment_def del: append_Nil2)
  next
    case False
    have "split_on is_sep (join_str [CHR 0x5C] (map lower segs)) = map lower segs"
      by (rule split_join) (use real False in \<open>auto simp: real_segment_def is_sep_def\<close>)
    then show ?thesis using fold_push_real [OF real, of "[]"] by (simp add: fold_split_leading)
  qed
  have "lower (join_str [CHR 0x5C] (map lower segs)) = join_str [CHR 0x5C] (map lower segs)"
    using assms(1) by (simp add: lower_join [OF assms(1)] comp_def) (simp add: lowercasing_def)
  then show ?thesis unfolding n using nodev strip lead segs k by (simp add: normalize_path_identity_def Let_def)
qed

end
