(* ===== verification/Bytes.thy ===== *)
theory Bytes
  imports Domain
begin

text \<open>
  Text routines of the standard library on bytes: ASCII lower-casing, the splits and trims by a character,
  the parsers of small integers and \<open>String::from_utf8_lossy\<close>.
\<close>

section \<open>ASCII\<close>

definition ascii_lower :: "char \<Rightarrow> char" where
  "ascii_lower c = (if 65 \<le> byte c \<and> byte c \<le> 90 then char_of (byte c + 32) else c)"

abbreviation to_ascii_lowercase :: "string \<Rightarrow> string" where
  "to_ascii_lowercase \<equiv> map ascii_lower"

definition is_digit :: "char \<Rightarrow> bool" where
  "is_digit c \<longleftrightarrow> 48 \<le> byte c \<and> byte c \<le> 57"

text \<open>\<open>str::parse\<close> for an unsigned integer with the given maximum: one optional plus sign, then digits.\<close>

definition parse_unsigned :: "nat \<Rightarrow> string \<Rightarrow> nat option" where
  "parse_unsigned limit s =
     (let d = (case s of c # r \<Rightarrow> if c = CHR ''+'' then r else s | [] \<Rightarrow> s)
      in if d \<noteq> [] \<and> list_all is_digit d \<and> str_nat d \<le> limit then Some (str_nat d) else None)"

section \<open>Splits and trims\<close>

text \<open>\<open>split_once\<close> by a character and by a text, \<open>rsplit_once\<close> by a character.\<close>

definition split_once_char :: "char \<Rightarrow> string \<Rightarrow> (string \<times> string) option" where
  "split_once_char c s =
     (if c \<in> set s then Some (takeWhile (\<lambda>x. x \<noteq> c) s, tl (dropWhile (\<lambda>x. x \<noteq> c) s)) else None)"

fun split_once_str :: "string \<Rightarrow> string \<Rightarrow> (string \<times> string) option" where
  "split_once_str p [] = (if p = [] then Some ([], []) else None)"
| "split_once_str p (c # s) =
     (if starts_with (c # s) p then Some ([], drop (length p) (c # s))
      else map_option (\<lambda>(a, b). (c # a, b)) (split_once_str p s))"

definition rsplit_once_char :: "char \<Rightarrow> string \<Rightarrow> (string \<times> string) option" where
  "rsplit_once_char c s = map_option (\<lambda>(a, b). (rev b, rev a)) (split_once_char c (rev s))"

definition trim_end_char :: "char \<Rightarrow> string \<Rightarrow> string" where
  "trim_end_char c s = rev (dropWhile (\<lambda>x. x = c) (rev s))"

definition trim_start_char :: "char \<Rightarrow> string \<Rightarrow> string" where
  "trim_start_char c s = dropWhile (\<lambda>x. x = c) s"

text \<open>\<open>split([..]).next()\<close>: the text before the first separator.\<close>

definition before_any :: "char set \<Rightarrow> string \<Rightarrow> string" where
  "before_any cs s = takeWhile (\<lambda>x. x \<notin> cs) s"

section \<open>Lossy UTF-8\<close>

text \<open>For a first byte: how many bytes follow, and the bounds of the second one.\<close>

definition utf8_lead :: "nat \<Rightarrow> (nat \<times> nat \<times> nat) option" where
  "utf8_lead b =
     (if 194 \<le> b \<and> b \<le> 223 then Some (1, 128, 191)
      else if b = 224 then Some (2, 160, 191)
      else if b = 237 then Some (2, 128, 159)
      else if 225 \<le> b \<and> b \<le> 239 then Some (2, 128, 191)
      else if b = 240 then Some (3, 144, 191)
      else if 241 \<le> b \<and> b \<le> 243 then Some (3, 128, 191)
      else if b = 244 then Some (3, 128, 143)
      else None)"

fun cont_run :: "nat \<Rightarrow> nat \<Rightarrow> nat \<Rightarrow> string \<Rightarrow> nat" where
  "cont_run lo hi (Suc n) (c # cs) = (if lo \<le> byte c \<and> byte c \<le> hi then Suc (cont_run 128 191 n cs) else 0)"
| "cont_run lo hi _ _ = 0"

definition REPLACEMENT :: string where
  "REPLACEMENT = [CHR 0xEF, CHR 0xBF, CHR 0xBD]"

text \<open>A sequence that is cut short or has a wrong byte is replaced as far as it is right.\<close>

function utf8_lossy :: "string \<Rightarrow> string" where
  "utf8_lossy [] = []"
| "utf8_lossy (c # s) =
     (if byte c < 128 then c # utf8_lossy s
      else case utf8_lead (byte c) of
        None \<Rightarrow> REPLACEMENT @ utf8_lossy s
      | Some (n, lo, hi) \<Rightarrow>
          let k = cont_run lo hi n s
          in (if k = n then c # take k s else REPLACEMENT) @ utf8_lossy (drop k s))"
  by pat_completeness auto
termination
  by (relation "measure length") auto

lemma utf8_lossy_ascii: "list_all (\<lambda>c. byte c < 128) s \<Longrightarrow> utf8_lossy s = s"
  by (induction s) auto

lemma utf8_lossy_samples:
  "utf8_lossy [CHR ''a'', CHR 0xC3, CHR 0xA9] = [CHR ''a'', CHR 0xC3, CHR 0xA9]"
  "utf8_lossy [CHR 0xE2, CHR 0x82, CHR ''a''] = REPLACEMENT @ ''a''"
  "utf8_lossy [CHR 0xED, CHR 0xA0, CHR 0x80] = REPLACEMENT @ REPLACEMENT @ REPLACEMENT"
  by code_simp+

section \<open>Numbers in texts\<close>

lemma digits_nat_str: "list_all is_digit (nat_str n) \<and> nat_str n \<noteq> []"
proof (induction n rule: nat_str.induct)
  case (1 n)
  have "is_digit (digit d)" if "d < 10" for d using that by (simp add: is_digit_def byte_digit)
  with 1 show ?case by (auto simp: nat_str.simps [of n])
qed

lemma parse_nat_str: "n \<le> limit \<Longrightarrow> parse_unsigned limit (nat_str n) = Some n"
proof -
  assume n: "n \<le> limit"
  obtain c r where s: "nat_str n = c # r" using digits_nat_str [of n] by (cases "nat_str n") auto
  then have "is_digit c" using digits_nat_str [of n] by simp
  then have "c \<noteq> CHR ''+''" by (auto simp: is_digit_def byte_def)
  with s n digits_nat_str [of n] str_nat_nat_str [of n] show ?thesis
    by (simp add: parse_unsigned_def Let_def del: str_nat.simps)
qed

lemma digit_plain: "c \<in> set (nat_str n) \<Longrightarrow> 48 \<le> byte c \<and> byte c \<le> 57"
  using digits_nat_str [of n] by (auto simp: list_all_iff is_digit_def)

lemma split_once_append: "c \<notin> set a \<Longrightarrow> split_once_char c (a @ c # b) = Some (a, b)"
  by (induction a) (auto simp: split_once_char_def)

lemma rsplit_once_append: "c \<notin> set b \<Longrightarrow> rsplit_once_char c (a @ c # b) = Some (a, b)"
  using split_once_append [of c "rev b" "rev a"] by (simp add: rsplit_once_char_def)

lemma rsplit_once_none: "c \<notin> set s \<Longrightarrow> rsplit_once_char c s = None"
  by (simp add: rsplit_once_char_def split_once_char_def)

lemma split_scheme:
  "CHR '':'' \<notin> set a \<Longrightarrow> split_once_str ''://'' (a @ ''://'' @ b) = Some (a, b)"
  by (induction a) auto

end
