(* ===== verification/Float32.thy ===== *)
theory Float32
  imports Values
begin

text \<open>
  \<open>f32\<close> arithmetic as the ranking code uses it: the type of \<open>Values\<close> with a finite value being the
  rational it denotes, and every operation rounded to the nearest single (24 bits, ties to even,
  subnormal spacing \<open>2 powi -149\<close>, overflow to infinity). The sign of zero is not kept: nothing the
  program does with these values tells the zeros apart.
\<close>

section \<open>Rounding\<close>

text \<open>The exponent of the leading bit of a positive rational.\<close>

definition lead_exp :: "rat \<Rightarrow> int" where
  "lead_exp x = (case quotient_of x of (n, d) \<Rightarrow>
     let k = bitlen n - bitlen d in if 2 powi k \<le> x then k else k - 1)"

definition spacing_exp :: "rat \<Rightarrow> int" where
  "spacing_exp x = (if x = 0 then -149 else max (-149) (lead_exp \<bar>x\<bar> - 23))"

definition round_even :: "rat \<Rightarrow> int" where
  "round_even q = (let f = \<lfloor>q\<rfloor>; r = q - of_int f in
     if r < 1 / 2 then f else if r > 1 / 2 then f + 1 else if even f then f else f + 1)"

definition round24 :: "rat \<Rightarrow> rat" where
  "round24 x = of_int (round_even (x / 2 powi spacing_exp x)) * 2 powi spacing_exp x"

definition f32_of_rat :: "rat \<Rightarrow> f64" where
  "f32_of_rat x = (let y = round24 x in
     if y \<ge> 2 ^ 128 then PInf else if y \<le> - (2 ^ 128) then NInf else Fin y)"

section \<open>Operations\<close>

fun f32_neg :: "f64 \<Rightarrow> f64" where
  "f32_neg (Fin a) = Fin (- a)"
| "f32_neg PInf = NInf"
| "f32_neg NInf = PInf"
| "f32_neg NaN = NaN"

fun f32_add :: "f64 \<Rightarrow> f64 \<Rightarrow> f64" where
  "f32_add (Fin a) (Fin b) = f32_of_rat (a + b)"
| "f32_add NaN y = NaN"
| "f32_add x NaN = NaN"
| "f32_add PInf NInf = NaN"
| "f32_add NInf PInf = NaN"
| "f32_add PInf y = PInf"
| "f32_add NInf y = NInf"
| "f32_add x PInf = PInf"
| "f32_add x NInf = NInf"

definition f32_sub :: "f64 \<Rightarrow> f64 \<Rightarrow> f64" where
  "f32_sub x y = f32_add x (f32_neg y)"

text \<open>An infinite factor: zero times infinity is not a number, otherwise the signs decide.\<close>

fun f32_sign :: "f64 \<Rightarrow> rat" where
  "f32_sign (Fin a) = sgn a"
| "f32_sign PInf = 1"
| "f32_sign NInf = -1"
| "f32_sign NaN = 0"

fun f32_mul :: "f64 \<Rightarrow> f64 \<Rightarrow> f64" where
  "f32_mul (Fin a) (Fin b) = f32_of_rat (a * b)"
| "f32_mul x y = (let s = f32_sign x * f32_sign y in
     if x = NaN \<or> y = NaN \<or> s = 0 then NaN else if s > 0 then PInf else NInf)"

text \<open>Division; the sign of a zero divisor is taken as positive (the program divides by 100 and by a
  value that is at least 1).\<close>

fun f32_div :: "f64 \<Rightarrow> f64 \<Rightarrow> f64" where
  "f32_div (Fin a) (Fin b) =
     (if b = 0 then (if a = 0 then NaN else if a > 0 then PInf else NInf) else f32_of_rat (a / b))"
| "f32_div (Fin a) NaN = NaN"
| "f32_div (Fin a) _ = Fin 0"
| "f32_div NaN _ = NaN"
| "f32_div x (Fin b) = (if b < 0 then f32_neg x else x)"
| "f32_div _ _ = NaN"

text \<open>\<open>f32::min\<close>, \<open>f32::max\<close> ignore a NaN; \<open>clamp\<close> keeps it.\<close>

definition f32_min :: "f64 \<Rightarrow> f64 \<Rightarrow> f64" where
  "f32_min x y = (if x = NaN then y else if y = NaN then x else if f64_lt y x then y else x)"

definition f32_max :: "f64 \<Rightarrow> f64 \<Rightarrow> f64" where
  "f32_max x y = (if x = NaN then y else if y = NaN then x else if f64_lt x y then y else x)"

definition f32_clamp :: "f64 \<Rightarrow> f64 \<Rightarrow> f64 \<Rightarrow> f64" where
  "f32_clamp lo hi x = (if f64_lt x lo then lo else if f64_lt hi x then hi else x)"

text \<open>\<open>usize as f32\<close>.\<close>

definition f32_of_nat :: "nat \<Rightarrow> f64" where
  "f32_of_nat n = f32_of_rat (of_nat n)"

section \<open>Rounding is monotone and exact on singles\<close>

lemma powi_mono: "m \<le> n \<Longrightarrow> (2::rat) powi m \<le> 2 powi n"
  by (rule power_int_increasing) simp_all

lemma powi_pos [simp]: "0 < (2::rat) powi n"
  by simp

lemma bitlen_rat:
  assumes "0 < n"
  shows "2 powi (bitlen n - 1) \<le> (of_int n :: rat)" "(of_int n :: rat) < 2 powi bitlen n"
proof -
  have b: "2 ^ nat (bitlen n - 1) \<le> n" "n < 2 ^ nat (bitlen n)" "0 < bitlen n"
    using bitlen_bounds [OF assms] bitlen_ge_iff_power [of 1 n] assms by simp_all
  then have "(of_int (2 ^ nat (bitlen n - 1)) :: rat) \<le> of_int n" "(of_int n :: rat) < of_int (2 ^ nat (bitlen n))"
    by (simp_all only: of_int_le_iff of_int_less_iff)
  with b(3) show "2 powi (bitlen n - 1) \<le> (of_int n :: rat)" "(of_int n :: rat) < 2 powi bitlen n"
    by (simp_all add: power_int_def)
qed

lemma lead_exp_bounds:
  assumes "0 < x"
  shows "2 powi lead_exp x \<le> x" "x < 2 powi (lead_exp x + 1)"
proof -
  obtain n d where q: "quotient_of x = (n, d)" by (cases "quotient_of x")
  have x: "x = of_int n / of_int d" using quotient_of_div [OF q] .
  have d: "0 < d" using quotient_of_denom_pos [OF q] .
  with assms x have n: "0 < n" by (simp add: zero_less_divide_iff)
  let ?k = "bitlen n - bitlen d"
  have "2 powi (?k - 1) = 2 powi (bitlen n - 1) / (2::rat) powi bitlen d"
    by (simp add: power_int_diff [symmetric] algebra_simps)
  also have "\<dots> \<le> of_int n / of_int d"
    using bitlen_rat [OF n] bitlen_rat [OF d] d n by (intro frac_le) simp_all
  finally have lo: "2 powi (?k - 1) \<le> x" by (simp add: x)
  have "of_int n / of_int d < 2 powi bitlen n / (2::rat) powi (bitlen d - 1)"
    using bitlen_rat [OF n] bitlen_rat [OF d] d n by (intro frac_less) simp_all
  also have "\<dots> = 2 powi (?k + 1)" by (simp add: power_int_diff [symmetric] algebra_simps)
  finally have hi: "x < 2 powi (?k + 1)" by (simp add: x)
  show "2 powi lead_exp x \<le> x" "x < 2 powi (lead_exp x + 1)"
    using lo hi by (auto simp: lead_exp_def q Let_def)
qed

lemma lead_exp_less: "0 < x \<Longrightarrow> x < 2 powi n \<Longrightarrow> lead_exp x < n"
  using lead_exp_bounds(1) [of x] powi_mono [of n "lead_exp x"] by (cases "lead_exp x < n") auto

lemma lead_exp_mono: "0 < x \<Longrightarrow> x \<le> y \<Longrightarrow> lead_exp x \<le> lead_exp y"
  using lead_exp_less [of x "lead_exp y + 1"] lead_exp_bounds(2) [of y] by simp

lemma spacing_exp_mono: "0 \<le> x \<Longrightarrow> x \<le> y \<Longrightarrow> spacing_exp x \<le> spacing_exp y"
  using lead_exp_mono [of x y] by (auto simp: spacing_exp_def)

lemma round_even_of_int [simp]: "round_even (of_int i) = i"
  by (simp add: round_even_def)

lemma round_even_mono: "q \<le> r \<Longrightarrow> round_even q \<le> round_even r"
proof -
  assume le: "q \<le> r"
  then have f: "\<lfloor>q\<rfloor> \<le> \<lfloor>r\<rfloor>" by (rule floor_mono)
  have b: "\<lfloor>x\<rfloor> \<le> round_even x" "round_even x \<le> \<lfloor>x\<rfloor> + 1" for x
    by (simp_all add: round_even_def Let_def)
  show ?thesis
  proof (cases "\<lfloor>q\<rfloor> = \<lfloor>r\<rfloor>")
    case True
    with le show ?thesis by (auto simp: round_even_def Let_def)
  next
    case False
    with f have "\<lfloor>q\<rfloor> + 1 \<le> \<lfloor>r\<rfloor>" by simp
    with b(2) [of q] b(1) [of r] show ?thesis by linarith
  qed
qed

lemma round_even_0 [simp]: "round_even 0 = 0"
  using round_even_of_int [of 0] by simp

lemma round24_0 [simp]: "round24 0 = 0"
  by (simp add: round24_def)

lemma round24_mono:
  assumes "0 \<le> x" "x \<le> y"
  shows "round24 x \<le> round24 y"
proof (cases "x = 0 \<or> spacing_exp x = spacing_exp y")
  case True
  moreover have "0 \<le> round_even (y / 2 powi spacing_exp y)"
    using round_even_mono [of 0 "y / 2 powi spacing_exp y"] assms round_even_of_int [of 0] by simp
  moreover have "spacing_exp x = spacing_exp y \<Longrightarrow> ?thesis"
    using assms(2) unfolding round24_def by (auto intro!: mult_right_mono round_even_mono divide_right_mono)
  ultimately show ?thesis by (auto simp: round24_def)
next
  case False
  then have x: "0 < x" "0 < y" and e: "spacing_exp x < spacing_exp y"
    using assms spacing_exp_mono [OF assms] by auto
  then have ey: "spacing_exp y = lead_exp y - 23" by (simp add: spacing_exp_def max_def split: if_splits)
  have "lead_exp x - 23 \<le> spacing_exp x" using x by (simp add: spacing_exp_def)
  then have "x < 2 powi (spacing_exp x + 24)"
    using lead_exp_bounds(2) [OF x(1)] powi_mono [of "lead_exp x + 1" "spacing_exp x + 24"] by linarith
  then have "x / 2 powi spacing_exp x \<le> of_int (2 ^ 24)"
    by (simp add: divide_le_eq power_int_add)
  from round_even_mono [OF this] have "of_int (round_even (x / 2 powi spacing_exp x)) \<le> (of_int (2 ^ 24) :: rat)"
    by (simp only: round_even_of_int of_int_le_iff)
  then have "round24 x \<le> 2 ^ 24 * 2 powi spacing_exp x"
    unfolding round24_def by (intro mult_right_mono) simp_all
  also have "\<dots> \<le> 2 ^ 23 * 2 powi spacing_exp y"
    using powi_mono [of "spacing_exp x + 1" "spacing_exp y"] e by (simp add: power_int_add)
  also have "\<dots> \<le> round24 y"
  proof -
    have "2 powi (spacing_exp y + 23) \<le> y" using lead_exp_bounds(1) [OF x(2)] ey by simp
    then have "of_int (2 ^ 23) \<le> y / 2 powi spacing_exp y"
      by (simp add: le_divide_eq power_int_add mult.commute)
    from round_even_mono [OF this] have "(of_int (2 ^ 23) :: rat) \<le> of_int (round_even (y / 2 powi spacing_exp y))"
      by (simp only: round_even_of_int of_int_le_iff)
    then show ?thesis unfolding round24_def by (intro mult_right_mono) simp_all
  qed
  finally show ?thesis .
qed

text \<open>A multiple of a power of two with at most 24 bits is kept.\<close>

lemma round24_exact:
  assumes "\<bar>k\<bar> < 2 ^ 24" "-149 \<le> j"
  shows "round24 (of_int k * 2 powi j) = of_int k * 2 powi j"
proof (cases "k = 0")
  case False
  let ?x = "of_int k * 2 powi j :: rat"
  have "(of_int \<bar>k\<bar> :: rat) < of_int (2 ^ 24)" using assms(1) by (simp only: of_int_less_iff)
  then have "\<bar>?x\<bar> < 2 powi (24 + j)" by (simp add: abs_mult power_int_add)
  then have "lead_exp \<bar>?x\<bar> < 24 + j" using False by (intro lead_exp_less) simp_all
  then have e: "spacing_exp ?x \<le> j" using assms(2) False by (simp add: spacing_exp_def)
  then have "(2::rat) powi (j - spacing_exp ?x) = 2 ^ nat (j - spacing_exp ?x)" by (simp add: power_int_def)
  then have "(2::rat) powi j = 2 ^ nat (j - spacing_exp ?x) * 2 powi spacing_exp ?x"
    using power_int_add [of "2::rat" "j - spacing_exp ?x" "spacing_exp ?x"] by simp
  then have split: "?x = of_int (k * 2 ^ nat (j - spacing_exp ?x)) * 2 powi spacing_exp ?x" by simp
  then have x: "?x / 2 powi spacing_exp ?x = of_int (k * 2 ^ nat (j - spacing_exp ?x))"
    by (metis nonzero_mult_div_cancel_right powi_pos less_irrefl)
  show ?thesis unfolding round24_def x round_even_of_int by (rule split [symmetric])
qed simp

lemma round24_int: "\<bar>k\<bar> < 2 ^ 24 \<Longrightarrow> round24 (of_int k) = of_int k"
  using round24_exact [of k 0] by simp

lemma round24_nonneg: "0 \<le> x \<Longrightarrow> 0 \<le> round24 x"
  using round24_mono [of 0 x] by simp

section \<open>Values that are not negative\<close>

lemma f64_le_simps [simp]:
  "f64_le (Fin a) (Fin b) = (a \<le> b)" "f64_le (Fin a) PInf" "f64_le x x = (x \<noteq> NaN)" "\<not> f64_le NaN y" "\<not> f64_le y NaN"
  by (cases x; cases y; auto simp: f64_le_def)+

lemma f64_le_trans: "f64_le x y \<Longrightarrow> f64_le y z \<Longrightarrow> f64_le x z"
  by (cases x; cases y; cases z) (auto simp: f64_le_def)

abbreviation f32_nonneg :: "f64 \<Rightarrow> bool" where
  "f32_nonneg x \<equiv> f64_le (Fin 0) x"

lemma f32_nonneg_cases:
  assumes "f32_nonneg x" obtains a where "x = Fin a" "0 \<le> a" | "x = PInf"
  using assms by (cases x) (auto simp: f64_le_def)

lemma f32_of_rat_nonneg: "0 \<le> x \<Longrightarrow> f32_of_rat x = (if round24 x \<ge> 2 ^ 128 then PInf else Fin (round24 x))"
  using round24_nonneg [of x] by (auto simp: f32_of_rat_def Let_def)

lemma f32_of_rat_mono: "0 \<le> x \<Longrightarrow> x \<le> y \<Longrightarrow> f64_le (f32_of_rat x) (f32_of_rat y)"
  using round24_mono [of x y] by (simp add: f32_of_rat_nonneg)

lemma f32_of_rat_int: "\<bar>k\<bar> < 2 ^ 24 \<Longrightarrow> f32_of_rat (of_int k) = Fin (of_int k)"
proof -
  assume k: "\<bar>k\<bar> < 2 ^ 24"
  then have "of_int \<bar>k\<bar> < (of_int (2 ^ 24) :: rat)" by (simp only: of_int_less_iff)
  then have "\<bar>of_int k\<bar> < (2 ^ 24 :: rat)" by simp
  moreover have "(2 ^ 24 :: rat) < 2 ^ 128" by simp
  ultimately have "(of_int k :: rat) < 2 ^ 128" "- (2 ^ 128) < (of_int k :: rat)" by linarith+
  then show ?thesis by (simp add: f32_of_rat_def round24_int [OF k] Let_def)
qed

lemma f32_of_rat_num [simp]: "f32_of_rat 0 = Fin 0" "f32_of_rat 1 = Fin 1"
  using f32_of_rat_int [of 0] f32_of_rat_int [of 1] by simp_all

lemma f32_of_rat_numeral: "(numeral n :: int) < 2 ^ 24 \<Longrightarrow> f32_of_rat (numeral n) = Fin (numeral n)"
  using f32_of_rat_int [of "numeral n"] by simp

lemma f32_add_nonneg: "f32_nonneg x \<Longrightarrow> f32_nonneg y \<Longrightarrow> f32_nonneg (f32_add x y)"
  by (elim f32_nonneg_cases) (auto simp: f32_of_rat_nonneg round24_nonneg)

lemma f32_add_mono: "f32_nonneg x \<Longrightarrow> f32_nonneg y \<Longrightarrow> f64_le x x' \<Longrightarrow> f64_le y y' \<Longrightarrow> f64_le (f32_add x y) (f32_add x' y')"
proof -
  assume a: "f32_nonneg x" "f32_nonneg y" "f64_le x x'" "f64_le y y'"
  then have "f32_nonneg x'" "f32_nonneg y'" by (meson f64_le_trans)+
  with a show ?thesis
    by (elim f32_nonneg_cases) (auto simp: f32_of_rat_mono, auto simp: f32_of_rat_nonneg f64_le_def)
qed

lemma f32_mul_mono:
  assumes "0 \<le> a" "a \<le> b" "0 \<le> c"
  shows "f64_le (f32_mul (Fin a) (Fin c)) (f32_mul (Fin b) (Fin c))"
  using assms by (simp add: f32_of_rat_mono mult_right_mono)

lemma f32_max_0: "f32_nonneg (f32_max x (Fin 0))"
  by (cases x) (auto simp: f32_max_def)

end
