(* ===== verification/SearchFuzzy.thy ===== *)
theory SearchFuzzy
  imports Bytes Float32 "HOL-Library.Sublist"
begin

text \<open>
  The scored subsequence matcher of \<open>launcher-search/src/fuzzy.rs\<close>. Characters are the UTF-8 chunks of
  the prelude; Unicode lower-casing, of a text and of one character, is the record \<open>unicode\<close>.
\<close>

section \<open>Characters\<close>

record unicode =
  uc_lower :: "string \<Rightarrow> string"
  uc_lower_char :: "string \<Rightarrow> string"

text \<open>\<open>fold\<close>: the first character of the lower-cased character (the lower-casing of a character is
  never empty, so the option of the code is always \<open>Some\<close>).\<close>

definition fold_char :: "unicode \<Rightarrow> string \<Rightarrow> string" where
  "fold_char U c = (if length c = 1 \<and> byte (hd c) < 128 then [ascii_lower (hd c)]
     else hd (utf8_chars (uc_lower_char U c)))"

definition is_separator :: "string \<Rightarrow> bool" where
  "is_separator c \<longleftrightarrow> is_whitespace c \<or> c \<in> {''-'', ''_'', ''.'', ''/'', [CHR 0x5C]}"

section \<open>The scanner\<close>

definition GAP_PENALTY :: f64 where "GAP_PENALTY = Fin (3 / 2)"
definition GAP_CAP :: f64 where "GAP_CAP = Fin 30"
definition RUN_BONUS :: f64 where "RUN_BONUS = Fin 6"
definition WORD_BOUNDARY_BONUS :: f64 where "WORD_BOUNDARY_BONUS = Fin 12"
definition PREFIX_SCORE :: f64 where "PREFIX_SCORE = Fin 100"

record scan =
  sn_score :: f64
  sn_gap :: f64
  sn_qi :: nat
  sn_prev :: "nat option"
  sn_run :: nat
  sn_sep :: bool
  sn_positions :: "nat list"

definition scan_start :: scan where
  "scan_start = \<lparr>sn_score = Fin 0, sn_gap = Fin 0, sn_qi = 0, sn_prev = None, sn_run = 0, sn_sep = True,
     sn_positions = []\<rparr>"

text \<open>A hit: the bonus at a word boundary, then the run bonus or the gap.\<close>

definition scan_hit :: "nat \<Rightarrow> scan \<Rightarrow> scan" where
  "scan_hit i s =
     (let score = (if sn_sep s then f32_add (sn_score s) WORD_BOUNDARY_BONUS else sn_score s);
          run = (if sn_sep s then 0 else sn_run s);
          s' = s\<lparr>sn_qi := sn_qi s + 1, sn_prev := Some i, sn_positions := sn_positions s @ [i]\<rparr>
      in case sn_prev s of
           None \<Rightarrow> s'\<lparr>sn_score := score, sn_run := 0\<rparr>
         | Some p \<Rightarrow>
             if i = p + 1
             then s'\<lparr>sn_run := run + 1, sn_score := f32_add score (f32_add RUN_BONUS (f32_of_nat (min (run + 1) 5)))\<rparr>
             else s'\<lparr>sn_score := score, sn_run := 0,
                   sn_gap := f32_min (f32_add (sn_gap s) (f32_mul (f32_of_nat (i - p - 1)) GAP_PENALTY)) GAP_CAP\<rparr>)"

text \<open>One turn of the loop, for the character's folded form and whether it counts as a separator.\<close>

definition scan_step :: "string list \<Rightarrow> nat \<times> string \<times> bool \<Rightarrow> scan \<Rightarrow> scan" where
  "scan_step q x s = (case x of (i, c, sep) \<Rightarrow>
     (if sn_qi s < length q \<and> c = q ! sn_qi s then scan_hit i s else s)\<lparr>sn_sep := sep\<rparr>)"

definition scan_all :: "string list \<Rightarrow> (string \<times> bool) list \<Rightarrow> scan" where
  "scan_all q cs = fold (scan_step q) (enumerate 0 cs) scan_start"

definition scan_score :: "scan \<Rightarrow> f64" where
  "scan_score s = f32_max (f32_sub (sn_score s) (sn_gap s)) (Fin 0)"

section \<open>The two matchers\<close>

record fuzzy_hit =
  fm_score :: f64
  fm_positions :: "nat list"

text \<open>\<open>char_indices\<close>: the byte offset of each character.\<close>

definition char_offset :: "string list \<Rightarrow> nat \<Rightarrow> nat" where
  "char_offset cs i = length (concat (take i cs))"

definition fuzzy_match :: "unicode \<Rightarrow> string \<Rightarrow> string \<Rightarrow> fuzzy_hit option" where
  "fuzzy_match U candidate query =
     (let q = utf8_chars (uc_lower U query); raw = utf8_chars candidate; cs = map (fold_char U) raw
      in if q = [] then None
      else if cs = [] then None
      else if length q \<le> length cs \<and> take (length q) cs = q
      then Some \<lparr>fm_score = PREFIX_SCORE, fm_positions = map (char_offset raw) [0..<length q]\<rparr>
      else let s = scan_all q (map (\<lambda>c. (c, is_separator c)) cs)
        in if sn_qi s < length q then None
           else Some \<lparr>fm_score = scan_score s, fm_positions = sn_positions s\<rparr>)"

definition QBUF_MAX :: nat where "QBUF_MAX = 48"

definition folded_query :: "unicode \<Rightarrow> string \<Rightarrow> string list" where
  "folded_query U query = (if length (utf8_chars query) \<le> QBUF_MAX then map (fold_char U) (utf8_chars query)
     else utf8_chars (uc_lower U query))"

text \<open>\<open>zip\<close> stops at the shorter side, so a candidate shorter than the query passes the prefix test when
  it is a prefix of the query.\<close>

definition fuzzy_score :: "unicode \<Rightarrow> string \<Rightarrow> string \<Rightarrow> f64 option" where
  "fuzzy_score U candidate query =
     (let q = folded_query U query; raw = utf8_chars candidate
      in if q = [] \<or> candidate = [] then None
      else if list_all (\<lambda>(c, qc). fold_char U c = qc) (zip (take (length q) raw) q) then Some PREFIX_SCORE
      else let s = scan_all q (map (\<lambda>c. (fold_char U c, is_separator c)) raw)
        in if sn_qi s < length q then None else Some (scan_score s))"

definition fuzzy_score_best :: "unicode \<Rightarrow> string list \<Rightarrow> string \<Rightarrow> f64 option" where
  "fuzzy_score_best U candidates query =
     fold (\<lambda>s acc. Some (case acc of Some best \<Rightarrow> (if f64_le s best then best else s) | None \<Rightarrow> s))
       (List.map_filter (\<lambda>c. fuzzy_score U c query) candidates) None"

section \<open>The scanner finds subsequences\<close>

fun unmatched :: "'a list \<Rightarrow> 'a list \<Rightarrow> 'a list" where
  "unmatched [] cs = []"
| "unmatched q [] = q"
| "unmatched (x # q) (c # cs) = (if c = x then unmatched q cs else unmatched (x # q) cs)"

lemma unmatched_Nil_iff: "unmatched q cs = [] \<longleftrightarrow> subseq q cs"
  by (induction q cs rule: unmatched.induct) (auto simp: subseq_Cons2_iff)

lemma unmatched_end [simp]: "unmatched q [] = q"
  by (cases q) simp_all

lemma scan_hit_frame [simp]:
  "sn_qi (scan_hit i s) = sn_qi s + 1" "sn_positions (scan_hit i s) = sn_positions s @ [i]"
  "sn_prev (scan_hit i s) = Some i"
  by (simp_all add: scan_hit_def Let_def split: option.split)

lemma scan_fold_unmatched:
  "sn_qi s \<le> length q \<Longrightarrow>
    sn_qi (fold (scan_step q) (enumerate n cs) s) \<le> length q
    \<and> drop (sn_qi (fold (scan_step q) (enumerate n cs) s)) q = unmatched (drop (sn_qi s) q) (map fst cs)"
proof (induction cs arbitrary: n s)
  case (Cons c cs)
  obtain x sep where c: "c = (x, sep)" by (cases c)
  let ?s = "scan_step q (n, c) s"
  have "sn_qi ?s \<le> length q \<and> unmatched (drop (sn_qi ?s) q) (map fst cs) = unmatched (drop (sn_qi s) q) (map fst (c # cs))"
  proof (cases "sn_qi s < length q")
    case True
    then have "drop (sn_qi s) q = q ! sn_qi s # drop (Suc (sn_qi s)) q" by (simp add: Cons_nth_drop_Suc)
    with True c show ?thesis by (auto simp: scan_step_def)
  next
    case False
    with Cons.prems c show ?thesis by (simp add: scan_step_def)
  qed
  with Cons.IH [of ?s "Suc n"] show ?case by simp
qed simp

lemma scan_incomplete: "sn_qi (scan_all q cs) < length q \<longleftrightarrow> \<not> subseq q (map fst cs)"
proof -
  have "sn_qi scan_start = 0" by (simp add: scan_start_def)
  with scan_fold_unmatched [of scan_start q 0 cs]
  have "sn_qi (scan_all q cs) \<le> length q" "drop (sn_qi (scan_all q cs)) q = unmatched q (map fst cs)"
    by (simp_all add: scan_all_def)
  then show ?thesis by (metis drop_eq_Nil not_less unmatched_Nil_iff)
qed

lemma prefix_subseq: "take (length q) cs = q \<Longrightarrow> subseq q cs"
  by (metis prefix_imp_subseq take_is_prefix)

text \<open>The matcher with positions matches exactly the subsequences.\<close>

lemma fuzzy_match_iff:
  "fuzzy_match U candidate query \<noteq> None \<longleftrightarrow>
    utf8_chars (uc_lower U query) \<noteq> [] \<and> subseq (utf8_chars (uc_lower U query)) (map (fold_char U) (utf8_chars candidate))"
  using prefix_subseq [of "utf8_chars (uc_lower U query)"]
  by (auto simp: fuzzy_match_def Let_def comp_def scan_incomplete)

text \<open>The scoring matcher also matches a candidate that is a prefix of the query.\<close>

lemma all_zip_eq: "list_all (\<lambda>(c, qc). f c = qc) (zip (take (length q) cs) q) \<longleftrightarrow>
    prefix (map f cs) q \<or> prefix q (map f cs)"
proof (induction q arbitrary: cs)
  case (Cons x q)
  then show ?case by (cases cs) auto
qed simp

lemma utf8_chars_Nil_iff [simp]: "utf8_chars s = [] \<longleftrightarrow> s = []"
  by (cases s) simp_all

lemma fuzzy_score_iff:
  "fuzzy_score U candidate query \<noteq> None \<longleftrightarrow> folded_query U query \<noteq> [] \<and> candidate \<noteq> []
    \<and> (subseq (folded_query U query) (map (fold_char U) (utf8_chars candidate))
       \<or> prefix (map (fold_char U) (utf8_chars candidate)) (folded_query U query))"
  using prefix_imp_subseq
  by (auto simp: fuzzy_score_def Let_def comp_def all_zip_eq scan_incomplete)

section \<open>Scores and positions\<close>

lemma fuzzy_score_nonneg: "fuzzy_score U candidate query = Some x \<Longrightarrow> f32_nonneg x"
  by (auto simp: fuzzy_score_def Let_def PREFIX_SCORE_def scan_score_def f32_max_0 split: if_splits)

lemma fuzzy_best_mem:
  assumes "fuzzy_score_best U cs query = Some x"
  shows "\<exists>c \<in> set cs. fuzzy_score U c query = Some x"
proof -
  let ?f = "\<lambda>s acc. Some (case acc of Some best \<Rightarrow> (if f64_le s best then best else s) | None \<Rightarrow> s)"
  have "fold ?f xs acc = Some x \<Longrightarrow> acc = Some x \<or> x \<in> set xs" for xs acc
    by (induction xs arbitrary: acc) (auto split: option.splits if_splits)
  from this [of "List.map_filter (\<lambda>c. fuzzy_score U c query) cs" None] assms show ?thesis
    by (auto simp: fuzzy_score_best_def List.map_filter_def)
qed

text \<open>The reported positions increase, and the candidate has the query's characters there.\<close>

lemma scan_positions:
  assumes "sn_positions s = ps" "length ps = sn_qi s" "sn_qi s \<le> length q"
    "\<forall>p \<in> set ps. p < n" "sorted_wrt (<) ps"
    "\<forall>i < length ps. all ! (ps ! i) = q ! i" "all = pre @ map fst cs" "length pre = n"
  shows "let t = fold (scan_step q) (enumerate n cs) s in length (sn_positions t) = sn_qi t \<and> sn_qi t \<le> length q
    \<and> (\<forall>p \<in> set (sn_positions t). p < length all) \<and> sorted_wrt (<) (sn_positions t)
    \<and> (\<forall>i < length (sn_positions t). all ! (sn_positions t ! i) = q ! i)"
  using assms
proof (induction cs arbitrary: n s ps pre)
  case (Cons c cs)
  obtain x sep where c: "c = (x, sep)" by (cases c)
  let ?s = "scan_step q (n, c) s"
  have here: "all ! n = x" using Cons.prems(7,8) c by (simp add: nth_append)
  show ?case
  proof (cases "sn_qi s < length q \<and> x = q ! sn_qi s")
    case True
    have "let t = fold (scan_step q) (enumerate (Suc n) cs) ?s in length (sn_positions t) = sn_qi t \<and> sn_qi t \<le> length q
    \<and> (\<forall>p \<in> set (sn_positions t). p < length all) \<and> sorted_wrt (<) (sn_positions t)
    \<and> (\<forall>i < length (sn_positions t). all ! (sn_positions t ! i) = q ! i)"
    proof (rule Cons.IH [where ps = "ps @ [n]" and pre = "pre @ [x]"])
      show "\<forall>i < length (ps @ [n]). all ! ((ps @ [n]) ! i) = q ! i"
        using Cons.prems(2,6) here True by (auto simp: nth_append less_Suc_eq)
    qed (use Cons.prems True c in \<open>auto simp: scan_step_def sorted_wrt_append\<close>)
    then show ?thesis by simp
  next
    case False
    then have "sn_qi ?s = sn_qi s" "sn_positions ?s = sn_positions s" using c by (auto simp: scan_step_def)
    have "let t = fold (scan_step q) (enumerate (Suc n) cs) ?s in length (sn_positions t) = sn_qi t \<and> sn_qi t \<le> length q
    \<and> (\<forall>p \<in> set (sn_positions t). p < length all) \<and> sorted_wrt (<) (sn_positions t)
    \<and> (\<forall>i < length (sn_positions t). all ! (sn_positions t ! i) = q ! i)"
      by (rule Cons.IH [where ps = ps and pre = "pre @ [x]"])
        (use Cons.prems False c in \<open>auto simp: scan_step_def less_Suc_eq\<close>)
    then show ?thesis by simp
  qed
qed (auto simp: Let_def)

text \<open>Off the prefix path the positions are character indices; on it they are byte offsets.\<close>

lemma fuzzy_match_positions:
  assumes "fuzzy_match U candidate query = Some h"
    and q: "q = utf8_chars (uc_lower U query)" and cs: "cs = map (fold_char U) (utf8_chars candidate)"
  shows "length (fm_positions h) = length q
    \<and> (take (length q) cs = q \<longrightarrow> fm_positions h = map (char_offset (utf8_chars candidate)) [0..<length q])
    \<and> (take (length q) cs \<noteq> q \<longrightarrow> sorted_wrt (<) (fm_positions h)
        \<and> (\<forall>i < length q. fm_positions h ! i < length cs \<and> cs ! (fm_positions h ! i) = q ! i))"
proof (cases "length q \<le> length cs \<and> take (length q) cs = q")
  case True
  with assms show ?thesis by (auto simp: fuzzy_match_def Let_def split: if_splits)
next
  case False
  let ?s = "scan_all q (map (\<lambda>c. (c, is_separator c)) cs)"
  from False have np: "take (length q) cs \<noteq> q" by (metis length_take min_def nat_le_linear)
  from assms(1) False have h: "\<not> sn_qi ?s < length q" "fm_positions h = sn_positions ?s"
    by (auto simp: fuzzy_match_def Let_def q cs comp_def split: if_splits)
  have "let t = ?s in length (sn_positions t) = sn_qi t \<and> sn_qi t \<le> length q
    \<and> (\<forall>p \<in> set (sn_positions t). p < length cs) \<and> sorted_wrt (<) (sn_positions t)
    \<and> (\<forall>i < length (sn_positions t). cs ! (sn_positions t ! i) = q ! i)"
    unfolding scan_all_def
    by (rule scan_positions [where ps = "[]" and pre = "[]"]) (simp_all add: scan_start_def comp_def)
  with h np show ?thesis by (auto simp: Let_def)
qed

section \<open>ASCII text\<close>

definition ascii_unicode :: unicode where
  "ascii_unicode = \<lparr>uc_lower = map ascii_lower, uc_lower_char = map ascii_lower\<rparr>"

lemma fuzzy_samples:
  "fuzzy_score ascii_unicode ''a'' ''abc'' = Some PREFIX_SCORE"
  "fuzzy_match ascii_unicode ''a'' ''abc'' = None"
  "fuzzy_score ascii_unicode ''Google Chrome'' ''gc'' = Some (Fin 15)"
  "map_option fm_positions (fuzzy_match ascii_unicode (''x'' @ [CHR 0xC3, CHR 0xA9] @ ''ab'') ''ab'') = Some [2, 3]"
  by code_simp+

text \<open>
  The matchers fold the query differently: one lower-cases the text, the other takes the first
  character of each lower-cased character. A capital dotted I (bytes C4 B0) lower-cases to an i and a
  combining dot.
\<close>

definition dotted_I :: string where "dotted_I = [CHR 0xC4, CHR 0xB0]"

definition dotted_unicode :: unicode where
  "dotted_unicode =
     (let low = (\<lambda>c. if c = dotted_I then ''i'' @ [CHR 0xCC, CHR 0x87] else map ascii_lower c)
      in \<lparr>uc_lower = (\<lambda>s. concat (map low (utf8_chars s))), uc_lower_char = low\<rparr>)"

lemma matchers_fold_differently:
  "fuzzy_match dotted_unicode ''istanbul'' dotted_I = None"
  "fuzzy_score dotted_unicode ''istanbul'' dotted_I = Some PREFIX_SCORE"
  by code_simp+

text \<open>C28: A fuzzy hit is an alignment. The matcher with positions matches exactly the candidates that contain
  the lower-cased query as a subsequence, and reports one position for each of its characters: on the
  prefix path their byte offsets, otherwise increasing character indices at which the candidate has the
  characters of the query. The scoring matcher accepts exactly the non-empty candidates that contain
  the query as it folds it (a character at a time up to 48 characters) as a subsequence, or are a
  prefix of it. When both foldings of the query agree, it accepts what the other matcher accepts and,
  beyond that, the candidates that are a prefix of the query; when they do not, the two can disagree
  (\<open>matchers_fold_differently\<close>). Its scores are never negative, and the best score is the score of a
  candidate.\<close>

theorem fuzzy_hits_are_alignments:
  "let q = utf8_chars (uc_lower U query); cs = map (fold_char U) (utf8_chars candidate) in
     (fuzzy_match U candidate query \<noteq> None \<longleftrightarrow> q \<noteq> [] \<and> subseq q cs)
     \<and> (fuzzy_match U candidate query = Some h \<longrightarrow> length (fm_positions h) = length q
        \<and> (if take (length q) cs = q then fm_positions h = map (char_offset (utf8_chars candidate)) [0..<length q]
           else sorted_wrt (<) (fm_positions h) \<and> (\<forall>i < length q. fm_positions h ! i < length cs \<and> cs ! (fm_positions h ! i) = q ! i)))
     \<and> (fuzzy_score U candidate query \<noteq> None \<longleftrightarrow> folded_query U query \<noteq> [] \<and> candidate \<noteq> []
        \<and> (subseq (folded_query U query) cs \<or> prefix cs (folded_query U query)))
     \<and> (folded_query U query = q \<longrightarrow> (fuzzy_score U candidate query \<noteq> None \<longleftrightarrow>
          fuzzy_match U candidate query \<noteq> None \<or> q \<noteq> [] \<and> candidate \<noteq> [] \<and> prefix cs q))
     \<and> (fuzzy_score_best U candidates query = Some x \<longrightarrow> f32_nonneg x \<and> (\<exists>c \<in> set candidates. fuzzy_score U c query = Some x))"
proof -
  define q where "q = utf8_chars (uc_lower U query)"
  define cs where "cs = map (fold_char U) (utf8_chars candidate)"
  have "fuzzy_match U candidate query = Some h \<longrightarrow> length (fm_positions h) = length q
        \<and> (if take (length q) cs = q then fm_positions h = map (char_offset (utf8_chars candidate)) [0..<length q]
           else sorted_wrt (<) (fm_positions h) \<and> (\<forall>i < length q. fm_positions h ! i < length cs \<and> cs ! (fm_positions h ! i) = q ! i))"
    using fuzzy_match_positions [OF _ q_def cs_def] by auto
  moreover have "fuzzy_score_best U candidates query = Some x \<longrightarrow> f32_nonneg x \<and> (\<exists>c \<in> set candidates. fuzzy_score U c query = Some x)"
    using fuzzy_best_mem fuzzy_score_nonneg by blast
  moreover have "q \<noteq> [] \<and> subseq q cs \<Longrightarrow> candidate \<noteq> []" by (cases q) (auto simp: cs_def)
  then have "q \<noteq> [] \<and> candidate \<noteq> [] \<and> (subseq q cs \<or> prefix cs q) \<longleftrightarrow>
      q \<noteq> [] \<and> subseq q cs \<or> q \<noteq> [] \<and> candidate \<noteq> [] \<and> prefix cs q" by blast
  ultimately show ?thesis
    unfolding Let_def q_def [symmetric] cs_def [symmetric] fuzzy_match_iff [of U candidate query, folded q_def cs_def]
      fuzzy_score_iff [of U candidate query, folded q_def cs_def]
    by (intro conjI refl impI) simp_all
qed

theorem fuzzy_hits_are_alignments_witness:
  "subseq (utf8_chars (uc_lower ascii_unicode ''gc'')) (map (fold_char ascii_unicode) (utf8_chars ''Google Chrome''))
    \<and> (\<exists>h. fuzzy_match ascii_unicode ''Google Chrome'' ''gc'' = Some h \<and> length (fm_positions h) = length (utf8_chars (uc_lower ascii_unicode ''gc'')))"
proof -
  have "map_option fm_positions (fuzzy_match ascii_unicode ''Google Chrome'' ''gc'') = Some [0, 7]" by code_simp
  then obtain h where h: "fuzzy_match ascii_unicode ''Google Chrome'' ''gc'' = Some h" by auto
  then have hit: "fuzzy_match ascii_unicode ''Google Chrome'' ''gc'' \<noteq> None" by simp
  note t = fuzzy_hits_are_alignments [of ascii_unicode "''gc''" "''Google Chrome''" h "[]" "Fin 0", unfolded Let_def]
  from iffD1 [OF conjunct1 [OF t] hit] mp [OF conjunct1 [OF conjunct2 [OF t]] h] h show ?thesis by blast
qed

end
