(* ===== verification/AiContract.thy ===== *)
theory AiContract
  imports Values
begin

text \<open>
  The proposal contract of the agent (\<open>launcher-ai/src/agent_contract.rs\<close>), the versioned plan
  document (\<open>plan.rs\<close>), the tool catalog projection (\<open>tool_catalog.rs\<close>), the plan validator
  (\<open>plan_validator.rs\<close>), the risk classifier (\<open>risk_classifier.rs\<close>) and the validator of raw
  model output (\<open>structured_output.rs\<close>). JSON readers and writers are arguments.
\<close>

section \<open>Proposals\<close>

datatype agent_intent = ISearch | IOpen | IExecute | IWorkflow | IExplain | IUnknown

datatype risk_level = L0Informational | L1ReadOnly | L2Reversible | L3Destructive | L4Sensitive

text \<open>The derived \<open>Ord\<close>: declaration order.\<close>

fun risk_rank :: "risk_level \<Rightarrow> nat" where
  "risk_rank L0Informational = 0"
| "risk_rank L1ReadOnly = 1"
| "risk_rank L2Reversible = 2"
| "risk_rank L3Destructive = 3"
| "risk_rank L4Sensitive = 4"

lemma risk_rank_inject [simp]: "risk_rank a = risk_rank b \<longleftrightarrow> a = b"
  by (cases a; cases b) simp_all

instantiation risk_level :: linorder
begin

definition less_eq_risk_level :: "risk_level \<Rightarrow> risk_level \<Rightarrow> bool" where
  "less_eq_risk_level a b \<longleftrightarrow> risk_rank a \<le> risk_rank b"

definition less_risk_level :: "risk_level \<Rightarrow> risk_level \<Rightarrow> bool" where
  "less_risk_level a b \<longleftrightarrow> risk_rank a < risk_rank b"

instance
proof
  fix a b c :: risk_level
  show "(a < b) = (a \<le> b \<and> \<not> b \<le> a)" by (auto simp: less_eq_risk_level_def less_risk_level_def)
  show "a \<le> a" by (simp add: less_eq_risk_level_def)
  show "a \<le> b \<Longrightarrow> b \<le> c \<Longrightarrow> a \<le> c" by (simp add: less_eq_risk_level_def)
  show "a \<le> b \<Longrightarrow> b \<le> a \<Longrightarrow> a = b" by (simp add: less_eq_risk_level_def flip: risk_rank_inject)
  show "a \<le> b \<or> b \<le> a" by (auto simp: less_eq_risk_level_def)
qed

end

definition risk_requires_approval :: "risk_level \<Rightarrow> bool" where
  "risk_requires_approval r \<longleftrightarrow> r = L3Destructive \<or> r = L4Sensitive"

lemma risk_requires_approval_mono: "r \<le> s \<Longrightarrow> risk_requires_approval r \<Longrightarrow> risk_requires_approval s"
  by (cases r; cases s) (auto simp: risk_requires_approval_def less_eq_risk_level_def)

record plan_step =
  ps_id :: string
  ps_action_ref :: string
  ps_input :: json
  ps_rationale :: "string option"
  ps_requires_approval :: bool

record agent_proposal =
  pr_id :: string
  pr_session :: string
  pr_goal :: string
  pr_intent :: agent_intent
  pr_plan :: "plan_step list"
  pr_confidence :: f64
  pr_explanation :: "string option"

definition input_str_len :: "json \<Rightarrow> nat" where
  "input_str_len v = (case json_as_str v of Some s \<Rightarrow> length s | None \<Rightarrow> 0)"

text \<open>The loop over the plan. The first test inserts the id into \<open>seen\<close> only when it is
  reached.\<close>

fun check_steps :: "plan_step list \<Rightarrow> string list \<Rightarrow> string + unit" where
  "check_steps [] seen = Ok ()"
| "check_steps (s # ss) seen =
     (if ps_id s = [] \<or> length (ps_id s) > 128 \<or> ps_id s \<in> set seen
      then Err (''invalid or duplicate step_id: '' @ ps_id s)
      else if ps_action_ref s = [] \<or> CHR ''/'' \<in> set (ps_action_ref s) \<or> CHR 0x5C \<in> set (ps_action_ref s)
      then Err (''invalid action_ref: '' @ ps_action_ref s)
      else if input_str_len (ps_input s) > 64 * 1024
      then Err (''step '' @ ps_id s @ '' input too large'')
      else check_steps ss (hs_insert (ps_id s) seen))"

definition validate_proposal :: "agent_proposal \<Rightarrow> string + unit" where
  "validate_proposal p =
     (if pr_id p = [] \<or> length (pr_id p) > 128 then Err ''invalid proposal_id''
      else if pr_session p = [] \<or> length (pr_session p) > 128 then Err ''invalid session_id''
      else if str_blank (pr_goal p) \<or> length (pr_goal p) > 4096 then Err ''invalid user_goal''
      else if \<not> (f64_le (Fin 0) (pr_confidence p) \<and> f64_le (pr_confidence p) (Fin 1))
      then Err ''confidence must be in [0,1]''
      else if pr_plan p = [] then Err ''plan must have at least one step''
      else check_steps (pr_plan p) [])"

text \<open>What the contract says of one step and of a proposal.\<close>

definition step_ok :: "plan_step \<Rightarrow> bool" where
  "step_ok s \<longleftrightarrow> ps_id s \<noteq> [] \<and> length (ps_id s) \<le> 128
     \<and> ps_action_ref s \<noteq> [] \<and> CHR ''/'' \<notin> set (ps_action_ref s) \<and> CHR 0x5C \<notin> set (ps_action_ref s)
     \<and> input_str_len (ps_input s) \<le> 64 * 1024"

definition id_ok :: "string \<Rightarrow> bool" where
  "id_ok s \<longleftrightarrow> s \<noteq> [] \<and> length s \<le> 128"

definition goal_ok :: "string \<Rightarrow> bool" where
  "goal_ok s \<longleftrightarrow> \<not> str_blank s \<and> length s \<le> 4096"

definition proposal_ok :: "agent_proposal \<Rightarrow> bool" where
  "proposal_ok p \<longleftrightarrow> id_ok (pr_id p) \<and> id_ok (pr_session p) \<and> goal_ok (pr_goal p)
     \<and> (\<exists>c. pr_confidence p = Fin c \<and> 0 \<le> c \<and> c \<le> 1)
     \<and> pr_plan p \<noteq> [] \<and> distinct (map ps_id (pr_plan p)) \<and> (\<forall>s \<in> set (pr_plan p). step_ok s)"

lemma check_steps_Ok:
  "check_steps ss seen = Ok () \<longleftrightarrow>
    distinct (map ps_id ss) \<and> (\<forall>s \<in> set ss. step_ok s) \<and> ps_id ` set ss \<inter> set seen = {}"
  by (induction ss arbitrary: seen) (auto simp: step_ok_def not_less)

lemma f64_unit_interval: "f64_le (Fin 0) x \<and> f64_le x (Fin 1) \<longleftrightarrow> (\<exists>c. x = Fin c \<and> 0 \<le> c \<and> c \<le> 1)"
  by (cases x) (auto simp: f64_le_def)

lemma validate_proposal_Ok: "validate_proposal p = Ok () \<longleftrightarrow> proposal_ok p"
  using f64_unit_interval [of "pr_confidence p"]
  by (auto simp: validate_proposal_def proposal_ok_def id_ok_def goal_ok_def check_steps_Ok not_less)

section \<open>Plan documents\<close>

definition PLAN_SCHEMA_VERSION :: "32 word" where
  "PLAN_SCHEMA_VERSION = 1"

record plan_document =
  pd_version :: "32 word"
  pd_proposal :: string
  pd_session :: string
  pd_goal :: string
  pd_steps :: "plan_step list"

datatype plan_document_error = UnknownVersion "32 word" "32 word" | InvalidDoc string

definition from_proposal :: "agent_proposal \<Rightarrow> plan_document" where
  "from_proposal p = \<lparr>pd_version = PLAN_SCHEMA_VERSION, pd_proposal = pr_id p,
     pd_session = pr_session p, pd_goal = pr_goal p, pd_steps = pr_plan p\<rparr>"

fun check_doc_steps :: "plan_step list \<Rightarrow> string list \<Rightarrow> plan_document_error + unit" where
  "check_doc_steps [] seen = Ok ()"
| "check_doc_steps (s # ss) seen =
     (if ps_id s = [] \<or> length (ps_id s) > 128
      then Err (InvalidDoc (''invalid step_id: '' @ ps_id s))
      else if ps_id s \<in> set seen
      then Err (InvalidDoc (''duplicate step_id: '' @ ps_id s))
      else if str_blank (ps_action_ref s) \<or> length (ps_action_ref s) > 256
      then Err (InvalidDoc (''invalid action_ref: '' @ ps_action_ref s))
      else check_doc_steps ss (hs_insert (ps_id s) seen))"

definition validate_doc :: "plan_document \<Rightarrow> plan_document_error + unit" where
  "validate_doc d =
     (if pd_version d \<noteq> PLAN_SCHEMA_VERSION then Err (UnknownVersion (pd_version d) PLAN_SCHEMA_VERSION)
      else if pd_proposal d = [] \<or> length (pd_proposal d) > 128 then Err (InvalidDoc ''invalid proposal_id'')
      else if pd_session d = [] \<or> length (pd_session d) > 128 then Err (InvalidDoc ''invalid session_id'')
      else if str_blank (pd_goal d) \<or> length (pd_goal d) > 4096 then Err (InvalidDoc ''invalid user_goal'')
      else if pd_steps d = [] then Err (InvalidDoc ''plan must have at least one step'')
      else if length (pd_steps d) > 64 then Err (InvalidDoc ''plan exceeds 64 steps'')
      else check_doc_steps (pd_steps d) [])"

definition doc_from_json :: "(string \<Rightarrow> string + plan_document) \<Rightarrow> string \<Rightarrow> plan_document_error + plan_document" where
  "doc_from_json read raw = (case read raw of
     Inl e \<Rightarrow> Err (InvalidDoc e)
   | Inr d \<Rightarrow> (case validate_doc d of Inl e \<Rightarrow> Err e | Inr _ \<Rightarrow> Ok d))"

definition doc_to_json :: "(plan_document \<Rightarrow> string + string) \<Rightarrow> plan_document \<Rightarrow> plan_document_error + string" where
  "doc_to_json write d = (case validate_doc d of
     Inl e \<Rightarrow> Err e
   | Inr _ \<Rightarrow> (case write d of Inl e \<Rightarrow> Err (InvalidDoc e) | Inr s \<Rightarrow> Ok s))"

definition doc_step_ok :: "plan_step \<Rightarrow> bool" where
  "doc_step_ok s \<longleftrightarrow> id_ok (ps_id s) \<and> \<not> str_blank (ps_action_ref s) \<and> length (ps_action_ref s) \<le> 256"

definition doc_ok :: "plan_document \<Rightarrow> bool" where
  "doc_ok d \<longleftrightarrow> pd_version d = PLAN_SCHEMA_VERSION \<and> id_ok (pd_proposal d) \<and> id_ok (pd_session d)
     \<and> goal_ok (pd_goal d) \<and> 0 < length (pd_steps d) \<and> length (pd_steps d) \<le> 64
     \<and> distinct (map ps_id (pd_steps d)) \<and> (\<forall>s \<in> set (pd_steps d). doc_step_ok s)"

lemma check_doc_steps_Ok:
  "check_doc_steps ss seen = Ok () \<longleftrightarrow>
    distinct (map ps_id ss) \<and> (\<forall>s \<in> set ss. doc_step_ok s) \<and> ps_id ` set ss \<inter> set seen = {}"
  by (induction ss arbitrary: seen) (auto simp: doc_step_ok_def id_ok_def not_less)

lemma validate_doc_Ok: "validate_doc d = Ok () \<longleftrightarrow> doc_ok d"
  by (auto simp: validate_doc_def doc_ok_def id_ok_def goal_ok_def check_doc_steps_Ok not_less)

text \<open>A document derived from a valid proposal is valid exactly when the plan has at most 64 steps
  and its references are not blank and at most 256 bytes long.\<close>

lemma from_proposal_ok:
  assumes "proposal_ok p"
  shows "doc_ok (from_proposal p) \<longleftrightarrow> length (pr_plan p) \<le> 64
    \<and> (\<forall>s \<in> set (pr_plan p). \<not> str_blank (ps_action_ref s) \<and> length (ps_action_ref s) \<le> 256)"
  using assms by (auto simp: doc_ok_def proposal_ok_def from_proposal_def doc_step_ok_def step_ok_def id_ok_def)

lemma doc_json_roundtrip:
  assumes "\<And>d s. write d = Ok s \<Longrightarrow> read s = Ok d" "doc_to_json write d = Ok s"
  shows "doc_from_json read s = Ok d"
  using assms by (auto simp: doc_to_json_def doc_from_json_def split: sum.splits)

section \<open>The tool catalog\<close>

datatype tool_kind = ActionTool | WorkflowTool

record catalog_entry =
  ce_ref :: string
  ce_kind :: tool_kind
  ce_title :: string
  ce_description :: "string option"
  ce_action_type :: "string option"
  ce_input_schema :: "json option"

text \<open>A \<open>BTreeMap\<close> keyed by \<open>ref\<close>: entries sorted by key.\<close>

record tool_catalog =
  tc_entries :: "catalog_entry list"

definition tc_get :: "tool_catalog \<Rightarrow> string \<Rightarrow> catalog_entry option" where
  "tc_get c r = row_get ce_ref (tc_entries c) r"

definition tc_insert :: "catalog_entry \<Rightarrow> tool_catalog \<Rightarrow> tool_catalog" where
  "tc_insert e c = c\<lparr>tc_entries := bt_insert ce_ref e (tc_entries c)\<rparr>"

record action_item =
  ai_provider :: string
  ai_command :: string
  ai_action :: string
  ai_title :: string
  ai_description :: "string option"
  ai_action_title :: "string option"
  ai_action_type :: string
  ai_input_schema :: "json option"

record workflow_summary =
  ws_definition :: string
  ws_name :: string
  ws_description :: "string option"

definition tool_action_ref :: "string \<Rightarrow> string \<Rightarrow> string \<Rightarrow> string" where
  "tool_action_ref p c a = p @ ''|'' @ c @ ''|'' @ a"

definition tool_workflow_ref :: "string \<Rightarrow> string" where
  "tool_workflow_ref d = ''workflow'' @ ''|'' @ d"

definition action_entry :: "action_item \<Rightarrow> catalog_entry" where
  "action_entry a = \<lparr>ce_ref = tool_action_ref (ai_provider a) (ai_command a) (ai_action a),
     ce_kind = ActionTool, ce_title = ai_title a, ce_description = ai_description a,
     ce_action_type = Some (ai_action_type a), ce_input_schema = ai_input_schema a\<rparr>"

definition workflow_entry :: "workflow_summary \<Rightarrow> catalog_entry" where
  "workflow_entry w = \<lparr>ce_ref = tool_workflow_ref (ws_definition w), ce_kind = WorkflowTool,
     ce_title = ws_name w, ce_description = ws_description w, ce_action_type = None,
     ce_input_schema = None\<rparr>"

definition tc_project :: "action_item list \<Rightarrow> workflow_summary list \<Rightarrow> tool_catalog" where
  "tc_project actions workflows =
     fold (\<lambda>w. tc_insert (workflow_entry w)) workflows
       (fold (\<lambda>a. tc_insert (action_entry a)) actions \<lparr>tc_entries = []\<rparr>)"

text \<open>Bounded rendering: keep whole entries while they fit.\<close>

record projection_limits =
  pl_max_entries :: nat
  pl_max_chars :: nat

fun render_keep :: "(catalog_entry \<Rightarrow> string option) \<Rightarrow> projection_limits \<Rightarrow> catalog_entry list \<Rightarrow>
    catalog_entry list \<Rightarrow> nat \<Rightarrow> catalog_entry list" where
  "render_keep text limits [] kept chars = kept"
| "render_keep text limits (e # es) kept chars =
     (case text e of
        None \<Rightarrow> render_keep text limits es kept chars
      | Some js \<Rightarrow>
          let extra = (if kept = [] then length js else length js + 1) in
          if length kept \<ge> pl_max_entries limits \<or> chars + extra > pl_max_chars limits then kept
          else render_keep text limits es (kept @ [e]) (chars + extra))"

definition tc_render_json :: "(catalog_entry \<Rightarrow> string option) \<Rightarrow> (catalog_entry list \<Rightarrow> string option) \<Rightarrow>
    projection_limits \<Rightarrow> tool_catalog \<Rightarrow> string \<times> nat" where
  "tc_render_json text array_text limits c =
     (let kept = render_keep text limits (tc_entries c) [] 2
      in (case array_text kept of Some s \<Rightarrow> s | None \<Rightarrow> ''[]'', length kept))"

interpretation catalog: keyed_store tc_get tc_insert ce_ref
  by unfold_locales (simp add: tc_get_def tc_insert_def row_get_bt_insert)

definition tc_inv :: "tool_catalog \<Rightarrow> bool" where
  "tc_inv c \<longleftrightarrow> sorted_wrt (<) (map ce_ref (tc_entries c))"

lemma tc_inv_insert: "tc_inv c \<Longrightarrow> tc_inv (tc_insert e c)"
  by (simp add: tc_inv_def tc_insert_def sorted_bt_insert)

lemma fold_insert_as_put: "fold (\<lambda>a. tc_insert (f a)) xs c = fold tc_insert (map f xs) c"
  by (induction xs arbitrary: c) auto

lemma tc_project_folds:
  "tc_project actions workflows =
    fold tc_insert (map action_entry actions @ map workflow_entry workflows) \<lparr>tc_entries = []\<rparr>"
  by (simp add: tc_project_def fold_insert_as_put [where f = action_entry] fold_insert_as_put [where f = workflow_entry])

lemma tc_inv_project: "tc_inv (tc_project actions workflows)"
proof -
  have "tc_inv c \<Longrightarrow> tc_inv (fold tc_insert es c)" for es c
    by (induction es arbitrary: c) (auto simp: tc_inv_insert)
  then show ?thesis by (simp add: tc_project_folds tc_inv_def)
qed

text \<open>A lookup in a projection returns the last tool published under the reference.\<close>

lemma tc_get_project:
  "tc_get (tc_project actions workflows) r =
    find (\<lambda>e. ce_ref e = r) (rev (map action_entry actions @ map workflow_entry workflows))"
  unfolding tc_project_folds catalog.get_fold_put
  by (simp add: tc_get_def row_get_def split: option.splits)

text \<open>References split unambiguously when provider and command ids are free of the separator.\<close>

lemma append_bar_cancel:
  "CHR ''|'' \<notin> set a \<Longrightarrow> CHR ''|'' \<notin> set b \<Longrightarrow> a @ CHR ''|'' # x = b @ CHR ''|'' # y \<longleftrightarrow> a = b \<and> x = y"
proof (induction a arbitrary: b)
  case Nil
  then show ?case by (cases b) auto
next
  case (Cons c a)
  then show ?case by (cases b) auto
qed

lemma tool_action_ref_inject:
  assumes "CHR ''|'' \<notin> set p" "CHR ''|'' \<notin> set c" "CHR ''|'' \<notin> set p'" "CHR ''|'' \<notin> set c'"
  shows "tool_action_ref p c a = tool_action_ref p' c' a' \<longleftrightarrow> p = p' \<and> c = c' \<and> a = a'"
  using assms by (simp add: tool_action_ref_def append_bar_cancel)

text \<open>The rendering keeps a subsequence of the catalog within both bounds.\<close>

definition rendered_chars :: "(catalog_entry \<Rightarrow> string option) \<Rightarrow> catalog_entry list \<Rightarrow> nat" where
  "rendered_chars text kept = 2 + sum_list (map (\<lambda>e. length (the (text e))) kept) + (length kept - 1)"

lemma render_keep_bounds:
  "length kept \<le> pl_max_entries limits \<Longrightarrow> chars = rendered_chars text kept \<Longrightarrow>
    (kept \<noteq> [] \<longrightarrow> chars \<le> pl_max_chars limits) \<Longrightarrow>
    length (render_keep text limits es kept chars) \<le> pl_max_entries limits
    \<and> (render_keep text limits es kept chars \<noteq> [] \<longrightarrow>
        rendered_chars text (render_keep text limits es kept chars) \<le> pl_max_chars limits)"
proof (induction es arbitrary: kept chars)
  case (Cons e es)
  show ?case
  proof (cases "text e")
    case None
    with Cons show ?thesis by simp
  next
    case (Some js)
    let ?extra = "if kept = [] then length js else length js + 1"
    show ?thesis
    proof (cases "length kept \<ge> pl_max_entries limits \<or> chars + ?extra > pl_max_chars limits")
      case True
      with Some Cons.prems show ?thesis by (cases "kept = []") (auto simp: Let_def)
    next
      case False
      have "chars + ?extra = rendered_chars text (kept @ [e])"
        using Cons.prems(2) Some by (cases kept) (simp_all add: rendered_chars_def)
      from Cons.IH [OF _ this] False Some Cons.prems(3) show ?thesis by (auto simp: Let_def)
    qed
  qed
qed simp

section \<open>The plan validator\<close>

datatype plan_validation_error =
    UnknownRef string string
  | KindMismatch string string string
  | InvalidInput string

definition validate_step :: "plan_step \<Rightarrow> tool_catalog \<Rightarrow> plan_validation_error + unit" where
  "validate_step s c = (case tc_get c (ps_action_ref s) of
     None \<Rightarrow> Err (UnknownRef (ps_id s) (ps_action_ref s))
   | Some e \<Rightarrow>
      let kind_name = (case ce_kind e of ActionTool \<Rightarrow> ''action'' | WorkflowTool \<Rightarrow> ''workflow'');
          expected = (if starts_with (ps_action_ref s) ''workflow|'' then ''workflow'' else ''action'')
      in if expected \<noteq> kind_name then Err (KindMismatch (ps_id s) expected kind_name)
         else if \<not> json_is_null (ps_input s) \<and> \<not> json_is_object (ps_input s)
         then Err (InvalidInput (ps_id s))
         else Ok ())"

fun validate_plan_steps :: "plan_step list \<Rightarrow> tool_catalog \<Rightarrow> plan_validation_error + unit" where
  "validate_plan_steps [] c = Ok ()"
| "validate_plan_steps (s # ss) c =
     (case validate_step s c of Inl e \<Rightarrow> Err e | Inr _ \<Rightarrow> validate_plan_steps ss c)"

definition validate_plan :: "plan_document \<Rightarrow> tool_catalog \<Rightarrow> plan_validation_error + unit" where
  "validate_plan d c = validate_plan_steps (pd_steps d) c"

lemma validate_step_Ok:
  "validate_step s c = Ok () \<longleftrightarrow>
    (\<exists>e. tc_get c (ps_action_ref s) = Some e
      \<and> (ce_kind e = WorkflowTool \<longleftrightarrow> starts_with (ps_action_ref s) ''workflow|'')
      \<and> (ps_input s = JNull \<or> (\<exists>m. ps_input s = JObject m)))"
proof (cases "tc_get c (ps_action_ref s)")
  case (Some e)
  have "json_is_object v \<longleftrightarrow> (\<exists>m. v = JObject m)" for v
    by (cases v) (simp_all add: json_is_object_def)
  with Some show ?thesis
    by (cases "ce_kind e") (auto simp: validate_step_def json_is_null_def Let_def)
qed (simp add: validate_step_def)

lemma validate_plan_steps_Ok: "validate_plan_steps ss c = Ok () \<longleftrightarrow> (\<forall>s \<in> set ss. validate_step s c = Ok ())"
  by (induction ss) (auto split: sum.splits)

section \<open>Risk\<close>

definition classify :: "plan_step \<Rightarrow> risk_level" where
  "classify s =
     (let r = ps_action_ref s in
      if starts_with r ''explain:'' \<or> starts_with r ''search:'' then L0Informational
      else if starts_with r ''command:file:'' \<or> starts_with r ''command:app:''
      then (if contains_str r ''copy'' then L2Reversible else L1ReadOnly)
      else if starts_with r ''clipboard:'' then L2Reversible
      else if starts_with r ''workflow:'' then L2Reversible
      else if starts_with r ''shell:'' \<or> starts_with r ''power:'' then L3Destructive
      else if starts_with r ''privileged:'' then L4Sensitive
      else L4Sensitive)"

definition step_requires_approval :: "plan_step \<Rightarrow> bool" where
  "step_requires_approval s = risk_requires_approval (classify s)"

text \<open>The classifier's words end in a colon, so a reference whose part before the first bar has no
  colon gets the highest level.\<close>

lemma no_word:
  assumes "CHR '':'' \<notin> set p" "CHR '':'' \<in> set w" "CHR ''|'' \<notin> set w"
  shows "\<not> starts_with (p @ CHR ''|'' # r) w"
proof
  assume "starts_with (p @ CHR ''|'' # r) w"
  then obtain t where "p @ CHR ''|'' # r = w @ t" by (auto simp: starts_with_iff)
  then show False unfolding append_eq_append_conv2
  proof
    fix us assume "p = w @ us \<and> us @ CHR ''|'' # r = t \<or> p @ us = w \<and> CHR ''|'' # r = us @ t"
    with assms show False by (cases us) auto
  qed
qed

lemma classify_catalog_ref:
  assumes "CHR '':'' \<notin> set p" "ps_action_ref s = p @ CHR ''|'' # r"
  shows "classify s = L4Sensitive"
  by (simp add: classify_def assms(2) Let_def no_word [OF assms(1)])

section \<open>Model output\<close>

text \<open>The first brace to the last one, after trimming.\<close>

definition extract_json :: "string \<Rightarrow> string + string" where
  "extract_json raw =
     (let t = str_trim raw; pre = takeWhile (\<lambda>c. c \<noteq> CHR 0x7B) t;
          start = length pre; after = length (takeWhile (\<lambda>c. c \<noteq> CHR 0x7D) (rev t))
      in if CHR 0x7B \<notin> set t then Err ''no JSON object found''
         else if CHR 0x7D \<notin> set t then Err ''no JSON object found''
         else let stop = length t - 1 - after in
           if stop > start then Ok (drop start (take (stop + 1) t))
           else Err ''no JSON object found'')"

definition validate_llm_output :: "(string \<Rightarrow> string + agent_proposal) \<Rightarrow> string \<Rightarrow> string + agent_proposal" where
  "validate_llm_output read raw = (case extract_json raw of
     Inl e \<Rightarrow> Err e
   | Inr js \<Rightarrow> (case read js of
       Inl e \<Rightarrow> Err (''not a valid proposal: '' @ e)
     | Inr p \<Rightarrow> (case validate_proposal p of Inl e \<Rightarrow> Err e | Inr _ \<Rightarrow> Ok p)))"

lemma validate_llm_output_ok: "validate_llm_output read raw = Ok p \<Longrightarrow> proposal_ok p"
  by (auto simp: validate_llm_output_def validate_proposal_Ok [symmetric] split: sum.splits)

lemma split_first:
  assumes "c \<in> set s"
  obtains r where "s = takeWhile (\<lambda>x. x \<noteq> c) s @ c # r"
proof -
  have "dropWhile (\<lambda>x. x \<noteq> c) s \<noteq> []" using assms by (simp add: dropWhile_eq_Nil_conv)
  then obtain d r where d: "dropWhile (\<lambda>x. x \<noteq> c) s = d # r" by (cases "dropWhile (\<lambda>x. x \<noteq> c) s") auto
  then have "d = c" using hd_dropWhile [of "\<lambda>x. x \<noteq> c" s] by simp
  with d takeWhile_dropWhile_id [of "\<lambda>x. x \<noteq> c" s] show thesis by (intro that [of r]) simp
qed

lemma extract_json_braces:
  assumes "extract_json raw = Ok js"
  shows "\<exists>a b m. str_trim raw = a @ js @ b \<and> js = CHR 0x7B # m @ [CHR 0x7D]
    \<and> CHR 0x7B \<notin> set a \<and> CHR 0x7D \<notin> set b"
proof -
  let ?t = "str_trim raw"
  let ?a = "takeWhile (\<lambda>c. c \<noteq> CHR 0x7B) ?t" and ?w = "takeWhile (\<lambda>c. c \<noteq> CHR 0x7D) (rev ?t)"
  from assms have mem: "CHR 0x7B \<in> set ?t" "CHR 0x7D \<in> set ?t"
    and less: "length ?a < length ?t - 1 - length ?w"
    and js: "js = drop (length ?a) (take (length ?t - 1 - length ?w + 1) ?t)"
    by (auto simp: extract_json_def Let_def split: if_splits)
  obtain t' where t': "?t = ?a @ CHR 0x7B # t'" using mem(1) by (rule split_first)
  obtain r where r: "rev ?t = ?w @ CHR 0x7D # r" using mem(2) by (auto intro: split_first [of _ "rev ?t"])
  then have "rev (rev ?t) = rev (?w @ CHR 0x7D # r)" by simp
  then have t: "?t = rev r @ CHR 0x7D # rev ?w" by simp
  have "length ?t = length (rev r @ CHR 0x7D # rev ?w)" using t by (rule arg_cong)
  then have stop: "length ?t - 1 - length ?w = length r" by simp
  have "take (length r + 1) (rev r @ CHR 0x7D # rev ?w) = rev r @ [CHR 0x7D]" by simp
  then have "take (length r + 1) ?t = rev r @ [CHR 0x7D]" unfolding t [symmetric] .
  then have js': "js = drop (length ?a) (rev r @ [CHR 0x7D])" using js stop by simp
  have len: "length ?a < length r" using less stop by simp
  have "take (length r) (rev r @ CHR 0x7D # rev ?w) = rev r" by simp
  then have "take (length r) ?t = rev r" unfolding t [symmetric] .
  moreover have "take (length r) (?a @ CHR 0x7B # t') = ?a @ CHR 0x7B # take (length r - length ?a - 1) t'"
    using len by (simp add: take_Cons')
  then have "take (length r) ?t = ?a @ CHR 0x7B # take (length r - length ?a - 1) t'"
    unfolding t' [symmetric] .
  ultimately have "rev r = ?a @ CHR 0x7B # take (length r - length ?a - 1) t'" by simp
  then obtain m where m: "rev r = ?a @ CHR 0x7B # m" by blast
  have "?t = (?a @ CHR 0x7B # m) @ CHR 0x7D # rev ?w" using t unfolding m .
  then have "?t = ?a @ (CHR 0x7B # m @ [CHR 0x7D]) @ rev ?w" by simp
  moreover have "js = CHR 0x7B # m @ [CHR 0x7D]" using js' unfolding m by simp
  moreover have "CHR 0x7B \<notin> set ?a" "CHR 0x7D \<notin> set (rev ?w)" by (auto dest: set_takeWhileD)
  ultimately show ?thesis by blast
qed

end
