(* ===== verification/WfGraph.thy ===== *)
theory WfGraph
  imports Values
begin

text \<open>
  The Workflow 2.0 graph model and its validator (\<open>launcher-workflow/src/graph.rs\<close>). The
  definitions follow \<open>validate\<close> phase by phase: unique node ids, the entry node, edge ends and
  self-loops, reachability from the entry with an explicit stack, and the iterative depth-first
  search with colours that looks for a cycle. The lemmas show that each phase decides what it is
  meant to decide, so that \<open>validate\<close> accepts exactly the graphs of \<open>valid_dag\<close>.
\<close>

section \<open>Data model\<close>

datatype condition_op = OpEq | OpNe | OpGt | OpLt

record condition_expr =
  ce_left :: string
  ce_op :: condition_op
  ce_right :: string

record workflow_node =
  node_id :: string
  action_ref :: string
  output_variables :: "string list"
  node_condition :: "condition_expr option"
  approval :: bool

record workflow_edge =
  edge_from :: string
  edge_to :: string
  edge_condition :: "condition_expr option"

record workflow_graph =
  graph_id :: string
  graph_version :: "64 word"
  graph_name :: string
  entry_node :: string
  graph_nodes :: "workflow_node list"
  graph_edges :: "workflow_edge list"

datatype graph_error =
    DuplicateNode string
  | MissingEntryNode string
  | MultipleEntry "string list"
  | DanglingEdge string string
  | SelfLoop string
  | Cycle "string list"
  | UnreachableNode string
  | EmptyGraph

definition new_graph :: "string \<Rightarrow> string \<Rightarrow> string \<Rightarrow> workflow_graph" where
  "new_graph gid name entry =
     \<lparr>graph_id = gid, graph_version = 1, graph_name = name, entry_node = entry,
      graph_nodes = [], graph_edges = []\<rparr>"

definition with_node :: "workflow_node \<Rightarrow> workflow_graph \<Rightarrow> workflow_graph" where
  "with_node n g = g\<lparr>graph_nodes := graph_nodes g @ [n]\<rparr>"

definition with_edge :: "workflow_edge \<Rightarrow> workflow_graph \<Rightarrow> workflow_graph" where
  "with_edge e g = g\<lparr>graph_edges := graph_edges g @ [e]\<rparr>"

section \<open>The validator\<close>

text \<open>First loop: collect the ids, stop at the first repeated one.\<close>

fun check_node_ids :: "workflow_node list \<Rightarrow> string list \<Rightarrow> graph_error + string list" where
  "check_node_ids [] ids = Ok ids"
| "check_node_ids (n # ns) ids =
     (if node_id n \<in> set ids then Err (DuplicateNode (node_id n))
      else check_node_ids ns (hs_insert (node_id n) ids))"

text \<open>Second loop: both ends known, no self-loop; push the target on the source's adjacency
  list. The \<open>HashMap\<close> of adjacency lists is an association list.\<close>

type_synonym adjacency = "(string \<times> string list) list"

fun adj_push :: "string \<Rightarrow> string \<Rightarrow> adjacency \<Rightarrow> adjacency" where
  "adj_push f t [] = [(f, [t])]"
| "adj_push f t ((k, ts) # m) = (if k = f then (k, ts @ [t]) # m else (k, ts) # adj_push f t m)"

fun check_edges :: "workflow_edge list \<Rightarrow> string list \<Rightarrow> adjacency \<Rightarrow> graph_error + adjacency" where
  "check_edges [] ids m = Ok m"
| "check_edges (e # es) ids m =
     (if edge_from e \<notin> set ids \<or> edge_to e \<notin> set ids
      then Err (DanglingEdge (edge_from e) (edge_to e))
      else if edge_from e = edge_to e then Err (SelfLoop (edge_from e))
      else check_edges es ids (adj_push (edge_from e) (edge_to e) m))"

definition nexts :: "adjacency \<Rightarrow> string \<Rightarrow> string list" where
  "nexts m x = (case map_of m x of Some ts \<Rightarrow> ts | None \<Rightarrow> [])"

definition adj_targets :: "adjacency \<Rightarrow> string set" where
  "adj_targets m = (\<Union>ts \<in> set (map snd m). set ts)"

lemma finite_adj_targets [simp]: "finite (adj_targets m)"
  by (simp add: adj_targets_def)

lemma nexts_subset_targets: "set (nexts m x) \<subseteq> adj_targets m"
proof (cases "map_of m x")
  case (Some ts)
  then have "ts \<in> set (map snd m)" by (force dest: map_of_SomeD)
  with Some show ?thesis by (auto simp: nexts_def adj_targets_def simp del: set_map)
qed (simp add: nexts_def)

text \<open>Third loop: reachability. The head of the list is the top of the \<open>Vec\<close> stack, so the
  successors, pushed in order, end up reversed on top.\<close>

function reach :: "adjacency \<Rightarrow> string list \<Rightarrow> string list \<Rightarrow> string list" where
  "reach m [] seen = seen"
| "reach m (x # stack) seen =
     (if x \<in> set seen then reach m stack seen
      else reach m (rev (nexts m x) @ stack) (hs_insert x seen))"
  by pat_completeness auto
termination
proof (relation "measures [\<lambda>(m, stack, seen). card ((set stack \<union> adj_targets m) - set seen),
    \<lambda>(m, stack, seen). length stack]", goal_cases)
  case 1
  show ?case by simp
next
  case (2 m x stack seen)
  then have "(set (x # stack) \<union> adj_targets m) - set seen = (set stack \<union> adj_targets m) - set seen"
    by auto
  then show ?case by simp
next
  case (3 m x stack seen)
  then have "(set (rev (nexts m x) @ stack) \<union> adj_targets m) - set (hs_insert x seen)
    \<subset> (set (x # stack) \<union> adj_targets m) - set seen"
    using nexts_subset_targets [of m x] by auto
  then show ?case by (simp add: psubset_card_mono del: set_hs_insert)
qed

text \<open>Fourth loop: depth-first search with colours 0 (visiting) and 1 (done). The stack holds
  (id, processed) pairs; an id met while it is still being visited is a cycle.\<close>

type_synonym colouring = "string \<Rightarrow> 8 word option"

function dfs :: "adjacency \<Rightarrow> (string \<times> bool) list \<Rightarrow> colouring \<Rightarrow> colouring option" where
  "dfs m [] col = Some col"
| "dfs m ((x, True) # stack) col = dfs m stack (col(x := Some 1))"
| "dfs m ((x, False) # stack) col =
     (if col x = Some 1 then dfs m stack col
      else if col x = Some 0 then None
      else dfs m (map (\<lambda>n. (n, False)) (rev (nexts m x)) @ (x, True) # stack) (col(x := Some 0)))"
  by pat_completeness auto
termination
proof (relation "measures
    [\<lambda>(m, stack, col). card ((fst ` set stack \<union> adj_targets m) - {x. col x = Some 0 \<or> col x = Some 1}),
     \<lambda>(m, stack, col). length stack]", goal_cases)
  case 1
  show ?case by simp
next
  case (2 m x stack col)
  have "card ((fst ` set stack \<union> adj_targets m) - {y. (col(x := Some 1)) y = Some 0 \<or> (col(x := Some 1)) y = Some 1})
    \<le> card ((fst ` set ((x, True) # stack) \<union> adj_targets m) - {y. col y = Some 0 \<or> col y = Some 1})"
    by (rule card_mono) auto
  then show ?case by (simp add: le_less)
next
  case (3 m x stack col)
  have "card ((fst ` set stack \<union> adj_targets m) - {y. col y = Some 0 \<or> col y = Some 1})
    \<le> card ((fst ` set ((x, False) # stack) \<union> adj_targets m) - {y. col y = Some 0 \<or> col y = Some 1})"
    by (rule card_mono) auto
  then show ?case by (simp add: le_less)
next
  case (4 m x stack col)
  let ?st = "map (\<lambda>n. (n, False)) (rev (nexts m x)) @ (x, True) # stack"
  have "fst ` set ?st = insert x (set (nexts m x) \<union> fst ` set stack)"
    by (simp add: image_Un image_image)
  with 4 nexts_subset_targets [of m x]
  have "(fst ` set ?st \<union> adj_targets m) - {y. (col(x := Some 0)) y = Some 0 \<or> (col(x := Some 0)) y = Some 1}
    \<subset> (fst ` set ((x, False) # stack) \<union> adj_targets m) - {y. col y = Some 0 \<or> col y = Some 1}"
    by auto
  then have "card ((fst ` set ?st \<union> adj_targets m) - {y. (col(x := Some 0)) y = Some 0 \<or> (col(x := Some 0)) y = Some 1})
    < card ((fst ` set ((x, False) # stack) \<union> adj_targets m) - {y. col y = Some 0 \<or> col y = Some 1})"
    by (intro psubset_card_mono) auto
  then show ?case by simp
qed

text \<open>The outer \<open>for start in node_ids\<close>: the colours are kept between the starts.\<close>

fun dfs_all :: "adjacency \<Rightarrow> string list \<Rightarrow> colouring \<Rightarrow> colouring option" where
  "dfs_all m [] col = Some col"
| "dfs_all m (x # xs) col =
     (case dfs m [(x, False)] col of None \<Rightarrow> None | Some col' \<Rightarrow> dfs_all m xs col')"

definition validate :: "workflow_graph \<Rightarrow> graph_error + unit" where
  "validate g =
     (if graph_nodes g = [] then Err EmptyGraph
      else case check_node_ids (graph_nodes g) [] of
        Inl e \<Rightarrow> Err e
      | Inr ids \<Rightarrow>
          if entry_node g \<notin> set ids then Err (MissingEntryNode (entry_node g))
          else case check_edges (graph_edges g) ids [] of
            Inl e \<Rightarrow> Err e
          | Inr m \<Rightarrow>
              let reachable = reach m [entry_node g] []
              in case find (\<lambda>n. node_id n \<notin> set reachable) (graph_nodes g) of
                Some n \<Rightarrow> Err (UnreachableNode (node_id n))
              | None \<Rightarrow>
                  (case dfs_all m (map node_id (graph_nodes g)) Map.empty of
                    None \<Rightarrow> Err (Cycle reachable)
                  | Some _ \<Rightarrow> Ok ()))"

section \<open>What a valid graph is\<close>

definition node_ids :: "workflow_graph \<Rightarrow> string set" where
  "node_ids g = node_id ` set (graph_nodes g)"

definition edge_rel :: "workflow_graph \<Rightarrow> (string \<times> string) set" where
  "edge_rel g = (\<lambda>e. (edge_from e, edge_to e)) ` set (graph_edges g)"

definition valid_dag :: "workflow_graph \<Rightarrow> bool" where
  "valid_dag g \<longleftrightarrow>
     distinct (map node_id (graph_nodes g))
     \<and> entry_node g \<in> node_ids g
     \<and> edge_rel g \<subseteq> node_ids g \<times> node_ids g
     \<and> (\<forall>x \<in> node_ids g. (entry_node g, x) \<in> (edge_rel g)\<^sup>*)
     \<and> acyclic (edge_rel g)"

section \<open>Node ids and edges\<close>

lemma check_node_ids_Ok:
  "check_node_ids ns ids = Ok r \<longleftrightarrow>
    distinct (map node_id ns) \<and> node_id ` set ns \<inter> set ids = {} \<and> r = ids @ map node_id ns"
  by (induction ns arbitrary: ids) (auto simp: hs_insert_def)

lemma check_node_ids_Err: "check_node_ids ns ids = Err e \<Longrightarrow> \<exists>x. e = DuplicateNode x"
  by (induction ns arbitrary: ids) (auto split: if_splits)

lemma find_SomeD: "find P xs = Some x \<Longrightarrow> x \<in> set xs \<and> P x"
  by (auto simp: find_Some_iff)

lemma nexts_adj_push:
  "nexts (adj_push f t m) x = (if x = f then nexts m x @ [t] else nexts m x)"
  by (induction f t m rule: adj_push.induct) (auto simp: nexts_def split: option.splits)

lemma check_edges_Ok_iff:
  "is_ok (check_edges es ids m) \<longleftrightarrow>
    (\<forall>e \<in> set es. edge_from e \<in> set ids \<and> edge_to e \<in> set ids \<and> edge_from e \<noteq> edge_to e)"
  by (induction es arbitrary: m) auto

lemma check_edges_nexts:
  "check_edges es ids m = Ok r \<Longrightarrow>
    nexts r x = nexts m x @ map edge_to (filter (\<lambda>e. edge_from e = x) es)"
  by (induction es arbitrary: m) (auto simp: nexts_adj_push split: if_splits)

lemma check_edges_Err:
  "check_edges es ids m = Err err \<Longrightarrow> \<exists>e \<in> set es.
    (err = DanglingEdge (edge_from e) (edge_to e) \<and> (edge_from e \<notin> set ids \<or> edge_to e \<notin> set ids))
    \<or> (err = SelfLoop (edge_from e) \<and> edge_from e = edge_to e)"
  by (induction es arbitrary: m) (auto split: if_splits)

definition adj_rel :: "adjacency \<Rightarrow> (string \<times> string) set" where
  "adj_rel m = {(x, y). y \<in> set (nexts m x)}"

lemma check_edges_adj_rel:
  "check_edges (graph_edges g) ids [] = Ok m \<Longrightarrow> adj_rel m = edge_rel g"
  by (force simp: adj_rel_def edge_rel_def check_edges_nexts nexts_def [of "[]"])

section \<open>Reachability\<close>

text \<open>Every id seen so far is reachable, every id pending is reachable, and a seen id's
  successors are seen or pending.\<close>

lemma reach_sound:
  "set stack \<union> set seen \<subseteq> {y. (a, y) \<in> (adj_rel m)\<^sup>*} \<Longrightarrow>
    set (reach m stack seen) \<subseteq> {y. (a, y) \<in> (adj_rel m)\<^sup>*}"
proof (induction m stack seen rule: reach.induct)
  case (2 m x stack seen)
  have "set (nexts m x) \<subseteq> {y. (a, y) \<in> (adj_rel m)\<^sup>*}"
    using "2.prems" by (auto simp: adj_rel_def intro: rtrancl_into_rtrancl)
  with 2 show ?case by auto
qed simp

lemma reach_closed:
  "(\<forall>x \<in> set seen. set (nexts m x) \<subseteq> set seen \<union> set stack) \<Longrightarrow>
    set stack \<union> set seen \<subseteq> set (reach m stack seen)
    \<and> (\<forall>x \<in> set (reach m stack seen). set (nexts m x) \<subseteq> set (reach m stack seen))"
proof (induction m stack seen rule: reach.induct)
  case (1 m seen)
  then show ?case by auto
next
  case (2 m x stack seen)
  show ?case
  proof (cases "x \<in> set seen")
    case True
    then have "\<forall>y \<in> set seen. set (nexts m y) \<subseteq> set seen \<union> set stack"
      using "2.prems" by auto
    with 2 True show ?thesis by auto
  next
    case False
    let ?st = "rev (nexts m x) @ stack" and ?seen = "hs_insert x seen"
    have "\<forall>y \<in> set ?seen. set (nexts m y) \<subseteq> set ?seen \<union> set ?st"
      using "2.prems" by auto
    from "2.IH"(2) [OF False this] have
      "set ?st \<union> set ?seen \<subseteq> set (reach m ?st ?seen)"
      "\<forall>y \<in> set (reach m ?st ?seen). set (nexts m y) \<subseteq> set (reach m ?st ?seen)"
      by auto
    with False show ?thesis by auto
  qed
qed

lemma set_reach: "set (reach m [a] []) = {y. (a, y) \<in> (adj_rel m)\<^sup>*}"
proof
  show "set (reach m [a] []) \<subseteq> {y. (a, y) \<in> (adj_rel m)\<^sup>*}"
    by (rule reach_sound) simp
  have closed: "a \<in> set (reach m [a] [])"
    "\<forall>x \<in> set (reach m [a] []). set (nexts m x) \<subseteq> set (reach m [a] [])"
    using reach_closed [of "[]" m "[a]"] by auto
  have "y \<in> set (reach m [a] [])" if "(a, y) \<in> (adj_rel m)\<^sup>*" for y
    using that closed by (induction rule: rtrancl_induct) (auto simp: adj_rel_def)
  then show "{y. (a, y) \<in> (adj_rel m)\<^sup>*} \<subseteq> set (reach m [a] [])" by blast
qed

declare reach.simps [simp del]

section \<open>Cycle detection\<close>

text \<open>
  The invariants of the depth-first search. A node marked for finishing, \<open>(x, True)\<close>, has every
  successor done or pending above it; it reaches every node pending above it; a node being
  visited has such a mark on the stack; a done node has no infinite path, which is membership in
  the accessible part of the reversed edge relation.
\<close>

definition dfs_above :: "adjacency \<Rightarrow> (string \<times> bool) list \<Rightarrow> colouring \<Rightarrow> bool" where
  "dfs_above m stack col \<longleftrightarrow> (\<forall>up x down. stack = up @ (x, True) # down \<longrightarrow>
     (\<forall>y \<in> set (nexts m x). col y = Some 1 \<or> y \<in> fst ` set up)
     \<and> (\<forall>y \<in> fst ` set up. (x, y) \<in> (adj_rel m)\<^sup>+))"

definition dfs_inv :: "adjacency \<Rightarrow> (string \<times> bool) list \<Rightarrow> colouring \<Rightarrow> bool" where
  "dfs_inv m stack col \<longleftrightarrow>
     dfs_above m stack col
     \<and> (\<forall>x. col x = Some 0 \<longrightarrow> (x, True) \<in> set stack)
     \<and> (\<forall>x. col x = Some 1 \<longrightarrow> x \<in> Wellfounded.acc ((adj_rel m)\<inverse>))"

lemma dfs_above_pop:
  assumes "dfs_above m (e # stack) col" "\<forall>y. col y = Some 1 \<or> y = fst e \<longrightarrow> col' y = Some 1"
  shows "dfs_above m stack col'"
  unfolding dfs_above_def
proof (intro allI impI)
  fix up x down assume "stack = up @ (x, True) # down"
  then have "e # stack = (e # up) @ (x, True) # down" by simp
  with assms(1) have "\<forall>y \<in> set (nexts m x). col y = Some 1 \<or> y \<in> fst ` set (e # up)"
    and "\<forall>y \<in> fst ` set (e # up). (x, y) \<in> (adj_rel m)\<^sup>+"
    unfolding dfs_above_def by blast+
  with assms(2) show "(\<forall>y \<in> set (nexts m x). col' y = Some 1 \<or> y \<in> fst ` set up)
     \<and> (\<forall>y \<in> fst ` set up. (x, y) \<in> (adj_rel m)\<^sup>+)"
    by auto
qed

lemma dfs_inv_finish:
  assumes "dfs_inv m ((x, True) # stack) col"
  shows "dfs_inv m stack (col(x := Some 1))"
proof -
  have above: "dfs_above m ((x, True) # stack) col" and gray: "\<forall>y. col y = Some 0 \<longrightarrow> (y, True) \<in> set ((x, True) # stack)"
    and black: "\<forall>y. col y = Some 1 \<longrightarrow> y \<in> Wellfounded.acc ((adj_rel m)\<inverse>)"
    using assms unfolding dfs_inv_def by blast+
  have finished: "\<forall>y \<in> set (nexts m x). col y = Some 1"
    using above unfolding dfs_above_def by (metis append_Nil empty_iff image_empty list.set(1))
  have "x \<in> Wellfounded.acc ((adj_rel m)\<inverse>)"
    by (rule accI) (use black finished in \<open>auto simp: adj_rel_def\<close>)
  moreover have "dfs_above m stack (col(x := Some 1))"
    by (rule dfs_above_pop [OF above]) auto
  ultimately show ?thesis
    using gray black by (auto simp: dfs_inv_def)
qed

lemma dfs_inv_skip:
  assumes "dfs_inv m ((x, False) # stack) col" "col x = Some 1"
  shows "dfs_inv m stack col"
  using assms dfs_above_pop [of m "(x, False)" stack col col] by (auto simp: dfs_inv_def)

lemma dfs_inv_visit:
  assumes inv: "dfs_inv m ((x, False) # stack) col" and white: "col x \<noteq> Some 1" "col x \<noteq> Some 0"
  shows "dfs_inv m (map (\<lambda>n. (n, False)) (rev (nexts m x)) @ (x, True) # stack) (col(x := Some 0))"
proof -
  let ?new = "map (\<lambda>n. (n, False)) (rev (nexts m x))" and ?col = "col(x := Some 0)"
  have new: "fst ` set ?new = set (nexts m x)" by (auto simp: image_iff)
  have above: "dfs_above m ((x, False) # stack) col" using inv by (simp add: dfs_inv_def)
  have "dfs_above m (?new @ (x, True) # stack) ?col"
    unfolding dfs_above_def
  proof (intro allI impI)
    fix up y down assume split: "?new @ (x, True) # stack = up @ (y, True) # down"
    have no: "(y, True) \<notin> set ?new" by auto
    obtain us where us: "?new = up @ us \<and> us @ (x, True) # stack = (y, True) # down
        \<or> ?new @ us = up \<and> (x, True) # stack = us @ (y, True) # down"
      using append_eq_append_conv2 [THEN iffD1, OF split] by blast
    have "us = []" if "?new = up @ us" "us @ (x, True) # stack = (y, True) # down"
      using that no by (cases us) auto
    with us consider "up = ?new" "y = x" "down = stack"
      | up' where "up = ?new @ (x, True) # up'" "stack = up' @ (y, True) # down"
      by (cases us) fastforce+
    then show "(\<forall>z \<in> set (nexts m y). ?col z = Some 1 \<or> z \<in> fst ` set up)
       \<and> (\<forall>z \<in> fst ` set up. (y, z) \<in> (adj_rel m)\<^sup>+)"
    proof cases
      case 1
      with new show ?thesis by (auto simp: adj_rel_def)
    next
      case 2
      then have "(x, False) # stack = ((x, False) # up') @ (y, True) # down" by simp
      with above have a: "\<forall>z \<in> set (nexts m y). col z = Some 1 \<or> z \<in> fst ` set ((x, False) # up')"
        and b: "\<forall>z \<in> fst ` set ((x, False) # up'). (y, z) \<in> (adj_rel m)\<^sup>+"
        unfolding dfs_above_def by blast+
      from b have "(y, x) \<in> (adj_rel m)\<^sup>+" by simp
      then have "(y, z) \<in> (adj_rel m)\<^sup>+" if "z \<in> set (nexts m x)" for z
        using that by (auto simp: adj_rel_def intro: trancl_into_trancl)
      with a b white new 2(1) show ?thesis by auto
    qed
  qed
  then show ?thesis using inv white by (auto simp: dfs_inv_def)
qed

lemma dfs_Some_inv: "dfs m stack col = Some col' \<Longrightarrow> dfs_inv m stack col \<Longrightarrow> dfs_inv m [] col'"
proof (induction m stack col rule: dfs.induct)
  case (2 m x stack col)
  then show ?case by (simp add: dfs_inv_finish del: fun_upd_apply)
next
  case (3 m x stack col)
  then show ?case
    by (auto simp: dfs_inv_skip dfs_inv_visit simp del: fun_upd_apply split: if_splits)
qed simp

lemma dfs_Some_done:
  "dfs m stack col = Some col' \<Longrightarrow> {x. col x = Some 1} \<union> fst ` set stack \<subseteq> {x. col' x = Some 1}"
proof (induction m stack col rule: dfs.induct)
  case (2 m x stack col)
  then have "{y. (col(x := Some 1)) y = Some 1} \<union> fst ` set stack \<subseteq> {y. col' y = Some 1}"
    by (simp del: fun_upd_apply)
  then show ?case by auto
next
  case (3 m x stack col)
  show ?case
  proof (cases "col x = Some 1")
    case True
    with 3 show ?thesis by auto
  next
    case False
    with "3.prems" have white: "col x \<noteq> Some 0" by auto
    with False "3.prems" have "dfs m (map (\<lambda>n. (n, False)) (rev (nexts m x)) @ (x, True) # stack)
      (col(x := Some 0)) = Some col'" by simp
    from "3.IH"(2) [OF False white this] False white show ?thesis
      by (auto simp: image_Un split: if_splits)
  qed
qed simp

lemma dfs_None_cycle: "dfs m stack col = None \<Longrightarrow> dfs_inv m stack col \<Longrightarrow> \<not> acyclic (adj_rel m)"
proof (induction m stack col rule: dfs.induct)
  case (3 m x stack col)
  show ?case
  proof (cases "col x = Some 0")
    case True
    with "3.prems" have "(x, True) \<in> set stack" by (auto simp: dfs_inv_def)
    then obtain up down where "(x, False) # stack = ((x, False) # up) @ (x, True) # down"
      by (auto dest: split_list)
    with "3.prems"(2) have "\<forall>z \<in> fst ` set ((x, False) # up). (x, z) \<in> (adj_rel m)\<^sup>+"
      unfolding dfs_inv_def dfs_above_def by blast
    then show ?thesis by (auto simp: acyclic_def)
  next
    case False
    with 3 show ?thesis
      by (auto simp: dfs_inv_skip dfs_inv_visit simp del: fun_upd_apply split: if_splits)
  qed
next
  case (2 m x stack col)
  then show ?case by (simp add: dfs_inv_finish del: fun_upd_apply)
qed simp

lemma dfs_inv_start: "dfs_inv m [] col \<Longrightarrow> dfs_inv m [(x, False)] col"
  by (auto simp: dfs_inv_def dfs_above_def append_eq_Cons_conv Cons_eq_append_conv)

lemma dfs_all_Some:
  "dfs_all m xs col = Some col' \<Longrightarrow> dfs_inv m [] col \<Longrightarrow>
    dfs_inv m [] col' \<and> {x. col x = Some 1} \<union> set xs \<subseteq> {x. col' x = Some 1}"
proof (induction xs arbitrary: col)
  case (Cons x xs)
  then obtain c where c: "dfs m [(x, False)] col = Some c" "dfs_all m xs c = Some col'"
    by (auto split: option.splits)
  have "dfs_inv m [] c" using c(1) Cons.prems(2) by (blast intro: dfs_Some_inv dfs_inv_start)
  with Cons.IH c dfs_Some_done [OF c(1)] show ?case by fastforce
qed simp

lemma dfs_all_None: "dfs_all m xs col = None \<Longrightarrow> dfs_inv m [] col \<Longrightarrow> \<not> acyclic (adj_rel m)"
proof (induction xs arbitrary: col)
  case (Cons x xs)
  show ?case
  proof (cases "dfs m [(x, False)] col")
    case None
    from dfs_None_cycle [OF this dfs_inv_start [OF Cons.prems(2)]] show ?thesis .
  next
    case (Some c)
    with Cons.prems have "dfs_all m xs c = None" by simp
    moreover have "dfs_inv m [] c"
      using Some Cons.prems(2) by (blast intro: dfs_Some_inv dfs_inv_start)
    ultimately show ?thesis by (rule Cons.IH)
  qed
qed simp

lemma dfs_all_acyclic:
  assumes "adj_rel m \<subseteq> set xs \<times> UNIV"
  shows "(dfs_all m xs Map.empty = None) \<longleftrightarrow> \<not> acyclic (adj_rel m)"
proof
  have start: "dfs_inv m [] Map.empty" by (simp add: dfs_inv_def dfs_above_def)
  show "dfs_all m xs Map.empty = None \<Longrightarrow> \<not> acyclic (adj_rel m)"
    using start by (rule dfs_all_None [rotated])
  assume cyc: "\<not> acyclic (adj_rel m)"
  show "dfs_all m xs Map.empty = None"
  proof (rule ccontr)
    assume "dfs_all m xs Map.empty \<noteq> None"
    then obtain c where "dfs_all m xs Map.empty = Some c" by blast
    note fin = dfs_all_Some [OF this start]
    then have "set xs \<subseteq> {x. c x = Some 1}" by blast
    moreover from fin have "\<forall>x. c x = Some 1 \<longrightarrow> x \<in> Wellfounded.acc ((adj_rel m)\<inverse>)"
      unfolding dfs_inv_def by blast
    ultimately have acc: "\<forall>x \<in> set xs. x \<in> Wellfounded.acc ((adj_rel m)\<inverse>)" by blast
    have "x \<in> Wellfounded.acc ((adj_rel m)\<inverse>)" for x
    proof (cases "x \<in> set xs")
      case False
      with assms have "\<forall>y. (y, x) \<notin> (adj_rel m)\<inverse>" by blast
      then show ?thesis by (auto intro: accI [of x])
    qed (use acc in blast)
    then have "wf ((adj_rel m)\<inverse>)" by (rule acc_wfI [OF allI])
    then have "acyclic ((adj_rel m)\<inverse>)" by (rule wf_acyclic)
    with cyc show False by simp
  qed
qed

section \<open>The validator decides the specification\<close>

lemma find_None_ball: "find P xs = None \<longleftrightarrow> (\<forall>x \<in> set xs. \<not> P x)"
  by (auto simp: find_None_iff)

lemma validate_Ok_valid_dag: "validate g = Ok () \<longleftrightarrow> valid_dag g"
proof (cases "distinct (map node_id (graph_nodes g)) \<and> entry_node g \<in> node_ids g
    \<and> edge_rel g \<subseteq> node_ids g \<times> node_ids g \<and> (\<forall>e \<in> set (graph_edges g). edge_from e \<noteq> edge_to e)")
  case False
  then show ?thesis
  proof (cases "\<exists>e \<in> set (graph_edges g). edge_from e = edge_to e")
    case True
    then have "\<not> acyclic (edge_rel g)" by (force simp: acyclic_def edge_rel_def)
    moreover have "\<not> is_ok (check_edges (graph_edges g) ids [])" for ids
      using True by (auto simp: check_edges_Ok_iff)
    ultimately show ?thesis
      by (auto simp: validate_def valid_dag_def is_ok_iff Let_def split: sum.splits)
  next
    case no_loop: False
    show ?thesis
    proof (cases "edge_rel g \<subseteq> node_ids g \<times> node_ids g")
      case True
      with False no_loop show ?thesis
        by (auto simp: validate_def valid_dag_def node_ids_def check_node_ids_Ok Let_def split: sum.splits)
    next
      case False
      then have "\<not> is_ok (check_edges (graph_edges g) (map node_id (graph_nodes g)) [])"
        by (auto simp: check_edges_Ok_iff edge_rel_def node_ids_def)
      with False show ?thesis
        by (auto simp: validate_def valid_dag_def is_ok_iff check_node_ids_Ok Let_def split: sum.splits)
    qed
  qed
next
  case True
  let ?ids = "map node_id (graph_nodes g)"
  have ids: "check_node_ids (graph_nodes g) [] = Ok ?ids" using True by (simp add: check_node_ids_Ok)
  have "is_ok (check_edges (graph_edges g) ?ids [])"
    using True by (auto simp: check_edges_Ok_iff edge_rel_def node_ids_def)
  then obtain m where m: "check_edges (graph_edges g) ?ids [] = Ok m" by (auto simp: is_ok_iff)
  note rel = check_edges_adj_rel [OF m]
  have ne: "graph_nodes g \<noteq> []" using True by (auto simp: node_ids_def)
  have "adj_rel m \<subseteq> set ?ids \<times> UNIV" using True rel by (auto simp: node_ids_def)
  note acyc = dfs_all_acyclic [OF this]
  have "validate g = Ok () \<longleftrightarrow>
    (\<forall>n \<in> set (graph_nodes g). (entry_node g, node_id n) \<in> (adj_rel m)\<^sup>*) \<and> acyclic (adj_rel m)"
    using True ids m ne acyc
    by (auto simp: validate_def node_ids_def set_reach find_None_ball Let_def
        dest: find_SomeD split: option.splits)
  with True rel show ?thesis by (auto simp: valid_dag_def node_ids_def)
qed

lemma validate_Cycle_real:
  assumes "validate g = Err (Cycle path)"
  shows "\<not> acyclic (edge_rel g)"
proof -
  have "e \<noteq> Cycle path" if "check_node_ids (graph_nodes g) [] = Err e" for e
    using check_node_ids_Err [OF that] by auto
  moreover have "e \<noteq> Cycle path" if "check_edges (graph_edges g) ids [] = Err e" for e ids
    using check_edges_Err [OF that] by auto
  ultimately obtain ids m where ids: "check_node_ids (graph_nodes g) [] = Ok ids"
    and m: "check_edges (graph_edges g) ids [] = Ok m"
    and none: "dfs_all m (map node_id (graph_nodes g)) Map.empty = None"
    using assms by (auto simp: validate_def Let_def split: if_splits sum.splits option.splits)
  have "dfs_inv m [] Map.empty" by (simp add: dfs_inv_def dfs_above_def)
  from dfs_all_None [OF none this] check_edges_adj_rel [OF m] show ?thesis by simp
qed

lemma validate_Unreachable_real:
  assumes "validate g = Err (UnreachableNode x)"
  shows "x \<in> node_ids g" "(entry_node g, x) \<notin> (edge_rel g)\<^sup>*"
proof -
  have "e \<noteq> UnreachableNode x" if "check_node_ids (graph_nodes g) [] = Err e" for e
    using check_node_ids_Err [OF that] by auto
  moreover have "e \<noteq> UnreachableNode x" if "check_edges (graph_edges g) ids [] = Err e" for e ids
    using check_edges_Err [OF that] by auto
  ultimately obtain ids m n where m: "check_edges (graph_edges g) ids [] = Ok m"
    and n: "find (\<lambda>n. node_id n \<notin> set (reach m [entry_node g] [])) (graph_nodes g) = Some n"
    and x: "x = node_id n"
    using assms by (auto simp: validate_def Let_def split: if_splits sum.splits option.splits)
  from n have "n \<in> set (graph_nodes g)" "node_id n \<notin> set (reach m [entry_node g] [])"
    by (auto simp: find_Some_iff)
  with x check_edges_adj_rel [OF m] show "x \<in> node_ids g" "(entry_node g, x) \<notin> (edge_rel g)\<^sup>*"
    by (auto simp: node_ids_def set_reach)
qed

end
