(* ===== verification/WfEngine.thy ===== *)
theory WfEngine
  imports WfGraph
begin

text \<open>
  Execution semantics of Workflow 2.0 (\<open>launcher-workflow/src/engine.rs\<close>): the run-scoped
  variable store, the evaluation of a condition against it, and the wait-all join that computes
  which nodes are ready. \<open>serde_json\<close> is a parameter: the record \<open>serde\<close> carries the
  functions the crate calls.
\<close>

section \<open>The JSON library as a parameter\<close>

text \<open>\<open>Value::to_string\<close>, \<open>from_str::<Value>\<close>, and \<open>to_string\<close> / \<open>from_str\<close> at
  \<open>Vec<String>\<close>.\<close>

record serde =
  json_text :: "json \<Rightarrow> string"
  json_parse :: "string \<Rightarrow> json option"
  ids_text :: "string list \<Rightarrow> string"
  ids_parse :: "string \<Rightarrow> string list option"

section \<open>Variable store\<close>

record variable_store =
  vs_vars :: "(string \<times> json) list"

definition vs_empty :: variable_store where
  "vs_empty = \<lparr>vs_vars = []\<rparr>"

definition vs_set :: "string \<Rightarrow> json \<Rightarrow> variable_store \<Rightarrow> variable_store" where
  "vs_set name v s = s\<lparr>vs_vars := upsert fst (name, v) (vs_vars s)\<rparr>"

definition vs_get :: "variable_store \<Rightarrow> string \<Rightarrow> json option" where
  "vs_get s name = map_option snd (row_get fst (vs_vars s) name)"

definition vs_len :: "variable_store \<Rightarrow> nat" where
  "vs_len s = length (vs_vars s)"

definition vs_is_empty :: "variable_store \<Rightarrow> bool" where
  "vs_is_empty s \<longleftrightarrow> vs_vars s = []"

definition vs_snapshot :: "variable_store \<Rightarrow> json" where
  "vs_snapshot s = JObject (vs_vars s)"

definition vs_restore :: "json \<Rightarrow> variable_store \<Rightarrow> variable_store" where
  "vs_restore snap s = (case json_as_object snap of
     Some m \<Rightarrow> fold (\<lambda>(k, v). vs_set k v) m s
   | None \<Rightarrow> s)"

interpretation vars: keyed_store
  "\<lambda>s k. map_option (Pair k) (vs_get s k)" "\<lambda>p. vs_set (fst p) (snd p)" fst
proof
  fix v s k
  show "map_option (Pair k) (vs_get (vs_set (fst v) (snd v) s) k) =
      (if k = fst v then Some v else map_option (Pair k) (vs_get s k))"
    by (simp add: vs_get_def vs_set_def rows.get_put)
qed

lemma vs_get_set [simp]: "vs_get (vs_set n v s) k = (if k = n then Some v else vs_get s k)"
  by (simp add: vs_get_def vs_set_def rows.get_put)

lemma distinct_vs_set: "distinct (map fst (vs_vars s)) \<Longrightarrow> distinct (map fst (vs_vars (vs_set n v s)))"
  by (simp add: vs_set_def distinct_upsert)

text \<open>Restoring a snapshot into an empty store gives every variable back.\<close>

lemma vs_get_snapshot_restore:
  assumes "distinct (map fst (vs_vars s))"
  shows "vs_get (vs_restore (vs_snapshot s) vs_empty) k = vs_get s k"
proof -
  have put: "(\<lambda>(k, v). vs_set k v) = (\<lambda>p. vs_set (fst p) (snd p))" by auto
  have "map_option (Pair k) (vs_get (fold (\<lambda>p. vs_set (fst p) (snd p)) (vs_vars s) vs_empty) k)
    = find (\<lambda>p. fst p = k) (rev (vs_vars s))"
    unfolding vars.get_fold_put by (simp add: vs_get_def vs_empty_def row_get_def split: option.splits)
  also have "find (\<lambda>p. fst p = k) (rev (vs_vars s)) = find (\<lambda>p. fst p = k) (vs_vars s)"
    using assms by (rule find_rev_distinct)
  finally have "map_option (Pair k) (vs_get (fold (\<lambda>p. vs_set (fst p) (snd p)) (vs_vars s) vs_empty) k)
    = map_option (Pair k) (vs_get s k)"
    by (cases "row_get fst (vs_vars s) k")
      (auto simp: vs_get_def row_get_def dest: row_get_key [unfolded row_get_def])
  then have "vs_get (fold (\<lambda>p. vs_set (fst p) (snd p)) (vs_vars s) vs_empty) k = vs_get s k"
    by (auto simp: map_option_case split: option.splits)
  then show ?thesis by (simp add: vs_restore_def vs_snapshot_def put)
qed

section \<open>Conditions\<close>

text \<open>An operand \<open>$name\<close> reads the variable (a missing one is \<open>Null\<close>); any other operand is
  itself, a JSON string.\<close>

definition resolve_operand :: "variable_store \<Rightarrow> string \<Rightarrow> json" where
  "resolve_operand vars operand = (case strip_prefix operand ''$'' of
     Some name \<Rightarrow> (case vs_get vars name of Some v \<Rightarrow> v | None \<Rightarrow> JNull)
   | None \<Rightarrow> JString operand)"

fun num_compare :: "condition_op \<Rightarrow> f64 \<Rightarrow> f64 \<Rightarrow> bool" where
  "num_compare OpEq l r = f64_eq l r"
| "num_compare OpNe l r = (\<not> f64_eq l r)"
| "num_compare OpGt l r = f64_lt r l"
| "num_compare OpLt l r = f64_lt l r"

fun str_compare :: "condition_op \<Rightarrow> string \<Rightarrow> string \<Rightarrow> bool" where
  "str_compare OpEq l r = (l = r)"
| "str_compare OpNe l r = (l \<noteq> r)"
| "str_compare OpGt l r = (r < l)"
| "str_compare OpLt l r = (l < r)"

definition operand_text :: "serde \<Rightarrow> json \<Rightarrow> string" where
  "operand_text J v = (case v of JString s \<Rightarrow> s | _ \<Rightarrow> json_text J v)"

definition evaluate :: "serde \<Rightarrow> condition_expr \<Rightarrow> variable_store \<Rightarrow> bool" where
  "evaluate J c vars =
     (let left = resolve_operand vars (ce_left c); right = resolve_operand vars (ce_right c)
      in if json_is_null left \<or> json_is_null right then False
         else case (json_as_f64 left, json_as_f64 right) of
           (Some l, Some r) \<Rightarrow> num_compare (ce_op c) l r
         | _ \<Rightarrow> str_compare (ce_op c) (operand_text J left) (operand_text J right))"

lemma resolve_missing:
  "strip_prefix o1 ''$'' = Some x \<Longrightarrow> vs_get vars x = None \<Longrightarrow> resolve_operand vars o1 = JNull"
  by (simp add: resolve_operand_def)

lemma evaluate_null:
  "resolve_operand vars (ce_left c) = JNull \<or> resolve_operand vars (ce_right c) = JNull \<Longrightarrow>
    \<not> evaluate J c vars"
  by (auto simp: evaluate_def json_is_null_def)

lemma evaluate_numbers:
  "resolve_operand vars (ce_left c) = JNumber l \<Longrightarrow> resolve_operand vars (ce_right c) = JNumber r \<Longrightarrow>
    evaluate J c vars = num_compare (ce_op c) (number_as_f64 l) (number_as_f64 r)"
  by (simp add: evaluate_def json_is_null_def)

section \<open>Joins\<close>

datatype join_policy = WaitAll

text \<open>
  One node of the loop in \<open>ready_nodes\<close>: not done yet and either the entry node without
  incoming edges or a node whose incoming edges all start at done nodes. (The condition test
  inside the loop has an empty body.)
\<close>

definition node_ready :: "workflow_graph \<Rightarrow> string list \<Rightarrow> string list \<Rightarrow> workflow_node \<Rightarrow> bool" where
  "node_ready g finished skipped n =
     (let incoming = filter (\<lambda>e. edge_to e = node_id n) (graph_edges g)
      in if node_id n \<in> set finished \<or> node_id n \<in> set skipped then False
         else if incoming = [] then entry_node g = node_id n
         else list_all (\<lambda>e. edge_from e \<in> set finished \<or> edge_from e \<in> set skipped) incoming)"

definition ready_nodes :: "workflow_graph \<Rightarrow> string list \<Rightarrow> string list \<Rightarrow> string list" where
  "ready_nodes g finished skipped =
     sort (map node_id (filter (node_ready g finished skipped) (graph_nodes g)))"

definition preds :: "workflow_graph \<Rightarrow> string \<Rightarrow> string set" where
  "preds g x = {y. (y, x) \<in> edge_rel g}"

lemma node_ready_not_done:
  "node_ready g f s n \<Longrightarrow> node_id n \<notin> set f \<and> node_id n \<notin> set s"
  by (auto simp: node_ready_def Let_def split: if_splits)

lemma node_ready_preds: "node_ready g f s n \<Longrightarrow> preds g (node_id n) \<subseteq> set f \<union> set s"
  by (auto simp: node_ready_def preds_def edge_rel_def Let_def list_all_iff filter_empty_conv split: if_splits)

lemma node_readyI:
  assumes "node_id n \<notin> set f" "node_id n \<notin> set s" "preds g (node_id n) \<subseteq> set f \<union> set s"
    "preds g (node_id n) = {} \<Longrightarrow> entry_node g = node_id n"
  shows "node_ready g f s n"
proof (cases "filter (\<lambda>e. edge_to e = node_id n) (graph_edges g) = []")
  case True
  then have "preds g (node_id n) = {}" by (auto simp: preds_def edge_rel_def filter_empty_conv)
  with assms True show ?thesis by (simp add: node_ready_def)
next
  case False
  have "\<forall>e \<in> set (graph_edges g). edge_to e = node_id n \<longrightarrow> edge_from e \<in> set f \<or> edge_from e \<in> set s"
  proof (intro ballI impI)
    fix e assume e: "e \<in> set (graph_edges g)" "edge_to e = node_id n"
    then have "(edge_from e, node_id n) \<in> edge_rel g" unfolding edge_rel_def by force
    then show "edge_from e \<in> set f \<or> edge_from e \<in> set s"
      using assms(3) by (auto simp: preds_def)
  qed
  with False assms(1,2) show ?thesis
    by (simp add: node_ready_def list_all_iff)
qed

lemma set_ready_nodes: "set (ready_nodes g f s) = node_id ` {n \<in> set (graph_nodes g). node_ready g f s n}"
  by (auto simp: ready_nodes_def)

text \<open>In a valid graph something is ready as long as something is left: a node that is minimal
  among the ones left.\<close>

lemma valid_dag_entry_no_preds:
  assumes "valid_dag g" "x \<in> node_ids g"
  shows "preds g x = {} \<longleftrightarrow> x = entry_node g"
proof
  assume none: "preds g x = {}"
  have "(entry_node g, x) \<in> (edge_rel g)\<^sup>*" using assms by (simp add: valid_dag_def)
  then show "x = entry_node g" using none by (cases rule: rtranclE) (auto simp: preds_def)
next
  assume x: "x = entry_node g"
  show "preds g x = {}"
  proof (rule ccontr)
    assume "preds g x \<noteq> {}"
    then obtain y where y: "(y, x) \<in> edge_rel g" by (auto simp: preds_def)
    with assms have "y \<in> node_ids g" by (auto simp: valid_dag_def)
    with assms(1) x y have "(x, x) \<in> (edge_rel g)\<^sup>+"
      by (auto simp: valid_dag_def intro: rtrancl_into_trancl1)
    with assms(1) show False by (simp add: valid_dag_def acyclic_def)
  qed
qed

lemma valid_dag_progress:
  assumes dag: "valid_dag g" and left: "\<exists>x \<in> node_ids g. x \<notin> set f \<and> x \<notin> set s"
  shows "ready_nodes g f s \<noteq> []"
proof -
  let ?A = "{x \<in> node_ids g. x \<notin> set f \<and> x \<notin> set s}"
  have "finite (edge_rel g)" by (simp add: edge_rel_def)
  with dag have "wf (edge_rel g)" by (simp add: valid_dag_def finite_acyclic_wf)
  moreover from left obtain z where "z \<in> ?A" by blast
  ultimately obtain x where x: "x \<in> ?A" and min: "\<And>y. (y, x) \<in> edge_rel g \<Longrightarrow> y \<notin> ?A"
    by (rule wfE_min) blast
  from x obtain n where n: "n \<in> set (graph_nodes g)" "node_id n = x" by (auto simp: node_ids_def)
  have "preds g x \<subseteq> set f \<union> set s"
    using min dag by (auto simp: preds_def valid_dag_def)
  then have "node_ready g f s n"
    using x n valid_dag_entry_no_preds [OF dag] by (intro node_readyI) auto
  with n have "set (ready_nodes g f s) \<noteq> {}" by (auto simp: set_ready_nodes)
  then show ?thesis by auto
qed

end
