(* ===== verification/AiPrompt.thy ===== *)
theory AiPrompt
  imports AiContract WfEngine
begin

text \<open>
  From the user's words to a prompt and a proposal: the request parser
  (\<open>launcher-ai/src/intent.rs\<close>), the clarification policy (\<open>clarification.rs\<close>), the proposal
  builders (\<open>proposal_builder.rs\<close>, \<open>workflow_proposal.rs\<close>), the sanitizers and prompt assembly
  (\<open>prompt.rs\<close>, \<open>privacy.rs\<close>) and the context builder (\<open>context_builder.rs\<close>). Unicode lower-casing
  (\<open>str::to_lowercase\<close>, a table of the standard library) is the argument \<open>lower\<close>.
\<close>

section \<open>Replacing text\<close>

text \<open>\<open>s.replace(p, r)\<close>: leftmost matches, without overlap. Patterns are never empty here.\<close>

function replace_str :: "string \<Rightarrow> string \<Rightarrow> string \<Rightarrow> string" where
  "replace_str p r s =
     (if p = [] \<or> s = [] then s
      else if starts_with s p then r @ replace_str p r (drop (length p) s)
      else hd s # replace_str p r (tl s))"
  by pat_completeness auto
termination
  by (relation "measure (\<lambda>(p, r, s). length s)") (auto simp: neq_Nil_conv)

declare replace_str.simps [simp del]

lemma replace_Nil [simp]: "replace_str p r [] = []"
  by (simp add: replace_str.simps)

lemma replace_match:
  "p \<noteq> [] \<Longrightarrow> s \<noteq> [] \<Longrightarrow> starts_with s p \<Longrightarrow> replace_str p r s = r @ replace_str p r (drop (length p) s)"
  by (simp add: replace_str.simps [of p r s])

lemma replace_skip: "\<not> starts_with (c # s) p \<Longrightarrow> replace_str p r (c # s) = c # replace_str p r s"
  by (auto simp: replace_str.simps [of p r "c # s"])

text \<open>When a replacement cannot take part in an occurrence of \<open>q\<close>: no end of \<open>q\<close> begins where
  \<open>r\<close> begins, and \<open>q\<close> does not begin inside \<open>r\<close>.\<close>

locale inert_replacement =
  fixes p r q :: string
  assumes p_ne: "p \<noteq> []"
    and no_overlap: "q = u @ v \<Longrightarrow> v \<noteq> [] \<Longrightarrow> \<not> starts_with (r @ t) v"
    and no_inside: "r = r1 @ r2 \<Longrightarrow> r2 \<noteq> [] \<Longrightarrow> \<not> starts_with (r2 @ t) q"
begin

lemma starts_with_replaced:
  "q = u @ v \<Longrightarrow> starts_with (replace_str p r s) v \<Longrightarrow> starts_with s v"
proof (induction s arbitrary: u v rule: measure_induct_rule [of length])
  case (less s)
  consider "s = [] \<or> v = []" | "s \<noteq> []" "v \<noteq> []" "starts_with s p" | "s \<noteq> []" "v \<noteq> []" "\<not> starts_with s p" by blast
  then show ?case
  proof cases
    case 1
    then show ?thesis using less.prems(2) by auto
  next
    case 2
    then show ?thesis
      using less.prems no_overlap [OF less.prems(1)] p_ne by (simp add: replace_match)
  next
    case 3
    then obtain c s' x v' where s: "s = c # s'" "v = x # v'" by (meson neq_Nil_conv)
    with 3 less.prems(2) have "x = c" "starts_with (replace_str p r s') v'"
      by (auto simp: replace_skip)
    with less.IH [of s' "u @ [x]" v'] less.prems(1) s show ?thesis by simp
  qed
qed

lemma contains_after: "r = r1 @ r2 \<Longrightarrow> contains_str (r2 @ t) q \<Longrightarrow> contains_str t q"
proof (induction r2 arbitrary: r1)
  case (Cons c r2)
  have "\<not> starts_with ((c # r2) @ t) q" using Cons.prems(1) by (rule no_inside) simp
  with Cons.prems(2) have "contains_str (r2 @ t) q" by simp
  with Cons.IH [of "r1 @ [c]"] Cons.prems(1) show ?case by simp
qed simp

lemma contains_drop: "contains_str (drop n s) q \<Longrightarrow> contains_str s q"
  by (metis append.assoc append_take_drop_id contains_str_iff)

lemma contains_replaced: "contains_str (replace_str p r s) q \<Longrightarrow> contains_str s q"
proof (induction s rule: measure_induct_rule [of length])
  case (less s)
  consider "s = []" | "s \<noteq> []" "starts_with s p" | "s \<noteq> []" "\<not> starts_with s p" by blast
  then show ?case
  proof cases
    case 1
    then show ?thesis using less.prems by simp
  next
    case 2
    with less.prems p_ne have "contains_str (r @ replace_str p r (drop (length p) s)) q"
      by (simp add: replace_match)
    then have "contains_str (replace_str p r (drop (length p) s)) q" by (rule contains_after [of "[]" r, simplified])
    with less.IH [of "drop (length p) s"] 2 p_ne show ?thesis by (auto intro: contains_drop)
  next
    case 3
    then obtain c s' where s: "s = c # s'" by (meson neq_Nil_conv)
    have eq: "replace_str p r s = c # replace_str p r s'" using 3 s by (simp add: replace_skip)
    show ?thesis
    proof (cases "starts_with (replace_str p r s) q")
      case True
      then have "starts_with s q" by (rule starts_with_replaced [of "[]" q, simplified])
      then show ?thesis using s by (cases s) auto
    next
      case False
      with less.prems eq have "contains_str (replace_str p r s') q" by simp
      with less.IH [of s'] s show ?thesis by simp
    qed
  qed
qed

lemma replaced_gone: "p = q \<Longrightarrow> \<not> contains_str (replace_str p r s) p"
proof (induction s rule: measure_induct_rule [of length])
  case (less s)
  show ?case
  proof
    assume c: "contains_str (replace_str p r s) p"
    consider "s = []" | "s \<noteq> []" "starts_with s p" | "s \<noteq> []" "\<not> starts_with s p" by blast
    then show False
    proof cases
      case 1
      then show False using c p_ne by simp
    next
      case 2
      have "replace_str p r s = r @ replace_str p r (drop (length p) s)" by (rule replace_match [OF p_ne 2])
      then have "contains_str (r @ replace_str p r (drop (length p) s)) p" using c by (simp only:)
      then have "contains_str (r @ replace_str p r (drop (length p) s)) q" using less.prems by simp
      then have "contains_str (replace_str p r (drop (length p) s)) q" by (rule contains_after [of "[]" r, simplified])
      with less.IH [of "drop (length p) s"] less.prems 2 p_ne show False by auto
    next
      case 3
      then obtain d s' where s: "s = d # s'" by (meson neq_Nil_conv)
      have eq: "replace_str p r s = d # replace_str p r s'" using 3 s by (simp add: replace_skip)
      have "\<not> starts_with (replace_str p r s) p"
        using starts_with_replaced [of "[]" p s] less.prems 3(2) by auto
      with c eq have "contains_str (replace_str p r s') p" by simp
      with less.IH [of s'] less.prems s show False by simp
    qed
  qed
qed

end

text \<open>Putting a new character \<open>b\<close> before the closing character \<open>c\<close> of a marker is inert for every
  marker that closes with \<open>c\<close> and holds no \<open>b\<close>.\<close>

lemma inert_marker:
  assumes "b \<noteq> c" "b \<notin> set w" "c \<notin> set w" "b \<notin> set w'" "c \<notin> set w'" "w' \<noteq> []"
  shows "inert_replacement (w @ [c]) (w @ [b, c]) (w' @ [c])"
proof
  show "w @ [c] \<noteq> []" by simp
next
  fix u v t assume q: "w' @ [c] = u @ v" and v: "v \<noteq> []"
  then obtain v' where v': "v = v' @ [c]" "w' = u @ v'"
    by (metis append_butlast_last_id butlast_append last_appendR last_snoc butlast_snoc)
  have "\<not> starts_with (x @ [b, c] @ t) (y @ [c])" if "b \<notin> set y" "c \<notin> set y" "c \<notin> set x" for x y
    using that assms(1)
  proof (induction x arbitrary: y)
    case Nil
    then show ?case by (cases y) auto
  next
    case (Cons d x)
    then show ?case by (cases y) auto
  qed
  from this [of v' w] show "\<not> starts_with ((w @ [b, c]) @ t) v" using v' assms by auto
next
  fix r1 r2 t assume r: "w @ [b, c] = r1 @ r2" and r2: "r2 \<noteq> []"
  show "\<not> starts_with (r2 @ t) (w' @ [c])"
  proof (cases "r2 = [c]")
    case True
    then show ?thesis using assms(5,6) by (cases w') auto
  next
    case False
    obtain x where x: "r2 = x @ [b, c]" "w = r1 @ x"
    proof -
      from r obtain us where "w = r1 @ us \<and> us @ [b, c] = r2 \<or> w @ us = r1 \<and> [b, c] = us @ r2"
        unfolding append_eq_append_conv2 by auto
      then show thesis
      proof
        assume "w @ us = r1 \<and> [b, c] = us @ r2"
        with False r2 show thesis by (cases us; cases "tl us") (auto intro: that [of "[]"])
      qed (auto intro: that)
    qed
    have "\<not> starts_with (x @ [b, c] @ t) (y @ [c])" if "b \<notin> set y" "c \<notin> set x" for y
      using that assms(1) x
    proof (induction x arbitrary: y r1 r2 w)
      case Nil
      then show ?case by (cases y) auto
    next
      case (Cons d x)
      then show ?case by (cases y) auto
    qed
    then show ?thesis using x assms by auto
  qed
qed

lemma inert_fence: "inert_replacement (replicate 3 b) (replicate 3 c) (replicate 3 b)" if "b \<noteq> c"
proof
  fix u v t assume "replicate 3 b = u @ v" "v \<noteq> []"
  then have "set v \<subseteq> set (replicate 3 b)" by simp
  then have "set v \<subseteq> {b}" by (simp add: set_replicate_conv_if)
  with \<open>v \<noteq> []\<close> have "hd v = b" by (cases v) auto
  with \<open>v \<noteq> []\<close> that show "\<not> starts_with (replicate 3 c @ t) v"
    by (cases v) (auto simp: numeral_3_eq_3)
next
  fix r1 r2 t assume "replicate 3 c = r1 @ r2" "r2 \<noteq> []"
  then have "set r2 \<subseteq> set (replicate 3 c)" by simp
  then have "set r2 \<subseteq> {c}" by (simp add: set_replicate_conv_if)
  with \<open>r2 \<noteq> []\<close> have "hd r2 = c" by (cases r2) auto
  with \<open>r2 \<noteq> []\<close> that show "\<not> starts_with (r2 @ t) (replicate 3 b)"
    by (cases r2) (auto simp: numeral_3_eq_3)
qed simp

section \<open>Sanitizers\<close>

text \<open>\<open>prompt.rs\<close>: drop control characters and break the role markers.\<close>

definition sanitize_prompt :: "string \<Rightarrow> string" where
  "sanitize_prompt text =
     (let no_ctrl = concat (filter (\<lambda>c. \<not> is_control c) (utf8_chars text));
          s1 = replace_str ''system:'' (''system'' @ [CHR 0x5C] @ '':'') no_ctrl;
          s2 = replace_str ''user:'' (''user'' @ [CHR 0x5C] @ '':'') s1
      in replace_str ''assistant:'' (''assistant'' @ [CHR 0x5C] @ '':'') s2)"

interpretation system_marker: inert_replacement "''system:''" "''system'' @ [CHR 0x5C] @ '':''" "''system:''"
  using inert_marker [of "CHR 0x5C" "CHR '':''" "''system''" "''system''"] by simp

interpretation user_marker: inert_replacement "''user:''" "''user'' @ [CHR 0x5C] @ '':''" "''user:''"
  using inert_marker [of "CHR 0x5C" "CHR '':''" "''user''" "''user''"] by simp

interpretation user_system: inert_replacement "''user:''" "''user'' @ [CHR 0x5C] @ '':''" "''system:''"
  using inert_marker [of "CHR 0x5C" "CHR '':''" "''user''" "''system''"] by simp

interpretation assistant_marker: inert_replacement "''assistant:''" "''assistant'' @ [CHR 0x5C] @ '':''" "''assistant:''"
  using inert_marker [of "CHR 0x5C" "CHR '':''" "''assistant''" "''assistant''"] by simp

interpretation assistant_system: inert_replacement "''assistant:''" "''assistant'' @ [CHR 0x5C] @ '':''" "''system:''"
  using inert_marker [of "CHR 0x5C" "CHR '':''" "''assistant''" "''system''"] by simp

interpretation assistant_user: inert_replacement "''assistant:''" "''assistant'' @ [CHR 0x5C] @ '':''" "''user:''"
  using inert_marker [of "CHR 0x5C" "CHR '':''" "''assistant''" "''user''"] by simp

lemma sanitize_prompt_no_role:
  assumes "m \<in> {''system:'', ''user:'', ''assistant:''}"
  shows "\<not> contains_str (sanitize_prompt text) m"
proof -
  let ?s0 = "concat (filter (\<lambda>c. \<not> is_control c) (utf8_chars text))"
  let ?s1 = "replace_str ''system:'' (''system'' @ [CHR 0x5C] @ '':'') ?s0"
  let ?s2 = "replace_str ''user:'' (''user'' @ [CHR 0x5C] @ '':'') ?s1"
  have eq: "sanitize_prompt text = replace_str ''assistant:'' (''assistant'' @ [CHR 0x5C] @ '':'') ?s2"
    by (simp only: sanitize_prompt_def Let_def)
  have sys: "\<not> contains_str ?s1 ''system:''" by (rule system_marker.replaced_gone [OF refl])
  have "\<not> contains_str ?s2 ''system:''" using user_system.contains_replaced [of ?s1] sys by blast
  then have a: "\<not> contains_str (sanitize_prompt text) ''system:''"
    unfolding eq using assistant_system.contains_replaced [of ?s2] by blast
  have "\<not> contains_str ?s2 ''user:''" by (rule user_marker.replaced_gone [OF refl])
  then have b: "\<not> contains_str (sanitize_prompt text) ''user:''"
    unfolding eq using assistant_user.contains_replaced [of ?s2] by blast
  have c: "\<not> contains_str (sanitize_prompt text) ''assistant:''"
    unfolding eq by (rule assistant_marker.replaced_gone [OF refl])
  from assms a b c show ?thesis by blast
qed

text \<open>\<open>privacy.rs\<close>: cap, drop control characters but line breaks and tabs, break code fences.\<close>

definition kept_untrusted :: "string \<Rightarrow> bool" where
  "kept_untrusted c \<longleftrightarrow> c \<in> {[CHR 0x0A], [CHR 0x0D], [CHR 0x09]} \<or> \<not> is_control c"

definition sanitize_untrusted :: "string \<Rightarrow> nat \<Rightarrow> string" where
  "sanitize_untrusted raw max_chars =
     replace_str (replicate 3 (CHR 0x60)) (replicate 3 (CHR 0x27))
       (concat (filter kept_untrusted (take max_chars (utf8_chars raw))))"

interpretation fence: inert_replacement "replicate 3 (CHR 0x60)" "replicate 3 (CHR 0x27)" "replicate 3 (CHR 0x60)"
  by (rule inert_fence) simp

lemma sanitize_untrusted_no_fence: "\<not> contains_str (sanitize_untrusted raw n) (replicate 3 (CHR 0x60))"
  unfolding sanitize_untrusted_def by (rule fence.replaced_gone [OF refl])

text \<open>A replacement of the same length keeps the length.\<close>

lemma length_replace_same: "length r = length p \<Longrightarrow> length (replace_str p r s) = length s"
proof (induction p r s rule: replace_str.induct)
  case (1 p r s)
  consider "p = [] \<or> s = []" | "p \<noteq> []" "s \<noteq> []" "starts_with s p" | "p \<noteq> []" "s \<noteq> []" "\<not> starts_with s p" by blast
  then show ?case
  proof cases
    case 1
    then show ?thesis by (simp add: replace_str.simps [of p r s])
  next
    case 2
    then have "length p \<le> length s" by (auto simp: starts_with_iff)
    with 2 1 show ?thesis by (simp add: replace_match)
  next
    case 3
    with "1.IH"(2) "1.prems" show ?thesis by (cases s) (auto simp: replace_skip)
  qed
qed

definition looks_like_override :: "(string \<Rightarrow> string) \<Rightarrow> string \<Rightarrow> bool" where
  "looks_like_override lower text =
     list_ex (contains_str (lower text))
       [''ignore previous instructions'', ''disregard previous instructions'', ''ignore all previous'',
        ''you are now'', ''system prompt:'']"

record remote_policy =
  remote_allowed :: bool

definition remote_default :: remote_policy where
  "remote_default = \<lparr>remote_allowed = False\<rparr>"

definition ensure_remote_allowed :: "remote_policy \<Rightarrow> string + unit" where
  "ensure_remote_allowed p =
     (if remote_allowed p then Ok ()
      else Err ''Remote AI is disabled (local-first default). Enable it in config to use the agent.'')"

section \<open>Bounds\<close>

text \<open>\<open>bound_chars\<close>: cut at \<open>max\<close> bytes, backing off to a character boundary.\<close>

fun floor_boundary :: "string \<Rightarrow> nat \<Rightarrow> nat" where
  "floor_boundary s 0 = 0"
| "floor_boundary s (Suc n) =
     (if Suc n < length s \<and> is_cont (s ! Suc n) then floor_boundary s n else Suc n)"

definition bound_chars :: "string \<Rightarrow> nat \<Rightarrow> string" where
  "bound_chars text m = (if length text \<le> m then text else take (floor_boundary text m) text)"

lemma floor_boundary_le: "floor_boundary s n \<le> n"
  by (induction n) auto

lemma length_bound_chars: "length (bound_chars text m) \<le> m"
  using floor_boundary_le [of "text" m] by (auto simp: bound_chars_def)

lemma bound_chars_prefix: "\<exists>rest. text = bound_chars text m @ rest \<and> (rest \<noteq> [] \<longrightarrow> bound_chars text m \<noteq> [] \<longrightarrow> \<not> is_cont (hd rest))"
proof (cases "length text \<le> m")
  case False
  have b: "floor_boundary text n = 0 \<or> n \<ge> length text \<or> \<not> is_cont (text ! floor_boundary text n)" for n
    by (induction n) auto
  let ?k = "floor_boundary text m"
  have "?k < length text" using False floor_boundary_le [of "text" m] by linarith
  then have "hd (drop ?k text) = text ! ?k" by (rule hd_drop_conv_nth)
  with b [of m] False show ?thesis
    by (intro exI [of _ "drop ?k text"]) (auto simp: bound_chars_def)
qed (simp add: bound_chars_def)

section \<open>Requests\<close>

record entities =
  en_query :: "string option"
  en_target :: "string option"
  en_workflow :: "string option"

record parsed_request =
  pq_intent :: agent_intent
  pq_entities :: entities

definition parse_verb :: "string \<Rightarrow> agent_intent \<times> string" where
  "parse_verb l =
     (case strip_prefix l ''find '' of Some r \<Rightarrow> (ISearch, r) | None \<Rightarrow>
     (case strip_prefix l ''search '' of Some r \<Rightarrow> (ISearch, r) | None \<Rightarrow>
     (case strip_prefix l ''open '' of Some r \<Rightarrow> (IOpen, r) | None \<Rightarrow>
     (case strip_prefix l ''run '' of Some r \<Rightarrow> (IExecute, r) | None \<Rightarrow>
     (case strip_prefix l ''workflow '' of Some r \<Rightarrow> (IWorkflow, r) | None \<Rightarrow> (ISearch, l))))))"

definition parse_intent :: "(string \<Rightarrow> string) \<Rightarrow> string \<Rightarrow> parsed_request" where
  "parse_intent lower input =
     (case parse_verb (lower (str_trim input)) of (intent, rest) \<Rightarrow>
        let none = \<lparr>en_query = None, en_target = None, en_workflow = None\<rparr>;
            e = (case intent of
                ISearch \<Rightarrow> none\<lparr>en_query := Some (str_trim rest)\<rparr>
              | IOpen \<Rightarrow> none\<lparr>en_target := Some (str_trim rest)\<rparr>
              | IExecute \<Rightarrow> none\<lparr>en_target := Some (str_trim rest)\<rparr>
              | IWorkflow \<Rightarrow> none\<lparr>en_workflow := Some (str_trim rest)\<rparr>
              | _ \<Rightarrow> none)
        in \<lparr>pq_intent = intent, pq_entities = e\<rparr>)"

lemma parse_verb_intent: "fst (parse_verb l) \<in> {ISearch, IOpen, IExecute, IWorkflow}"
  by (auto simp: parse_verb_def split: option.splits)

lemma parse_intent_kind: "pq_intent (parse_intent lower input) \<in> {ISearch, IOpen, IExecute, IWorkflow}"
  using parse_verb_intent [of "lower (str_trim input)"]
  by (simp add: parse_intent_def Let_def case_prod_beta)

text \<open>Exactly the entity of the intent is filled in.\<close>

lemma parse_intent_entities:
  "(en_query (pq_entities (parse_intent lower input)) \<noteq> None) = (pq_intent (parse_intent lower input) = ISearch)"
  "(en_target (pq_entities (parse_intent lower input)) \<noteq> None) = (pq_intent (parse_intent lower input) \<in> {IOpen, IExecute})"
  "(en_workflow (pq_entities (parse_intent lower input)) \<noteq> None) = (pq_intent (parse_intent lower input) = IWorkflow)"
  using parse_verb_intent [of "lower (str_trim input)"]
  by (auto simp: parse_intent_def Let_def case_prod_beta split: agent_intent.splits)

section \<open>Clarification\<close>

definition utf8 :: "nat list \<Rightarrow> string" where
  "utf8 bs = map char_of bs"

datatype clarification_reason = LowConfidence | AmbiguousTarget | EmptyInput

record clarification =
  cl_question :: string
  cl_reason :: clarification_reason

definition blank_entity :: "string option \<Rightarrow> bool" where
  "blank_entity e = str_blank (case e of Some s \<Rightarrow> s | None \<Rightarrow> [])"

definition needs_clarification :: "agent_intent \<Rightarrow> entities \<Rightarrow> f64 \<Rightarrow> f64 \<Rightarrow> clarification option" where
  "needs_clarification intent e confidence min_confidence =
     (let empty_input = (case intent of
          ISearch \<Rightarrow> blank_entity (en_query e)
        | IOpen \<Rightarrow> blank_entity (en_target e)
        | IExecute \<Rightarrow> blank_entity (en_target e)
        | IWorkflow \<Rightarrow> blank_entity (en_workflow e)
        | IExplain \<Rightarrow> blank_entity (en_query e)
        | IUnknown \<Rightarrow> blank_entity (en_query e))
      in if empty_input then Some \<lparr>cl_question =
     utf8 [228, 189, 160, 230, 131, 179, 229, 129, 154, 228, 187, 128, 228, 185, 136,
       239, 188, 159, 232, 175, 183, 232, 161, 165, 229, 133, 133, 229, 133, 183, 228,
       189, 147, 229, 134, 133, 229, 174, 185, 227, 128, 130], cl_reason = EmptyInput\<rparr>
      else if intent = IExecute \<and> (case en_target e of Some t \<Rightarrow> length t < 3 | None \<Rightarrow> False)
      then Some \<lparr>cl_question = ''`'' @ (case en_target e of Some t \<Rightarrow> t | None \<Rightarrow> []) @
     utf8 [96, 32, 228, 184, 141, 230, 152, 175, 228, 184, 128, 228, 184, 170, 230, 152,
       142, 231, 161, 174, 231, 154, 132, 229, 143, 175, 230, 137, 167, 232, 161, 140,
       231, 155, 174, 230, 160, 135, 226, 128, 148, 226, 128, 148, 228, 189, 160, 230,
       131, 179, 232, 191, 144, 232, 161, 140, 228, 187, 128, 228, 185, 136, 239, 188,
       159], cl_reason = AmbiguousTarget\<rparr>
      else if f64_lt confidence min_confidence then Some \<lparr>cl_question =
     utf8 [230, 136, 145, 228, 184, 141, 229, 164, 170, 231, 161, 174, 229, 174, 154,
       228, 189, 160, 231, 154, 132, 230, 132, 143, 229, 155, 190, 226, 128, 148, 226,
       128, 148, 229, 143, 175, 228, 187, 165, 229, 134, 141, 232, 175, 180, 229, 190,
       151, 229, 133, 183, 228, 189, 147, 228, 184, 128, 231, 130, 185, 229, 144, 151,
       239, 188, 159], cl_reason = LowConfidence\<rparr>
      else None)"

section \<open>Building proposals\<close>

fun intent_label :: "agent_intent \<Rightarrow> string" where
  "intent_label ISearch = ''search''"
| "intent_label IOpen = ''open''"
| "intent_label IExecute = ''execute''"
| "intent_label IWorkflow = ''workflow''"
| "intent_label IExplain = ''explain''"
| "intent_label IUnknown = ''unknown''"

definition user_goal :: "parsed_request \<Rightarrow> string" where
  "user_goal p = (case en_query (pq_entities p) of
     Some q \<Rightarrow> intent_label (pq_intent p) @ '': '' @ q
   | None \<Rightarrow> (case en_target (pq_entities p) of
       Some t \<Rightarrow> intent_label (pq_intent p) @ '': '' @ t
     | None \<Rightarrow> (case en_workflow (pq_entities p) of
         Some w \<Rightarrow> ''run workflow: '' @ w
       | None \<Rightarrow> ''unspecified'')))"

fun action_ref_for :: "agent_intent \<Rightarrow> string" where
  "action_ref_for ISearch = ''search:query''"
| "action_ref_for IOpen = ''command:open''"
| "action_ref_for IExecute = ''command:execute''"
| "action_ref_for IWorkflow = ''workflow:run''"
| "action_ref_for IExplain = ''explain:context''"
| "action_ref_for IUnknown = ''noop''"

definition input_for :: "parsed_request \<Rightarrow> json" where
  "input_for p = (case en_query (pq_entities p) of
     Some q \<Rightarrow> JObject [(''query'', JString q)]
   | None \<Rightarrow> (case en_target (pq_entities p) of
       Some t \<Rightarrow> JObject [(''target'', JString t)]
     | None \<Rightarrow> (case en_workflow (pq_entities p) of
         Some w \<Rightarrow> JObject [(''workflow_id'', JString w)]
       | None \<Rightarrow> JObject [])))"

definition rationale_for :: "parsed_request \<Rightarrow> string" where
  "rationale_for p = ''derived from '' @ intent_label (pq_intent p) @ '' intent via deterministic rules''"

definition explanation_for :: "parsed_request \<Rightarrow> string" where
  "explanation_for p =
     ''proposal built from parsed intent `'' @ intent_label (pq_intent p) @ ''` with deterministic rules''"

definition requires_approval_for :: "string \<Rightarrow> bool" where
  "requires_approval_for r \<longleftrightarrow> \<not> (starts_with r ''search:'' \<or> starts_with r ''explain:'')"

text \<open>\<open>f32::clamp(0.0, 1.0)\<close>: NaN stays NaN.\<close>

definition f64_clamp01 :: "f64 \<Rightarrow> f64" where
  "f64_clamp01 x = (if f64_lt x (Fin 0) then Fin 0 else if f64_lt (Fin 1) x then Fin 1 else x)"

definition build_proposal :: "string \<Rightarrow> 64 word \<Rightarrow> parsed_request \<Rightarrow> f64 \<Rightarrow> string + agent_proposal" where
  "build_proposal session seq p confidence =
     (let pid = session @ ''-p'' @ nat_str (unat seq); r = action_ref_for (pq_intent p);
          proposal = \<lparr>pr_id = pid, pr_session = session, pr_goal = user_goal p, pr_intent = pq_intent p,
            pr_plan = [\<lparr>ps_id = pid @ ''-s1'', ps_action_ref = r, ps_input = input_for p,
              ps_rationale = Some (rationale_for p), ps_requires_approval = requires_approval_for r\<rparr>],
            pr_confidence = f64_clamp01 confidence, pr_explanation = Some (explanation_for p)\<rparr>
      in case validate_proposal proposal of Inl e \<Rightarrow> Err e | Inr _ \<Rightarrow> Ok proposal)"

definition build_workflow_proposal :: "string \<Rightarrow> 64 word \<Rightarrow> string \<Rightarrow> json \<Rightarrow> f64 \<Rightarrow> string + agent_proposal" where
  "build_workflow_proposal session seq wid vars confidence =
     (if str_blank wid then Err ''workflow_id must not be empty''
      else let pid = session @ ''-wf'' @ nat_str (unat seq);
          proposal = \<lparr>pr_id = pid, pr_session = session, pr_goal = ''run workflow: '' @ wid,
            pr_intent = IWorkflow,
            pr_plan = [\<lparr>ps_id = pid @ ''-run'', ps_action_ref = ''workflow:'' @ wid, ps_input = vars,
              ps_rationale = Some (''user requested workflow `'' @ wid @ ''`''), ps_requires_approval = False\<rparr>],
            pr_confidence = f64_clamp01 confidence,
            pr_explanation = Some (''workflow `'' @ wid @ ''` triggered by agent'')\<rparr>
      in case validate_proposal proposal of Inl e \<Rightarrow> Err e | Inr _ \<Rightarrow> Ok proposal)"

lemma approval_needed: "requires_approval_for (action_ref_for i) \<longleftrightarrow> i \<notin> {ISearch, IExplain}"
  by (cases i) (simp_all add: requires_approval_for_def)

lemma build_proposal_ok:
  assumes "build_proposal session seq p confidence = Ok q"
  shows "proposal_ok q" "pr_intent q = pq_intent p" "length (pr_plan q) = 1"
    "ps_requires_approval (hd (pr_plan q)) \<longleftrightarrow> pq_intent p \<notin> {ISearch, IExplain}"
  using assms
  by (auto simp: build_proposal_def Let_def approval_needed validate_proposal_Ok [symmetric] split: sum.splits)

section \<open>Prompt assembly\<close>

definition build_agent_prompt :: "string \<Rightarrow> entities \<Rightarrow> string \<Rightarrow> string \<Rightarrow> nat \<Rightarrow> string" where
  "build_agent_prompt goal e context catalog budget =
     (let g = bound_chars (sanitize_prompt goal) 512;
          ctx = bound_chars (sanitize_prompt context) (max budget 64)
      in ''GOAL: '' @ g @ [CHR 0x0A]
       @ (case en_query e of Some q \<Rightarrow> ''QUERY: '' @ bound_chars (sanitize_prompt q) 256 @ [CHR 0x0A] | None \<Rightarrow> [])
       @ (case en_target e of Some t \<Rightarrow> ''TARGET: '' @ bound_chars (sanitize_prompt t) 256 @ [CHR 0x0A] | None \<Rightarrow> [])
       @ (if ctx \<noteq> [] then ''<untrusted-context>'' @ [CHR 0x0A] @ ctx @ [CHR 0x0A] @ ''</untrusted-context>'' @ [CHR 0x0A] else [])
       @ ''ACTION CATALOG (untrusted data):'' @ [CHR 0x0A]
       @ bound_chars catalog (max budget 256))"

text \<open>The planner's catalog view.\<close>

definition format_item :: "serde \<Rightarrow> action_item \<Rightarrow> string" where
  "format_item J a =
     ''- provider_id: '' @ ai_provider a @ [CHR 0x0A] @ ''  command_id: '' @ ai_command a @ [CHR 0x0A]
     @ ''  action_id: '' @ ai_action a @ [CHR 0x0A] @ ''  action_type: '' @ ai_action_type a @ [CHR 0x0A]
     @ ''  title: '' @ ai_title a @ [CHR 0x0A]
     @ (case ai_description a of None \<Rightarrow> [] | Some d \<Rightarrow>
         ''  <MCP_METADATA>'' @ take_chars 300
           (replace_str ''</MCP_METADATA>'' ''[/MCP_METADATA]''
             (replace_str ''<AVAILABLE_ACTIONS>'' ''[AVAILABLE_ACTIONS]''
               (replace_str ''</AVAILABLE_ACTIONS>'' ''[/AVAILABLE_ACTIONS]'' d)))
         @ ''</MCP_METADATA>'' @ [CHR 0x0A])
     @ (case ai_input_schema a of None \<Rightarrow> [] | Some v \<Rightarrow>
         ''  input_schema: '' @ take_chars 500 (json_text J v) @ [CHR 0x0A])"

definition format_catalog :: "serde \<Rightarrow> action_item list \<Rightarrow> nat \<Rightarrow> string" where
  "format_catalog J items max_items =
     ''<AVAILABLE_ACTIONS>'' @ [CHR 0x0A] @ concat (map (format_item J) (take max_items items))
     @ (if length items > max_items
        then ''(... '' @ nat_str (length items - max_items) @ '' more actions omitted for brevity ...)'' @ [CHR 0x0A]
        else [])
     @ ''</AVAILABLE_ACTIONS>''"

definition build_user_prompt :: "serde \<Rightarrow> string \<Rightarrow> action_item list \<Rightarrow> nat \<Rightarrow> string" where
  "build_user_prompt J intent items max_items =
     ''User intent:'' @ [CHR 0x0A] @ intent @ [CHR 0x0A, CHR 0x0A]
     @ ''Available actions (untrusted data, select only from these):'' @ [CHR 0x0A]
     @ format_catalog J items max_items"

section \<open>Context\<close>

record context_item =
  ci_label :: string
  ci_value :: string

fun take_budget :: "nat \<Rightarrow> context_item list \<Rightarrow> nat \<Rightarrow> context_item list" where
  "take_budget budget [] used = []"
| "take_budget budget (i # is) used =
     (let cost = length (ci_label i) + length (ci_value i) in
      if used + cost > budget then [] else i # take_budget budget is (used + cost))"

definition context_items :: "string option \<Rightarrow> string option \<Rightarrow> string list \<Rightarrow> context_item list" where
  "context_items app folder favs =
     (case app of Some a \<Rightarrow> [\<lparr>ci_label = ''foreground_app'', ci_value = sanitize_prompt (bound_chars a 128)\<rparr>] | None \<Rightarrow> [])
     @ (case folder of Some f \<Rightarrow> [\<lparr>ci_label = ''current_folder'', ci_value = sanitize_prompt (bound_chars f 256)\<rparr>] | None \<Rightarrow> [])
     @ map (\<lambda>(i, f). \<lparr>ci_label = ''favorite_'' @ nat_str i, ci_value = sanitize_prompt (bound_chars f 128)\<rparr>)
         (take 5 (enumerate 0 favs))"

definition build_context :: "string option \<Rightarrow> string option \<Rightarrow> string list \<Rightarrow> nat \<Rightarrow> context_item list" where
  "build_context app folder favs budget = take_budget budget (context_items app folder favs) 0"

definition context_cost :: "context_item list \<Rightarrow> nat" where
  "context_cost is = sum_list (map (\<lambda>i. length (ci_label i) + length (ci_value i)) is)"

lemma take_budget_cost: "used \<le> budget \<Longrightarrow> used + context_cost (take_budget budget is used) \<le> budget"
proof (induction "is" arbitrary: used)
  case (Cons i ns)
  let ?cost = "length (ci_label i) + length (ci_value i)"
  show ?case
  proof (cases "used + ?cost > budget")
    case True
    with Cons.prems show ?thesis by (simp add: context_cost_def)
  next
    case False
    then have "used + ?cost + context_cost (take_budget budget ns (used + ?cost)) \<le> budget"
      by (intro Cons.IH) simp
    moreover have "context_cost (i # xs) = ?cost + context_cost xs" for xs by (simp add: context_cost_def)
    ultimately show ?thesis using False by (simp add: Let_def)
  qed
qed (simp add: context_cost_def)

lemma take_budget_set: "set (take_budget budget is used) \<subseteq> set is"
  by (induction "is" arbitrary: used) (auto simp: Let_def)

lemma build_context_clean:
  assumes "i \<in> set (build_context app folder favs budget)" "m \<in> {''system:'', ''user:'', ''assistant:''}"
  shows "\<not> contains_str (ci_value i) m"
proof -
  have "i \<in> set (context_items app folder favs)"
    using assms(1) take_budget_set unfolding build_context_def by blast
  then have "ci_value i \<in> range sanitize_prompt"
    unfolding context_items_def by (auto split: option.splits)
  with sanitize_prompt_no_role [OF assms(2)] show ?thesis by auto
qed

end
