(* ===== verification/SearchQuery.thy ===== *)
theory SearchQuery
  imports SearchFuzzy AiPrompt Domain
begin

text \<open>
  Queries: \<open>QueryContext\<close> and the pinyin keys of \<open>launcher-domain\<close>, the query normalizer, and the filters
  and intents of \<open>launcher-search/src/intelligence.rs\<close>. The syllable table of \<open>pinyin_table.rs\<close> is an argument.
\<close>

section \<open>Query context\<close>

text \<open>\<open>split_whitespace\<close> on the characters of a text.\<close>

definition char_words :: "string list \<Rightarrow> string list list" where
  "char_words cs = filter (\<lambda>w. w \<noteq> []) (split_on is_whitespace cs)"

definition words_of :: "string \<Rightarrow> string list" where
  "words_of s = map concat (char_words (utf8_chars s))"

record query_context =
  qx_raw :: string
  qx_normalized :: string
  qx_tokens :: "string list"

definition parse_query :: "unicode \<Rightarrow> string \<Rightarrow> query_context" where
  "parse_query U raw = (let normalized = uc_lower U (join_str '' '' (words_of raw)) in
     \<lparr>qx_raw = raw, qx_normalized = normalized, qx_tokens = words_of normalized\<rparr>)"

section \<open>Pinyin keys\<close>

text \<open>\<open>c as u32\<close> of a character of three bytes; the other lengths are outside the CJK block.\<close>

definition code_point3 :: "string \<Rightarrow> nat" where
  "code_point3 c = (case c of [a, b, d] \<Rightarrow> (byte a - 224) * 4096 + (byte b - 128) * 64 + (byte d - 128) | _ \<Rightarrow> 0)"

definition is_cjk :: "string \<Rightarrow> bool" where
  "is_cjk c \<longleftrightarrow> 19968 \<le> code_point3 c \<and> code_point3 c \<le> 40959"

definition initial_bounds :: "(nat \<times> char) list" where
  "initial_bounds = [(19968, CHR ''a''), (20320, CHR ''b''), (20639, CHR ''c''), (21094, CHR ''d''),
     (21758, CHR ''e''), (22105, CHR ''f''), (22756, CHR ''g''), (23383, CHR ''h''),
     (23879, CHR ''j''), (24703, CHR ''k''), (25087, CHR ''l''), (25504, CHR ''m''),
     (26106, CHR ''n''), (26623, CHR ''o''), (27189, CHR ''p''), (27743, CHR ''q''),
     (28598, CHR ''r''), (29240, CHR ''s''), (29805, CHR ''t''), (30340, CHR ''w''),
     (30610, CHR ''x''), (31353, CHR ''y''), (31908, CHR ''z'')]"

definition boundary_initial :: "nat \<Rightarrow> char" where
  "boundary_initial code = (case takeWhile (\<lambda>(start, _). start \<le> code) initial_bounds of
     [] \<Rightarrow> CHR ''a'' | bs \<Rightarrow> snd (last bs))"

definition pinyin_initial :: "(string \<Rightarrow> string option) \<Rightarrow> string \<Rightarrow> string option" where
  "pinyin_initial table c =
     (if \<not> is_cjk c then None
      else case table c of
          Some syl \<Rightarrow> (case utf8_chars syl of [] \<Rightarrow> None | x # _ \<Rightarrow> Some x)
        | None \<Rightarrow> Some [boundary_initial (code_point3 c)])"

definition pinyin_syllable :: "(string \<Rightarrow> string option) \<Rightarrow> string \<Rightarrow> string option" where
  "pinyin_syllable table c = (if \<not> is_cjk c then None else table c)"

definition pinyin_full :: "(string \<Rightarrow> string option) \<Rightarrow> string \<Rightarrow> string" where
  "pinyin_full table name = concat (List.map_filter (\<lambda>c. case pinyin_syllable table c of
     Some syl \<Rightarrow> Some syl
   | None \<Rightarrow> if is_cjk c then Some [boundary_initial (code_point3 c)] else None) (utf8_chars name))"

definition pinyin_initials :: "(string \<Rightarrow> string option) \<Rightarrow> string \<Rightarrow> string" where
  "pinyin_initials table name = concat (List.map_filter (pinyin_initial table) (utf8_chars name))"

section \<open>The query normalizer\<close>

datatype search_result_state = SearchComplete | SearchPartial | SearchTimedOut | SearchCancelled | SearchFailed

datatype search_intent = IntApplication | IntFile | IntFolder | IntCommand | IntPlugin | IntWorkflow | IntMixed | IntUnknown

datatype filter_kind = FkApp | FkFile | FkFolder | FkCmd | FkPlugin | FkWf

record search_filter =
  sf_kind :: filter_kind
  sf_value :: string

datatype search_strategy = StrategyAll | Routed "filter_kind list"

record search_request =
  sq_raw :: string
  sq_normalized :: string
  sq_tokens :: "string list"
  sq_filters :: "search_filter list"
  sq_intent :: search_intent
  sq_strategy :: search_strategy
  sq_budget :: "64 word"

definition MAX_QUERY_BYTES :: nat where "MAX_QUERY_BYTES = 512"

record normalized_query =
  nq_raw :: string
  nq_normalized :: string
  nq_tokens :: "string list"
  nq_wildcard :: bool
  nq_separator :: bool

definition collapse_step :: "unicode \<Rightarrow> string \<Rightarrow> string \<times> bool \<Rightarrow> string \<times> bool" where
  "collapse_step U ch st = (case st of (n, last_was_space) \<Rightarrow>
     if is_whitespace ch then (if n \<noteq> [] \<and> \<not> last_was_space then n @ '' '' else n, True)
     else (n @ uc_lower_char U ch, False))"

definition pop_spaces :: "string \<Rightarrow> string" where
  "pop_spaces s = rev (dropWhile (\<lambda>c. c = CHR '' '') (rev s))"

definition normalize_query :: "unicode \<Rightarrow> string \<Rightarrow> normalized_query" where
  "normalize_query U raw0 =
     (let raw = bound_chars raw0 MAX_QUERY_BYTES;
          normalized = pop_spaces (fst (fold (collapse_step U) (utf8_chars raw) ([], False)))
      in \<lparr>nq_raw = raw, nq_normalized = normalized,
          nq_tokens = filter (\<lambda>t. t \<noteq> []) (split_on (\<lambda>c. c = CHR '' '') normalized),
          nq_wildcard = CHR ''*'' \<in> set raw \<or> CHR ''?'' \<in> set raw,
          nq_separator = CHR ''/'' \<in> set raw \<or> CHR 0x5C \<in> set raw\<rparr>)"

section \<open>Filters and intents\<close>

definition parse_kind :: "string \<Rightarrow> filter_kind option" where
  "parse_kind p =
     (if p = ''app'' then Some FkApp else if p = ''file'' then Some FkFile else if p = ''folder'' then Some FkFolder
      else if p = ''cmd'' then Some FkCmd else if p = ''plugin'' then Some FkPlugin else if p = ''wf'' then Some FkWf
      else None)"

fun kind_intent :: "filter_kind \<Rightarrow> search_intent" where
  "kind_intent FkApp = IntApplication"
| "kind_intent FkFile = IntFile"
| "kind_intent FkFolder = IntFolder"
| "kind_intent FkCmd = IntCommand"
| "kind_intent FkPlugin = IntPlugin"
| "kind_intent FkWf = IntWorkflow"

text \<open>The part of a text before the first \<open>c\<close>, if there is one (\<open>split_once\<close>).\<close>

definition before_char :: "char \<Rightarrow> string \<Rightarrow> string option" where
  "before_char c s = (if c \<in> set s then Some (takeWhile (\<lambda>x. x \<noteq> c) s) else None)"

definition parse_filters :: "normalized_query \<Rightarrow> search_filter list" where
  "parse_filters nq = (case nq_tokens nq of
     [] \<Rightarrow> []
   | first # _ \<Rightarrow> (case before_char (CHR '':'') first of
       None \<Rightarrow> []
     | Some p \<Rightarrow> (case parse_kind p of
         None \<Rightarrow> []
       | Some kind \<Rightarrow> [\<lparr>sf_kind = kind,
           sf_value = str_trim (case strip_prefix (nq_normalized nq) (p @ '':'') of Some r \<Rightarrow> r | None \<Rightarrow> [])\<rparr>])))"

definition COMMAND_VERBS :: "string list" where
  "COMMAND_VERBS = [''open'', ''run'', ''copy'', ''kill'', ''restart'', ''shutdown'', ''sleep'', ''lock'', ''eject'', ''toggle'']"

definition DOCUMENT_EXTENSIONS :: "string list" where
  "DOCUMENT_EXTENSIONS = [''txt'', ''md'', ''pdf'', ''doc'', ''docx'', ''xls'', ''xlsx'', ''ppt'']"

definition extension_of :: "string \<Rightarrow> string option" where
  "extension_of token =
     (let name = rev (takeWhile (\<lambda>c. c \<noteq> CHR ''/'' \<and> c \<noteq> CHR 0x5C) (rev token));
          ext = rev (takeWhile (\<lambda>c. c \<noteq> CHR ''.'') (rev name));
          stem = take (length name - length ext - 1) name
      in if CHR ''.'' \<in> set name \<and> stem \<noteq> [] \<and> ext \<noteq> [] then Some ext else None)"

definition path_signal :: "normalized_query \<Rightarrow> search_intent list" where
  "path_signal nq =
     (if nq_separator nq
      then [if nq_normalized nq \<noteq> [] \<and> last (nq_normalized nq) \<in> {CHR ''/'', CHR 0x5C} then IntFolder else IntFile]
      else [])"

definition extension_signal :: "normalized_query \<Rightarrow> search_intent list" where
  "extension_signal nq = (case extension_of (last (nq_tokens nq)) of
     None \<Rightarrow> []
   | Some ext \<Rightarrow>
       if ext = ''exe'' \<or> ext = ''lnk'' then [IntApplication]
       else if ext \<in> set DOCUMENT_EXTENSIONS then [IntFile] else [])"

definition verb_signal :: "normalized_query \<Rightarrow> search_intent list" where
  "verb_signal nq = (if length (nq_tokens nq) \<ge> 2 \<and> hd (nq_tokens nq) \<in> set COMMAND_VERBS then [IntCommand] else [])"

definition detect_intent :: "normalized_query \<Rightarrow> search_intent" where
  "detect_intent nq = (case parse_filters nq of
     f # _ \<Rightarrow> kind_intent (sf_kind f)
   | [] \<Rightarrow>
       if nq_tokens nq = [] then IntUnknown
       else (case path_signal nq @ extension_signal nq @ verb_signal nq of
           [] \<Rightarrow> IntApplication
         | s # ss \<Rightarrow> if list_all (\<lambda>t. t = s) ss then s else IntMixed))"

definition search_request_of :: "unicode \<Rightarrow> string \<Rightarrow> 64 word \<Rightarrow> search_request" where
  "search_request_of U raw budget =
     (let nq = normalize_query U raw; filters = parse_filters nq
      in \<lparr>sq_raw = nq_raw nq, sq_normalized = nq_normalized nq, sq_tokens = nq_tokens nq, sq_filters = filters,
          sq_intent = detect_intent nq,
          sq_strategy = (case filters of f # _ \<Rightarrow> Routed [sf_kind f] | [] \<Rightarrow> StrategyAll),
          sq_budget = min budget 10000\<rparr>)"

end
