(* ===== verification/RankLists.thy ===== *)
theory RankLists
  imports "HOL-Library.Multiset"
begin

text \<open>
  Lists as the ranking uses them: the stable sort by a comparator, the first row of every key, and the
  indices of those rows. The laws of a comparator are the locale \<open>ranking\<close>; the order of the search
  results is its interpretation.
\<close>

text \<open>\<open>sort_by\<close>: the stable sort by a comparator (an insertion sort gives the same list).\<close>

fun insert_by :: "('a \<Rightarrow> 'a \<Rightarrow> bool) \<Rightarrow> 'a \<Rightarrow> 'a list \<Rightarrow> 'a list" where
  "insert_by le x [] = [x]"
| "insert_by le x (y # ys) = (if le x y then x # y # ys else y # insert_by le x ys)"

definition sort_by :: "('a \<Rightarrow> 'a \<Rightarrow> bool) \<Rightarrow> 'a list \<Rightarrow> 'a list" where
  "sort_by le xs = foldr (insert_by le) xs []"

text \<open>\<open>retain\<close> with a \<open>seen\<close> set: the first of every key.\<close>

fun first_by :: "('a \<Rightarrow> 'k) \<Rightarrow> 'k list \<Rightarrow> 'a list \<Rightarrow> 'a list" where
  "first_by f seen [] = []"
| "first_by f seen (x # xs) =
     (if f x \<in> set seen then first_by f seen xs else x # first_by f (f x # seen) xs)"

text \<open>Pass 2, by indices as the code has it: the first index of every identity is kept, a later row is
  merged into it.\<close>

definition first_index :: "'k list \<Rightarrow> nat \<Rightarrow> nat" where
  "first_index ids i = length (takeWhile (\<lambda>x. x \<noteq> ids ! i) ids)"

definition merge_pairs :: "'k list \<Rightarrow> (nat \<times> nat) list" where
  "merge_pairs ids = map (\<lambda>i. (first_index ids i, i)) (filter (\<lambda>i. first_index ids i \<noteq> i) [0..<length ids])"

section \<open>Sorting\<close>

lemma mset_insert_by [simp]: "mset (insert_by le x ys) = add_mset x (mset ys)"
  by (induction ys) auto

lemma set_insert_by [simp]: "set (insert_by le x ys) = insert x (set ys)"
  by (induction ys) auto

lemma mset_sort_by [simp]: "mset (sort_by le xs) = mset xs"
  by (induction xs) (simp_all add: sort_by_def)

lemma set_sort_by [simp]: "set (sort_by le xs) = set xs"
  by (metis mset_sort_by set_mset_mset)

locale ranking =
  fixes rows :: "'a set" and le :: "'a \<Rightarrow> 'a \<Rightarrow> bool"
  assumes total: "a \<in> rows \<Longrightarrow> b \<in> rows \<Longrightarrow> le a b \<or> le b a"
    and trans: "a \<in> rows \<Longrightarrow> b \<in> rows \<Longrightarrow> c \<in> rows \<Longrightarrow> le a b \<Longrightarrow> le b c \<Longrightarrow> le a c"
begin

lemma sorted_insert_by:
  "x \<in> rows \<Longrightarrow> set ys \<subseteq> rows \<Longrightarrow> sorted_wrt le ys \<Longrightarrow> sorted_wrt le (insert_by le x ys)"
proof (induction ys)
  case (Cons y ys)
  show ?case
  proof (cases "le x y")
    case True
    then have "\<forall>b \<in> set ys. le x b" using Cons.prems by (auto intro: trans [of x y])
    with True Cons.prems(3) show ?thesis by simp
  next
    case False
    with Cons total [of x y] show ?thesis by simp
  qed
qed simp

lemma sorted_sort_by: "set xs \<subseteq> rows \<Longrightarrow> sorted_wrt le (sort_by le xs)"
proof (induction xs)
  case (Cons x xs)
  then have "sorted_wrt le (insert_by le x (sort_by le xs))"
    by (intro sorted_insert_by) simp_all
  then show ?case by (simp add: sort_by_def)
qed (simp add: sort_by_def)

end

section \<open>Deduplication\<close>

lemma set_first_by: "set (first_by f seen xs) \<subseteq> set xs"
  by (induction f seen xs rule: first_by.induct) auto

lemma first_by_distinct:
  "distinct (map f (first_by f seen xs)) \<and> f ` set (first_by f seen xs) = f ` set xs - set seen"
  by (induction f seen xs rule: first_by.induct) auto

lemma first_by_sorted: "sorted_wrt le xs \<Longrightarrow> sorted_wrt le (first_by f seen xs)"
  by (induction f seen xs rule: first_by.induct) (use set_first_by in \<open>auto, fastforce\<close>)

text \<open>In a sorted list the first of a key comes before the others.\<close>

lemma first_by_best:
  "sorted_wrt le xs \<Longrightarrow> x \<in> set xs \<Longrightarrow> f x \<notin> set seen \<Longrightarrow>
    \<exists>y \<in> set (first_by f seen xs). f y = f x \<and> (y = x \<or> le y x)"
proof (induction f seen xs rule: first_by.induct)
  case (2 f seen a xs)
  show ?case
  proof (cases "f a \<in> set seen")
    case True
    with 2 show ?thesis by auto
  next
    case False
    with 2 show ?thesis by (cases "f x = f a") auto
  qed
qed simp

lemma first_by_snoc:
  "first_by f seen (xs @ [x]) = first_by f seen xs @ (if f x \<in> set seen \<union> f ` set xs then [] else [x])"
  by (induction f seen xs rule: first_by.induct) auto

section \<open>Identities are collapsed to the first row\<close>

lemma position_less: "x \<in> set ids \<Longrightarrow> length (takeWhile (\<lambda>y. y \<noteq> x) ids) < length ids"
  by (induction ids) auto

lemma nth_position: "x \<in> set ids \<Longrightarrow> ids ! length (takeWhile (\<lambda>y. y \<noteq> x) ids) = x"
  by (induction ids) auto

lemma position_le: "i < length ids \<Longrightarrow> length (takeWhile (\<lambda>y. y \<noteq> ids ! i) ids) \<le> i"
proof (induction ids arbitrary: i)
  case (Cons y ids)
  then show ?case by (cases i) auto
qed simp

lemma first_index_append: "i < length ids \<Longrightarrow> first_index (ids @ [z]) i = first_index ids i"
  unfolding first_index_def by (subst takeWhile_append1 [where x = "ids ! i"]) (auto simp: nth_append)

lemma first_index_last: "first_index (ids @ [z]) (length ids) = length ids \<longleftrightarrow> z \<notin> set ids"
proof (cases "z \<in> set ids")
  case True
  then have "first_index (ids @ [z]) (length ids) = length (takeWhile (\<lambda>y. y \<noteq> z) ids)"
    unfolding first_index_def by (subst takeWhile_append1 [where x = z]) auto
  with position_less [OF True] True show ?thesis by simp
next
  case False
  then have "takeWhile (\<lambda>y. y \<noteq> z) (ids @ [z]) = ids" by (subst takeWhile_append2) auto
  with False show ?thesis by (simp add: first_index_def)
qed

lemma first_index_facts:
  assumes "i < length ids"
  shows "first_index ids i \<le> i" "ids ! first_index ids i = ids ! i" "first_index ids (first_index ids i) = first_index ids i"
  using position_le [OF assms] nth_position [of "ids ! i" ids] assms by (simp_all add: first_index_def)

lemma kept_rows:
  "map (\<lambda>i. cs ! i) (filter (\<lambda>i. first_index (map f cs) i = i) [0..<length cs]) = first_by f [] cs"
proof (induction cs rule: rev_induct)
  case (snoc c cs)
  have "map (\<lambda>i. (cs @ [c]) ! i) (filter (\<lambda>i. first_index (map f cs @ [f c]) i = i) [0..<length cs])
      = map (\<lambda>i. cs ! i) (filter (\<lambda>i. first_index (map f cs) i = i) [0..<length cs])"
    by (intro map_cong filter_cong) (auto simp: nth_append first_index_append)
  with snoc.IH first_index_last [of "map f cs" "f c"] show ?case
    by (auto simp: first_by_snoc)
qed simp

end
