(* ===== verification/SearchRank.thy ===== *)
theory SearchRank
  imports SearchQuery RankLists
begin

text \<open>
  Scoring, deduplication and ranking of \<open>launcher-search/src/lib.rs\<close>. Scores are singles with the
  rounding of \<open>Float32\<close>. Lower-casing, \<open>Path::file_stem\<close> of the platform and the syllable table are
  the record \<open>search_env\<close>; the boost is an argument, as in the code.
\<close>

section \<open>Weights\<close>

record ranking_weights =
  rw_keyword_exact :: f64
  rw_keyword_prefix :: f64
  rw_keyword_contains :: f64
  rw_fuzzy_subsequence :: f64
  rw_multi_token :: f64
  rw_history_freq_per_use :: f64
  rw_history_freq_cap :: "32 word"
  rw_history_day :: f64
  rw_history_week :: f64
  rw_title_exact :: f64
  rw_title_prefix :: f64
  rw_title_contains :: f64
  rw_plugin_hint :: f64
  rw_title_word :: f64
  rw_plugin_hint_matched :: f64

definition default_weights :: ranking_weights where
  "default_weights = \<lparr>rw_keyword_exact = Fin 50, rw_keyword_prefix = Fin 25, rw_keyword_contains = Fin 15,
     rw_fuzzy_subsequence = Fin 20, rw_multi_token = Fin 30, rw_history_freq_per_use = Fin 3,
     rw_history_freq_cap = 10, rw_history_day = Fin 12, rw_history_week = Fin 6, rw_title_exact = Fin 100,
     rw_title_prefix = Fin 60, rw_title_contains = Fin 40, rw_plugin_hint = Fin 45, rw_title_word = Fin 85,
     rw_plugin_hint_matched = Fin 15\<rparr>"

definition FUZZY_MAX_CONTRIBUTION :: f64 where "FUZZY_MAX_CONTRIBUTION = Fin 40"

fun type_prior :: "category \<Rightarrow> f64" where
  "type_prior CatApplication = Fin 25"
| "type_prior CatFolder = Fin 20"
| "type_prior CatCommand = Fin 15"
| "type_prior CatPlugin = Fin 10"
| "type_prior CatFile = Fin 0"

section \<open>Scores\<close>

datatype matched_field = MfNone | MfTitle | MfTitleStem | MfTitleWord | MfKeyword | MfFuzzy

record score_parts =
  pt_plugin_hint :: f64
  pt_title :: f64
  pt_keyword :: f64
  pt_fuzzy :: f64
  pt_multi_token :: f64
  pt_type_prior :: f64
  pt_field :: matched_field

definition parts_total :: "score_parts \<Rightarrow> f64" where
  "parts_total p = f32_add (f32_add (f32_add (f32_add (f32_add (pt_plugin_hint p) (pt_title p)) (pt_keyword p))
     (pt_fuzzy p)) (pt_multi_token p)) (pt_type_prior p)"

record search_env =
  se_unicode :: unicode
  se_file_stem :: "string \<Rightarrow> string option"
  se_syllable :: "string \<Rightarrow> string option"

definition best_title_score :: "ranking_weights \<Rightarrow> string \<Rightarrow> string \<Rightarrow> f64" where
  "best_title_score w candidate query =
     (if candidate = query then rw_title_exact w
      else if starts_with candidate query then rw_title_prefix w
      else if contains_str candidate query then rw_title_contains w else Fin 0)"

definition word_break :: "string \<Rightarrow> bool" where
  "word_break c \<longleftrightarrow> is_whitespace c \<or> c \<in> {''-'', ''_'', ''.''}"

definition title_words :: "string \<Rightarrow> string list" where
  "title_words title = map concat (split_on word_break (utf8_chars title))"

text \<open>A better score replaces the score and where it was found.\<close>

definition better :: "f64 \<Rightarrow> matched_field \<Rightarrow> f64 \<times> matched_field \<Rightarrow> f64 \<times> matched_field" where
  "better x f best = (if f64_lt (fst best) x then (x, f) else best)"

definition title_match :: "search_env \<Rightarrow> ranking_weights \<Rightarrow> command \<Rightarrow> string \<Rightarrow> string \<Rightarrow> f64 \<times> matched_field" where
  "title_match E w c title q =
     (let s0 = best_title_score w title q;
          b0 = (s0, if f64_lt (Fin 0) s0 then MfTitle else MfNone);
          b1 = (case (cmd_category c, se_file_stem E title) of
              (CatFile, Some stem) \<Rightarrow> better (best_title_score w stem q) MfTitleStem b0
            | _ \<Rightarrow> b0)
      in fold (\<lambda>word. better (f32_min (best_title_score w word q) (rw_title_word w)) MfTitleWord) (title_words title) b1)"

definition keyword_bonus :: "ranking_weights \<Rightarrow> string \<Rightarrow> string \<Rightarrow> f64" where
  "keyword_bonus w q k =
     (if k = q then rw_keyword_exact w else if starts_with k q then rw_keyword_prefix w
      else if contains_str k q then rw_keyword_contains w else Fin 0)"

definition keyword_score :: "search_env \<Rightarrow> ranking_weights \<Rightarrow> command \<Rightarrow> string \<Rightarrow> f64" where
  "keyword_score E w c q =
     fold (\<lambda>k acc. f32_add acc (keyword_bonus w q (uc_lower (se_unicode E) k))) (cmd_keywords c) (Fin 0)"

definition fuzzy_candidates :: "search_env \<Rightarrow> command \<Rightarrow> string \<Rightarrow> string list" where
  "fuzzy_candidates E c title =
     (let ini = pinyin_initials (se_syllable E) title; full = pinyin_full (se_syllable E) title
      in title # (case (cmd_category c, se_file_stem E title) of (CatFile, Some stem) \<Rightarrow> [stem] | _ \<Rightarrow> [])
         @ cmd_keywords c @ (if ini \<noteq> [] then [ini] else [])
         @ (if full \<noteq> [] \<and> full \<noteq> ini then [full] else []))"

definition fuzzy_contribution :: "f64 \<Rightarrow> f64" where
  "fuzzy_contribution best = f32_mul (f32_min (f32_div best PREFIX_SCORE) (Fin 1)) FUZZY_MAX_CONTRIBUTION"

definition all_tokens_hit :: "search_env \<Rightarrow> command \<Rightarrow> string \<Rightarrow> string list \<Rightarrow> bool" where
  "all_tokens_hit E c title tokens =
     list_all (contains_str (title @ '' '' @ join_str '' '' (map (uc_lower (se_unicode E)) (cmd_keywords c)))) tokens"

definition score_with_parts :: "search_env \<Rightarrow> ranking_weights \<Rightarrow> command \<Rightarrow> query_context \<Rightarrow> score_parts" where
  "score_with_parts E w c qx =
     (let none = \<lparr>pt_plugin_hint = Fin 0, pt_title = Fin 0, pt_keyword = Fin 0, pt_fuzzy = Fin 0,
            pt_multi_token = Fin 0, pt_type_prior = Fin 0, pt_field = MfNone\<rparr>;
          q = qx_normalized qx
      in if q = [] then none
      else
        let hint = f32_mul (f32_clamp (Fin 0) (Fin 1) (cmd_score c)) (rw_plugin_hint w);
            title = uc_lower (se_unicode E) (cmd_title c);
            (ts, field0) = title_match E w c title q;
            field1 = (if f64_lt (Fin 0) ts then field0 else MfNone);
            kw = keyword_score E w c q;
            field2 = (if f64_lt (Fin 0) kw \<and> field1 = MfNone then MfKeyword else field1);
            lexical = f32_add (f32_add hint ts) kw;
            (fz, field3) = (if f64_eq lexical (Fin 0)
              then (case fuzzy_score_best (se_unicode E) (fuzzy_candidates E c title) q of
                  Some best \<Rightarrow> (fuzzy_contribution best, MfFuzzy) | None \<Rightarrow> (Fin 0, field2))
              else (Fin 0, field2));
            multi = (if length (qx_tokens qx) > 1 \<and> all_tokens_hit E c title (qx_tokens qx)
              then rw_multi_token w else Fin 0);
            hint' = (if f64_lt (Fin 0) (f32_add (f32_add ts kw) fz)
              then f32_mul (f32_div hint (f32_max (rw_plugin_hint w) (Fin 1))) (rw_plugin_hint_matched w) else hint);
            parts = none\<lparr>pt_plugin_hint := hint', pt_title := ts, pt_keyword := kw, pt_fuzzy := fz,
              pt_multi_token := multi, pt_field := field3\<rparr>
        in if f64_lt (Fin 0) (parts_total parts) then parts\<lparr>pt_type_prior := type_prior (cmd_category c)\<rparr> else parts)"

definition search_score :: "search_env \<Rightarrow> command \<Rightarrow> query_context \<Rightarrow> f64" where
  "search_score E c qx = parts_total (score_with_parts E default_weights c qx)"

section \<open>Ranking\<close>

definition search_identity_key :: "search_env \<Rightarrow> command \<Rightarrow> string" where
  "search_identity_key E c =
     (case (cmd_category c, cmd_target c) of
        (CatApplication, Some t) \<Rightarrow> ''path:'' @ normalize_path_identity (uc_lower (se_unicode E)) t
      | (CatFile, Some t) \<Rightarrow> ''path:'' @ normalize_path_identity (uc_lower (se_unicode E)) t
      | (CatFolder, Some t) \<Rightarrow> ''path:'' @ normalize_path_identity (uc_lower (se_unicode E)) t
      | _ \<Rightarrow> ''cmd:'' @ cmd_provider c @ '':'' @ cmd_id c)"

text \<open>The comparator of the sort: not after, for the scores that are left (none is NaN), then provider
  and id by bytes.\<close>

definition ranks_before :: "command \<Rightarrow> command \<Rightarrow> bool" where
  "ranks_before a b \<longleftrightarrow> f64_lt (cmd_score b) (cmd_score a)
     \<or> (\<not> f64_lt (cmd_score a) (cmd_score b)
        \<and> (cmd_provider a < cmd_provider b \<or> (cmd_provider a = cmd_provider b \<and> cmd_id a \<le> cmd_id b)))"

text \<open>The merge of a dropped row into the row kept for its identity.\<close>

definition same_action :: "action \<Rightarrow> action \<Rightarrow> bool" where
  "same_action a k \<longleftrightarrow> (case ac_id k of Some s \<Rightarrow> s | None \<Rightarrow> []) = (case ac_id a of Some s \<Rightarrow> s | None \<Rightarrow> [])
     \<and> ac_kind k = ac_kind a"

definition add_action :: "action \<Rightarrow> command \<Rightarrow> command" where
  "add_action a kept = (if list_ex (same_action a) (cmd_actions kept) then kept
     else kept\<lparr>cmd_actions := cmd_actions kept @ [a]\<rparr>)"

definition merge_into :: "command \<Rightarrow> command \<Rightarrow> command" where
  "merge_into dropped kept =
     fold add_action (cmd_actions dropped)
       (if cmd_subtitle kept = None then kept\<lparr>cmd_subtitle := cmd_subtitle dropped\<rparr> else kept)"

definition collapse_identities :: "search_env \<Rightarrow> command list \<Rightarrow> command list" where
  "collapse_identities E cs =
     (let ids = map (search_identity_key E) cs;
          merged = fold (\<lambda>(k, d) xs. xs[k := merge_into (xs ! d) (xs ! k)]) (merge_pairs ids) cs
      in map (\<lambda>i. merged ! i) (filter (\<lambda>i. first_index ids i = i) [0..<length cs]))"

definition boosted :: "search_env \<Rightarrow> query_context \<Rightarrow> (command \<Rightarrow> f64) \<Rightarrow> command \<Rightarrow> command" where
  "boosted E qx boost c =
     (let base = search_score E c qx
      in c\<lparr>cmd_score := (if f64_lt (Fin 0) base then f32_add base (boost c) else Fin 0)\<rparr>)"

definition rank_with_boost :: "search_env \<Rightarrow> command list \<Rightarrow> query_context \<Rightarrow> nat \<Rightarrow> (command \<Rightarrow> f64) \<Rightarrow> command list" where
  "rank_with_boost E cs qx limit boost =
     (let scored = filter (\<lambda>c. f64_lt (Fin 0) (cmd_score c)) (map (boosted E qx boost) cs);
          sorted = sort_by ranks_before scored;
          unique = first_by (\<lambda>c. (cmd_provider c, cmd_id c)) [] sorted
      in take limit (collapse_identities E unique))"

definition rank_commands :: "search_env \<Rightarrow> command list \<Rightarrow> query_context \<Rightarrow> nat \<Rightarrow> command list" where
  "rank_commands E cs qx limit = rank_with_boost E cs qx limit (\<lambda>_. Fin 0)"

lemma ranks_before_total:
  "cmd_score a \<noteq> NaN \<Longrightarrow> cmd_score b \<noteq> NaN \<Longrightarrow> ranks_before a b \<or> ranks_before b a"
  by (cases "cmd_score a"; cases "cmd_score b") (auto simp: ranks_before_def)

lemma ranks_before_trans:
  "cmd_score a \<noteq> NaN \<Longrightarrow> cmd_score b \<noteq> NaN \<Longrightarrow> cmd_score c \<noteq> NaN \<Longrightarrow>
    ranks_before a b \<Longrightarrow> ranks_before b c \<Longrightarrow> ranks_before a c"
  by (cases "cmd_score a"; cases "cmd_score b"; cases "cmd_score c") (auto simp: ranks_before_def)

section \<open>Merging\<close>

text \<open>What a merge leaves alone: everything but subtitle and actions.\<close>

definition row_core :: "command \<Rightarrow> command" where
  "row_core c = c\<lparr>cmd_subtitle := None, cmd_actions := []\<rparr>"

lemma row_core_fields:
  assumes "row_core a = row_core b"
  shows "cmd_score a = cmd_score b" "cmd_provider a = cmd_provider b" "cmd_id a = cmd_id b"
    "search_identity_key E a = search_identity_key E b" "cmd_title a = cmd_title b" "cmd_category a = cmd_category b"
    "cmd_target a = cmd_target b"
proof -
  show "cmd_score a = cmd_score b" using arg_cong [OF assms, of cmd_score] by (simp add: row_core_def)
  show "cmd_title a = cmd_title b" using arg_cong [OF assms, of cmd_title] by (simp add: row_core_def)
  show fields: "cmd_provider a = cmd_provider b" "cmd_id a = cmd_id b" "cmd_category a = cmd_category b" "cmd_target a = cmd_target b"
    using arg_cong [OF assms, of cmd_provider] arg_cong [OF assms, of cmd_id] arg_cong [OF assms, of cmd_category]
      arg_cong [OF assms, of cmd_target] by (simp_all add: row_core_def)
  show "search_identity_key E a = search_identity_key E b" by (simp add: search_identity_key_def fields split: category.splits option.splits)
qed

lemma add_action_facts:
  "row_core (add_action a c) = row_core c" "set (cmd_actions (add_action a c)) \<subseteq> insert a (set (cmd_actions c))"
  "set (cmd_actions c) \<subseteq> set (cmd_actions (add_action a c))" "list_ex (same_action a) (cmd_actions (add_action a c))"
  by (auto simp: add_action_def row_core_def same_action_def list_ex_iff)

lemma fold_add_action:
  "row_core (fold add_action as c) = row_core c
    \<and> set (cmd_actions (fold add_action as c)) \<subseteq> set as \<union> set (cmd_actions c)
    \<and> set (cmd_actions c) \<subseteq> set (cmd_actions (fold add_action as c))
    \<and> (\<forall>a \<in> set as. list_ex (same_action a) (cmd_actions (fold add_action as c)))"
proof (induction as arbitrary: c)
  case (Cons a as)
  note IH = Cons.IH [of "add_action a c"] and one = add_action_facts [where a = a and c = c]
  have "list_ex (same_action a) (cmd_actions (fold add_action as (add_action a c)))"
    using IH one(4) by (auto simp: list_ex_iff)
  with IH one show ?case by auto
qed simp

lemma merge_into_facts:
  "row_core (merge_into d k) = row_core k"
  "set (cmd_actions (merge_into d k)) \<subseteq> set (cmd_actions d) \<union> set (cmd_actions k)"
  "set (cmd_actions k) \<subseteq> set (cmd_actions (merge_into d k))"
  "a \<in> set (cmd_actions d) \<Longrightarrow> list_ex (same_action a) (cmd_actions (merge_into d k))"
proof -
  let ?k = "if cmd_subtitle k = None then k\<lparr>cmd_subtitle := cmd_subtitle d\<rparr> else k"
  have "row_core ?k = row_core k" "cmd_actions ?k = cmd_actions k" by (simp_all add: row_core_def)
  with fold_add_action [of "cmd_actions d" ?k]
  show "row_core (merge_into d k) = row_core k"
    "set (cmd_actions (merge_into d k)) \<subseteq> set (cmd_actions d) \<union> set (cmd_actions k)"
    "set (cmd_actions k) \<subseteq> set (cmd_actions (merge_into d k))"
    "a \<in> set (cmd_actions d) \<Longrightarrow> list_ex (same_action a) (cmd_actions (merge_into d k))"
    unfolding merge_into_def by auto
qed

abbreviation merge_step :: "nat \<times> nat \<Rightarrow> command list \<Rightarrow> command list" where
  "merge_step \<equiv> \<lambda>(k, d) xs. xs[k := merge_into (xs ! d) (xs ! k)]"

lemma merge_fold:
  assumes "\<forall>(k, d) \<in> set ps. k < length cs \<and> d < length cs" "fst ` set ps \<inter> snd ` set ps = {}"
  shows "length (fold merge_step ps cs) = length cs
    \<and> (\<forall>i < length cs. row_core (fold merge_step ps cs ! i) = row_core (cs ! i)
        \<and> set (cmd_actions (cs ! i)) \<subseteq> set (cmd_actions (fold merge_step ps cs ! i))
        \<and> (i \<notin> fst ` set ps \<longrightarrow> fold merge_step ps cs ! i = cs ! i)
        \<and> set (cmd_actions (fold merge_step ps cs ! i))
            \<subseteq> set (cmd_actions (cs ! i)) \<union> (\<Union>d \<in> {d. (i, d) \<in> set ps}. set (cmd_actions (cs ! d)))
        \<and> (\<forall>d a. (i, d) \<in> set ps \<longrightarrow> a \<in> set (cmd_actions (cs ! d)) \<longrightarrow>
            list_ex (same_action a) (cmd_actions (fold merge_step ps cs ! i))))"
  using assms
proof (induction ps rule: rev_induct)
  case (snoc p ps)
  obtain k d where p: "p = (k, d)" by (cases p)
  let ?m = "fold merge_step ps cs"
  have "fst ` set ps \<inter> snd ` set ps = {}" using snoc.prems(2) by auto
  with snoc have IH: "length ?m = length cs" "\<And>i. i < length cs \<Longrightarrow> row_core (?m ! i) = row_core (cs ! i)
        \<and> set (cmd_actions (cs ! i)) \<subseteq> set (cmd_actions (?m ! i)) \<and> (i \<notin> fst ` set ps \<longrightarrow> ?m ! i = cs ! i)
        \<and> set (cmd_actions (?m ! i))
            \<subseteq> set (cmd_actions (cs ! i)) \<union> (\<Union>d \<in> {d. (i, d) \<in> set ps}. set (cmd_actions (cs ! d)))
        \<and> (\<forall>d a. (i, d) \<in> set ps \<longrightarrow> a \<in> set (cmd_actions (cs ! d)) \<longrightarrow> list_ex (same_action a) (cmd_actions (?m ! i)))"
    by auto
  have lt: "k < length cs" "d < length cs" using snoc.prems(1) p by auto
  have d: "?m ! d = cs ! d" using IH(2) [OF lt(2)] snoc.prems(2) p by auto
  have step: "fold merge_step (ps @ [p]) cs = ?m[k := merge_into (cs ! d) (?m ! k)]" by (simp add: p d)
  note merged = merge_into_facts [where d = "cs ! d" and k = "?m ! k"]
  have "row_core (?m[k := merge_into (cs ! d) (?m ! k)] ! i) = row_core (cs ! i)
        \<and> set (cmd_actions (cs ! i)) \<subseteq> set (cmd_actions (?m[k := merge_into (cs ! d) (?m ! k)] ! i))
        \<and> (i \<notin> fst ` set (ps @ [p]) \<longrightarrow> ?m[k := merge_into (cs ! d) (?m ! k)] ! i = cs ! i)
        \<and> set (cmd_actions (?m[k := merge_into (cs ! d) (?m ! k)] ! i))
            \<subseteq> set (cmd_actions (cs ! i)) \<union> (\<Union>d \<in> {d. (i, d) \<in> set (ps @ [p])}. set (cmd_actions (cs ! d)))
        \<and> (\<forall>d' a. (i, d') \<in> set (ps @ [p]) \<longrightarrow> a \<in> set (cmd_actions (cs ! d')) \<longrightarrow>
            list_ex (same_action a) (cmd_actions (?m[k := merge_into (cs ! d) (?m ! k)] ! i)))" if i: "i < length cs" for i
  proof (cases "i = k")
    case True
    have "list_ex (same_action a) (cmd_actions (merge_into (cs ! d) (?m ! k)))"
      if "list_ex (same_action a) (cmd_actions (?m ! k))" for a
      using that merged(3) by (auto simp: list_ex_iff)
    then have hits: "list_ex (same_action a) (cmd_actions (merge_into (cs ! d) (?m ! k)))"
      if "(k, d') \<in> set (ps @ [p])" "a \<in> set (cmd_actions (cs ! d'))" for d' a
      using that IH(2) [OF lt(1)] merged(4) p by fastforce
    have old: "set (cmd_actions (?m ! k)) \<subseteq> set (cmd_actions (cs ! k)) \<union> (\<Union>d \<in> {d. (k, d) \<in> set ps}. set (cmd_actions (cs ! d)))"
      using IH(2) [OF lt(1)] by blast
    have new: "set (cmd_actions (merge_into (cs ! d) (?m ! k)))
        \<subseteq> set (cmd_actions (cs ! k)) \<union> (\<Union>d \<in> {d. (k, d) \<in> set (ps @ [p])}. set (cmd_actions (cs ! d)))"
      by (rule subset_trans [OF merged(2)]) (use old p in auto)
    have core: "row_core (merge_into (cs ! d) (?m ! k)) = row_core (cs ! k)"
      "set (cmd_actions (cs ! k)) \<subseteq> set (cmd_actions (merge_into (cs ! d) (?m ! k)))"
      using merged(1,3) IH(2) [OF lt(1)] by auto
    have at: "?m[k := merge_into (cs ! d) (?m ! k)] ! i = merge_into (cs ! d) (?m ! k)" using True lt IH(1) by simp
    show ?thesis unfolding at using True core new hits p by auto
  next
    case False
    with IH(2) [OF i] p show ?thesis by auto
  qed
  then show ?case unfolding step using IH(1) by simp
qed auto

lemma collapse_facts:
  fixes E :: search_env
  defines "key \<equiv> search_identity_key E"
  shows "map row_core (collapse_identities E cs) = map row_core (first_by key [] cs)"
    and "r \<in> set (collapse_identities E cs) \<Longrightarrow> a \<in> set (cmd_actions r) \<Longrightarrow>
      \<exists>c \<in> set cs. key c = key r \<and> a \<in> set (cmd_actions c)"
    and "c \<in> set cs \<Longrightarrow> a \<in> set (cmd_actions c) \<Longrightarrow>
      \<exists>r \<in> set (collapse_identities E cs). key r = key c \<and> list_ex (same_action a) (cmd_actions r)"
proof -
  let ?ids = "map key cs" and ?ps = "merge_pairs (map key cs)" and ?kept = "filter (\<lambda>i. first_index (map key cs) i = i) [0..<length cs]"
  let ?m = "fold merge_step ?ps cs"
  have collapse: "collapse_identities E cs = map (\<lambda>i. ?m ! i) ?kept" by (simp add: collapse_identities_def key_def Let_def)
  have pairs: "(k, d) \<in> set ?ps \<longleftrightarrow> d < length cs \<and> k = first_index ?ids d \<and> k \<noteq> d" for k d
    by (auto simp: merge_pairs_def)
  have "\<forall>(k, d) \<in> set ?ps. k < length cs \<and> d < length cs"
    using first_index_facts(1) [of _ ?ids] by (fastforce simp: pairs intro: le_less_trans)
  moreover have "fst ` set ?ps \<inter> snd ` set ?ps = {}"
    using first_index_facts(3) [of _ ?ids] by (force simp: pairs)
  ultimately have m: "length ?m = length cs" "\<And>i. i < length cs \<Longrightarrow> row_core (?m ! i) = row_core (cs ! i)
        \<and> set (cmd_actions (cs ! i)) \<subseteq> set (cmd_actions (?m ! i))
        \<and> set (cmd_actions (?m ! i)) \<subseteq> set (cmd_actions (cs ! i)) \<union> (\<Union>d \<in> {d. (i, d) \<in> set ?ps}. set (cmd_actions (cs ! d)))
        \<and> (\<forall>d a. (i, d) \<in> set ?ps \<longrightarrow> a \<in> set (cmd_actions (cs ! d)) \<longrightarrow> list_ex (same_action a) (cmd_actions (?m ! i)))"
    using merge_fold [of ?ps cs] by blast+
  have key: "key (?m ! i) = key (cs ! i)" if "i < length cs" for i
    using m(2) [OF that] row_core_fields(4) unfolding key_def by blast
  have "map row_core (collapse_identities E cs) = map row_core (map (\<lambda>i. cs ! i) ?kept)"
    unfolding collapse using m(2) by simp
  then show "map row_core (collapse_identities E cs) = map row_core (first_by key [] cs)"
    unfolding kept_rows .
  {
    assume "r \<in> set (collapse_identities E cs)" "a \<in> set (cmd_actions r)"
    then obtain i where i: "i < length cs" "r = ?m ! i" "a \<in> set (cmd_actions (?m ! i))" by (auto simp: collapse)
    with m(2) [OF i(1)] obtain j where j: "j = i \<or> (i, j) \<in> set ?ps" "a \<in> set (cmd_actions (cs ! j))" by blast
    from j(1) have "j < length cs \<and> key (cs ! j) = key (cs ! i)"
    proof
      assume "(i, j) \<in> set ?ps"
      then have "j < length cs" "i = first_index ?ids j" by (simp_all only: pairs)
      with first_index_facts(2) [of j ?ids] i(1) show ?thesis by (metis length_map nth_map)
    qed (use i(1) in simp)
    with j(2) i(1,2) key [OF i(1)] show "\<exists>c \<in> set cs. key c = key r \<and> a \<in> set (cmd_actions c)" by (metis nth_mem)
  }
  {
    assume "c \<in> set cs" "a \<in> set (cmd_actions c)"
    then obtain d where d: "d < length cs" "c = cs ! d" "a \<in> set (cmd_actions (cs ! d))" by (metis in_set_conv_nth)
    let ?k = "first_index ?ids d"
    have k: "?k < length cs" "first_index ?ids ?k = ?k" "?ids ! ?k = ?ids ! d"
      using first_index_facts [of d ?ids] d(1) by simp_all
    then have mem: "?m ! ?k \<in> set (collapse_identities E cs)" by (auto simp: collapse)
    have "list_ex (same_action a) (cmd_actions (?m ! ?k))"
    proof (cases "?k = d")
      case True
      with m(2) [OF d(1)] d(3) show ?thesis by (auto simp: list_ex_iff same_action_def)
    next
      case False
      with d(1) have "(?k, d) \<in> set ?ps" by (simp add: pairs)
      with m(2) [OF k(1)] d(3) show ?thesis by blast
    qed
    moreover have "key (?m ! ?k) = key c" using key [OF k(1)] k(1,3) d by simp
    ultimately show "\<exists>r \<in> set (collapse_identities E cs). key r = key c \<and> list_ex (same_action a) (cmd_actions r)"
      using mem by blast
  }
qed

section \<open>The ranking\<close>

interpretation by_score: ranking "{c. cmd_score c \<noteq> NaN}" ranks_before
  by unfold_locales (use ranks_before_total ranks_before_trans in blast)+

lemma key_row_core [simp]: "search_identity_key E (row_core c) = search_identity_key E c"
  by (rule row_core_fields) (simp add: row_core_def)

lemma ranks_row_core [simp]: "ranks_before (row_core a) (row_core b) = ranks_before a b"
  by (simp add: ranks_before_def row_core_def)

lemma key_boosted [simp]: "search_identity_key E (boosted E qx boost c) = search_identity_key E c"
  by (simp add: boosted_def Let_def search_identity_key_def split: category.splits option.splits)

lemma boosted_frame [simp]:
  "cmd_provider (boosted E qx boost c) = cmd_provider c" "cmd_id (boosted E qx boost c) = cmd_id c"
  "cmd_actions (boosted E qx boost c) = cmd_actions c"
  by (simp_all add: boosted_def Let_def)

lemma positive_not_nan: "f64_lt (Fin 0) x \<Longrightarrow> x \<noteq> NaN"
  by (cases x) auto

lemma boosted_positive: "f64_lt (Fin 0) (cmd_score (boosted E qx boost c)) \<Longrightarrow> f64_lt (Fin 0) (search_score E c qx)"
  by (auto simp: boosted_def Let_def split: if_splits)

definition scored_rows :: "search_env \<Rightarrow> query_context \<Rightarrow> (command \<Rightarrow> f64) \<Rightarrow> command list \<Rightarrow> command list" where
  "scored_rows E qx boost cs =
     first_by (\<lambda>c. (cmd_provider c, cmd_id c)) []
       (sort_by ranks_before (filter (\<lambda>c. f64_lt (Fin 0) (cmd_score c)) (map (boosted E qx boost) cs)))"

lemma rank_unfold:
  "rank_with_boost E cs qx limit boost = take limit (collapse_identities E (scored_rows E qx boost cs))"
  by (simp add: rank_with_boost_def scored_rows_def Let_def)

lemma scored_rows_sorted: "sorted_wrt ranks_before (scored_rows E qx boost cs)"
  unfolding scored_rows_def
  by (intro first_by_sorted by_score.sorted_sort_by) (auto dest: positive_not_nan)

lemma scored_rows_from:
  "r \<in> set (scored_rows E qx boost cs) \<Longrightarrow>
    \<exists>c \<in> set cs. r = boosted E qx boost c \<and> f64_lt (Fin 0) (cmd_score r)"
  unfolding scored_rows_def using set_first_by by fastforce

lemma scored_rows_best:
  assumes "c \<in> set cs" "f64_lt (Fin 0) (cmd_score (boosted E qx boost c))"
  shows "\<exists>r \<in> set (scored_rows E qx boost cs). cmd_provider r = cmd_provider c \<and> cmd_id r = cmd_id c
    \<and> (r = boosted E qx boost c \<or> ranks_before r (boosted E qx boost c))"
proof -
  let ?S = "sort_by ranks_before (filter (\<lambda>c. f64_lt (Fin 0) (cmd_score c)) (map (boosted E qx boost) cs))"
  have "sorted_wrt ranks_before ?S" by (intro by_score.sorted_sort_by) (auto dest: positive_not_nan)
  moreover have "boosted E qx boost c \<in> set ?S" using assms by simp
  ultimately obtain y where "y \<in> set (scored_rows E qx boost cs)"
      "(cmd_provider y, cmd_id y) = (cmd_provider (boosted E qx boost c), cmd_id (boosted E qx boost c))"
      "y = boosted E qx boost c \<or> ranks_before y (boosted E qx boost c)"
    unfolding scored_rows_def using first_by_best [of ranks_before ?S "boosted E qx boost c" "\<lambda>c. (cmd_provider c, cmd_id c)" "[]"]
    by (metis empty_iff empty_set)
  then show ?thesis by auto
qed

lemma ranks_refl: "cmd_score c \<noteq> NaN \<Longrightarrow> ranks_before c c"
  using ranks_before_total by blast

lemma collapse_sorted:
  assumes "sorted_wrt ranks_before cs"
  shows "sorted_wrt ranks_before (collapse_identities E cs)"
proof -
  have "sorted_wrt ranks_before (map row_core (first_by (search_identity_key E) [] cs))"
    using first_by_sorted [OF assms] by (simp add: sorted_wrt_map)
  then have "sorted_wrt ranks_before (map row_core (collapse_identities E cs))" by (simp only: collapse_facts(1))
  then show ?thesis by (simp add: sorted_wrt_map)
qed

lemma collapse_distinct: "distinct (map (search_identity_key E) (collapse_identities E cs))"
proof -
  have "map (search_identity_key E) (collapse_identities E cs) = map (search_identity_key E) (map row_core (collapse_identities E cs))"
    by simp
  also have "\<dots> = map (search_identity_key E) (first_by (search_identity_key E) [] cs)"
    by (simp only: collapse_facts(1)) simp
  finally show ?thesis using first_by_distinct [of "search_identity_key E" "[]" cs] by simp
qed

lemma collapse_from:
  assumes "r \<in> set (collapse_identities E cs)"
  shows "\<exists>c \<in> set cs. row_core r = row_core c"
proof -
  have "row_core r \<in> set (map row_core (collapse_identities E cs))" using assms by simp
  then show ?thesis unfolding collapse_facts(1) using set_first_by by fastforce
qed

lemma collapse_best:
  assumes "sorted_wrt ranks_before cs" "c \<in> set cs" "cmd_score c \<noteq> NaN"
  shows "\<exists>r \<in> set (collapse_identities E cs). search_identity_key E r = search_identity_key E c \<and> ranks_before r c"
proof -
  obtain y where y: "y \<in> set (first_by (search_identity_key E) [] cs)" "search_identity_key E y = search_identity_key E c"
      "y = c \<or> ranks_before y c"
    using first_by_best [OF assms(1,2), of "search_identity_key E" "[]"] by auto
  then have "row_core y \<in> set (map row_core (collapse_identities E cs))" unfolding collapse_facts(1) by simp
  then obtain r where r: "r \<in> set (collapse_identities E cs)" "row_core r = row_core y" by auto
  have "ranks_before r c" using y(3) ranks_refl [OF assms(3)] ranks_row_core [of r c] ranks_row_core [of y c] r(2) by auto
  moreover have "search_identity_key E r = search_identity_key E c" using y(2) row_core_fields(4) [OF r(2)] by metis
  ultimately show ?thesis using r(1) by blast
qed

text \<open>C35: The ranking is sound and complete. The page is no longer than the limit, sorted by score, provider
  and id, and has one row for each identity. Every row is a candidate with a positive score, and its
  actions are those of candidates of its identity. Every candidate with a positive boosted score is
  represented: the row of its identity (or of the candidate of the same provider and id that was kept
  instead) is on the page and ranks before it, or the page is full of rows that rank before it.\<close>

theorem ranking_is_sound_and_complete:
  "let rs = rank_with_boost E cs qx limit boost in
     length rs \<le> limit \<and> sorted_wrt ranks_before rs \<and> distinct (map (search_identity_key E) rs)
     \<and> (\<forall>r \<in> set rs. f64_lt (Fin 0) (cmd_score r)
         \<and> (\<exists>c \<in> set cs. row_core r = row_core (boosted E qx boost c) \<and> f64_lt (Fin 0) (search_score E c qx))
         \<and> (\<forall>a \<in> set (cmd_actions r). \<exists>c \<in> set cs. search_identity_key E c = search_identity_key E r \<and> a \<in> set (cmd_actions c)))
     \<and> (\<forall>c \<in> set cs. f64_lt (Fin 0) (cmd_score (boosted E qx boost c)) \<longrightarrow>
         (\<exists>d \<in> set cs. cmd_provider d = cmd_provider c \<and> cmd_id d = cmd_id c
           \<and> ((\<exists>r \<in> set rs. search_identity_key E r = search_identity_key E d \<and> ranks_before r (boosted E qx boost c))
              \<or> (length rs = limit \<and> (\<forall>r \<in> set rs. ranks_before r (boosted E qx boost c))))))"
  (is "let rs = _ in ?len rs \<and> ?sorted rs \<and> ?dist rs \<and> (\<forall>r \<in> set rs. ?row r) \<and> (\<forall>c \<in> set cs. ?pos c \<longrightarrow> ?found rs c)")
proof -
  let ?U = "scored_rows E qx boost cs"
  let ?W = "collapse_identities E ?U" and ?rs = "rank_with_boost E cs qx limit boost"
  have rs: "?rs = take limit ?W" by (rule rank_unfold)
  have sorted: "sorted_wrt ranks_before ?W" by (rule collapse_sorted [OF scored_rows_sorted])
  have row: "?row r" if "r \<in> set ?rs" for r
  proof -
    have r: "r \<in> set ?W" using that rs by (auto dest: in_set_takeD)
    obtain u where u: "u \<in> set ?U" "row_core r = row_core u" using collapse_from [OF r] by blast
    obtain c where c: "c \<in> set cs" "u = boosted E qx boost c" "f64_lt (Fin 0) (cmd_score u)"
      using scored_rows_from [OF u(1)] by blast
    have "\<exists>c \<in> set cs. search_identity_key E c = search_identity_key E r \<and> a \<in> set (cmd_actions c)"
      if "a \<in> set (cmd_actions r)" for a
      using collapse_facts(2) [OF r that] scored_rows_from by (metis boosted_frame(3) key_boosted)
    with c u boosted_positive row_core_fields(1) [OF u(2)] show ?thesis by metis
  qed
  have found: "?found ?rs c" if c: "c \<in> set cs" and pos: "?pos c" for c
  proof -
    let ?c = "boosted E qx boost c"
    obtain u where u: "u \<in> set ?U" "cmd_provider u = cmd_provider c" "cmd_id u = cmd_id c" "u = ?c \<or> ranks_before u ?c"
      using scored_rows_best [OF c pos] by blast
    obtain d where d: "d \<in> set cs" "u = boosted E qx boost d" "f64_lt (Fin 0) (cmd_score u)"
      using scored_rows_from [OF u(1)] by blast
    obtain w where w: "w \<in> set ?W" "search_identity_key E w = search_identity_key E d" "ranks_before w u"
      using collapse_best [OF scored_rows_sorted u(1)] d positive_not_nan by (metis key_boosted)
    have nan: "cmd_score x \<noteq> NaN" if x: "x \<in> set ?W" for x
    proof -
      obtain y where "y \<in> set ?U" "row_core x = row_core y" using collapse_from [OF x] by blast
      then show ?thesis using scored_rows_from positive_not_nan row_core_fields(1) by metis
    qed
    have wc: "ranks_before w ?c"
      using w(3) u(4) ranks_before_trans [OF nan [OF w(1)] positive_not_nan [OF d(3)] positive_not_nan [OF pos]] by blast
    have "(\<exists>r \<in> set ?rs. search_identity_key E r = search_identity_key E d \<and> ranks_before r ?c)
        \<or> (length ?rs = limit \<and> (\<forall>r \<in> set ?rs. ranks_before r ?c))"
    proof (cases "w \<in> set ?rs")
      case True
      with w(2) wc show ?thesis by blast
    next
      case False
      then have out: "w \<in> set (drop limit ?W)" using w(1) rs by (metis UnE append_take_drop_id set_append)
      then have full: "length ?rs = limit" unfolding rs by (cases "length ?W \<le> limit") auto
      have "ranks_before r w" if "r \<in> set ?rs" for r
        using sorted out that unfolding rs by (metis append_take_drop_id sorted_wrt_append)
      then have "ranks_before r ?c" if "r \<in> set ?rs" for r
        using ranks_before_trans [OF nan nan [OF w(1)] positive_not_nan [OF pos] _ wc] that rs
        by (metis in_set_takeD)
      with full show ?thesis by blast
    qed
    with d(1) u(2,3) d(2) show ?thesis by (metis boosted_frame(1,2))
  qed
  have "?len ?rs" "?sorted ?rs" "?dist ?rs"
    using sorted collapse_distinct [of E ?U] unfolding rs
    by (simp_all add: sorted_wrt_take distinct_take flip: take_map)
  with row found show ?thesis unfolding Let_def by blast
qed

definition plain_env :: search_env where
  "plain_env = \<lparr>se_unicode = ascii_unicode, se_file_stem = (\<lambda>_. None), se_syllable = (\<lambda>_. None)\<rparr>"

definition calc_app :: command where
  "calc_app = \<lparr>cmd_id = ''calc'', cmd_title = ''Calc'', cmd_subtitle = None, cmd_icon = None, cmd_provider = ''apps'',
     cmd_score = Fin 0, cmd_keywords = [], cmd_category = CatApplication, cmd_actions = [], cmd_target = None\<rparr>"

definition keyword_plugin :: command where
  "keyword_plugin = calc_app\<lparr>cmd_id := ''numbers'', cmd_title := ''Numbers'', cmd_provider := ''plugin'',
     cmd_keywords := [''calc'', ''calc'', ''calc''], cmd_category := CatPlugin\<rparr>"

definition calc_query :: query_context where "calc_query = parse_query ascii_unicode ''Calc''"

lemma calc_scores:
  "qx_normalized calc_query = ''calc''" "qx_tokens calc_query = [''calc'']"
  "uc_lower (se_unicode plain_env) (cmd_title calc_app) = ''calc''"
  "uc_lower (se_unicode plain_env) (cmd_title keyword_plugin) = ''numbers''"
  "title_match plain_env default_weights calc_app ''calc'' ''calc'' = (Fin 100, MfTitle)"
  "title_match plain_env default_weights keyword_plugin ''numbers'' ''calc'' = (Fin 0, MfNone)"
  "keyword_score plain_env default_weights calc_app ''calc'' = Fin 0"
  "keyword_score plain_env default_weights keyword_plugin ''calc'' = Fin 150"
  "f32_mul (f32_clamp (Fin 0) (Fin 1) (cmd_score calc_app)) (rw_plugin_hint default_weights) = Fin 0"
  "f32_mul (f32_clamp (Fin 0) (Fin 1) (cmd_score keyword_plugin)) (rw_plugin_hint default_weights) = Fin 0"
  "f32_mul (f32_div (Fin 0) (f32_max (rw_plugin_hint default_weights) (Fin 1))) (rw_plugin_hint_matched default_weights) = Fin 0"
  "f32_of_rat 0 = Fin 0" "f32_of_rat 100 = Fin 100" "f32_of_rat 125 = Fin 125" "f32_of_rat 150 = Fin 150" "f32_of_rat 160 = Fin 160"
  "cmd_category calc_app = CatApplication" "cmd_category keyword_plugin = CatPlugin"
  by code_simp+

lemma calc_boosted:
  "boosted plain_env calc_query (\<lambda>_. Fin 0) calc_app = calc_app\<lparr>cmd_score := Fin 125\<rparr>"
  "boosted plain_env calc_query (\<lambda>_. Fin 0) keyword_plugin = keyword_plugin\<lparr>cmd_score := Fin 160\<rparr>"
  by (simp_all add: boosted_def search_score_def score_with_parts_def parts_total_def Let_def calc_scores)

theorem ranking_is_sound_and_complete_witness:
  "let rs = rank_with_boost plain_env [calc_app, keyword_plugin] calc_query 1 (\<lambda>_. Fin 0) in
     length rs = 1 \<and> list_all (\<lambda>r. f64_lt (Fin 0) (cmd_score r)) rs"
proof -
  have "f64_lt (Fin 0) (cmd_score (boosted plain_env calc_query (\<lambda>_. Fin 0) calc_app))" by (simp add: calc_boosted)
  then show ?thesis
    using ranking_is_sound_and_complete [of plain_env "[calc_app, keyword_plugin]" calc_query 1 "\<lambda>_. Fin 0"]
    unfolding Let_def by (auto simp: list_all_iff le_Suc_eq)
qed

text \<open>Keyword bonuses add up: a plugin that lists a keyword three times outranks the application with the
  exact title.\<close>

lemma keyword_flood:
  "map cmd_id (rank_commands plain_env [calc_app, keyword_plugin] calc_query 2) = [''numbers'', ''calc'']"
  by (simp add: rank_commands_def rank_with_boost_def calc_boosted) code_simp

end
