(* ===== verification/SearchContext.thy ===== *)
theory SearchContext
  imports SearchRank
begin

text \<open>
  The weights as configuration and the context signals of \<open>launcher-search/src/lib.rs\<close>. The parser and the
  printer of \<open>serde_json\<close> are left out: the functions are on JSON values.
\<close>

section \<open>Weights as configuration\<close>

definition RANKING_WEIGHTS_VERSION :: "64 word" where "RANKING_WEIGHTS_VERSION = 3"

text \<open>A single becomes a number, or null when it is not finite.\<close>

definition json_of_f32 :: "f64 \<Rightarrow> json" where
  "json_of_f32 x = (case x of Fin _ \<Rightarrow> JNumber (JFloat x) | _ \<Rightarrow> JNull)"

fun json_u64 :: "json \<Rightarrow> 64 word option" where
  "json_u64 (JNumber (PosInt w)) = Some w"
| "json_u64 _ = None"

text \<open>Indexing a value by a key gives null where there is no member.\<close>

definition json_index :: "json \<Rightarrow> string \<Rightarrow> json" where
  "json_index v k = (case json_get v k of Some x \<Rightarrow> x | None \<Rightarrow> JNull)"

definition weights_to_json :: "ranking_weights \<Rightarrow> json" where
  "weights_to_json w = JObject [(''version'', JNumber (PosInt RANKING_WEIGHTS_VERSION)),
     (''weights'', JObject [
        (''keyword_exact'', json_of_f32 (rw_keyword_exact w)), (''keyword_prefix'', json_of_f32 (rw_keyword_prefix w)),
        (''keyword_contains'', json_of_f32 (rw_keyword_contains w)), (''fuzzy_subsequence'', json_of_f32 (rw_fuzzy_subsequence w)),
        (''multi_token'', json_of_f32 (rw_multi_token w)), (''history_freq_per_use'', json_of_f32 (rw_history_freq_per_use w)),
        (''history_freq_cap'', JNumber (PosInt (ucast (rw_history_freq_cap w)))),
        (''history_recency_day'', json_of_f32 (rw_history_day w)), (''history_recency_week'', json_of_f32 (rw_history_week w)),
        (''title_exact'', json_of_f32 (rw_title_exact w)), (''title_prefix'', json_of_f32 (rw_title_prefix w)),
        (''title_contains'', json_of_f32 (rw_title_contains w)), (''plugin_hint'', json_of_f32 (rw_plugin_hint w))])]"

text \<open>\<open>val as f32\<close> of a double.\<close>

definition f32_of_f64 :: "f64 \<Rightarrow> f64" where
  "f32_of_f64 x = (case x of Fin r \<Rightarrow> f32_of_rat r | _ \<Rightarrow> x)"

definition weight_fields :: "(string \<times> (f64 \<Rightarrow> ranking_weights \<Rightarrow> ranking_weights)) list" where
  "weight_fields = [(''keyword_exact'', \<lambda>x w. w\<lparr>rw_keyword_exact := x\<rparr>), (''keyword_prefix'', \<lambda>x w. w\<lparr>rw_keyword_prefix := x\<rparr>),
     (''keyword_contains'', \<lambda>x w. w\<lparr>rw_keyword_contains := x\<rparr>), (''fuzzy_subsequence'', \<lambda>x w. w\<lparr>rw_fuzzy_subsequence := x\<rparr>),
     (''multi_token'', \<lambda>x w. w\<lparr>rw_multi_token := x\<rparr>), (''history_freq_per_use'', \<lambda>x w. w\<lparr>rw_history_freq_per_use := x\<rparr>),
     (''history_recency_day'', \<lambda>x w. w\<lparr>rw_history_day := x\<rparr>), (''history_recency_week'', \<lambda>x w. w\<lparr>rw_history_week := x\<rparr>),
     (''title_exact'', \<lambda>x w. w\<lparr>rw_title_exact := x\<rparr>), (''title_prefix'', \<lambda>x w. w\<lparr>rw_title_prefix := x\<rparr>),
     (''title_contains'', \<lambda>x w. w\<lparr>rw_title_contains := x\<rparr>), (''plugin_hint'', \<lambda>x w. w\<lparr>rw_plugin_hint := x\<rparr>),
     (''title_word'', \<lambda>x w. w\<lparr>rw_title_word := x\<rparr>), (''plugin_hint_matched'', \<lambda>x w. w\<lparr>rw_plugin_hint_matched := x\<rparr>)]"

definition read_weight :: "json \<Rightarrow> string \<times> (f64 \<Rightarrow> ranking_weights \<Rightarrow> ranking_weights) \<Rightarrow> ranking_weights \<Rightarrow> ranking_weights" where
  "read_weight w = (\<lambda>(name, put) out. case json_as_f64 (json_index w name) of
     Some (Fin r) \<Rightarrow> if r \<ge> 0 then put (f32_of_f64 (Fin r)) out else out
   | _ \<Rightarrow> out)"

definition weights_from_json :: "json \<Rightarrow> string + ranking_weights" where
  "weights_from_json v =
     (if json_u64 (json_index v ''version'') \<noteq> Some RANKING_WEIGHTS_VERSION then Err ''unsupported weights version (want 3)''
      else let w = json_index v ''weights''; out = fold (read_weight w) weight_fields default_weights
        in Ok (case json_u64 (json_index w ''history_freq_cap'') of
             Some cap \<Rightarrow> out\<lparr>rw_history_freq_cap := ucast (min cap 1000)\<rparr>
           | None \<Rightarrow> out))"

text \<open>A weight that a single holds.\<close>

definition plain_weight :: "f64 \<Rightarrow> bool" where
  "plain_weight x \<longleftrightarrow> (case x of Fin r \<Rightarrow> 0 \<le> r \<and> f32_of_rat r = Fin r | _ \<Rightarrow> False)"

lemma read_plain:
  "plain_weight x \<Longrightarrow> json_index w name = json_of_f32 x \<Longrightarrow> read_weight w (name, put) out = put x out"
  by (auto simp: plain_weight_def read_weight_def json_of_f32_def f32_of_f64_def split: f64.splits)

lemma read_absent: "json_index w name = JNull \<Longrightarrow> read_weight w (name, put) out = out"
  by (simp add: read_weight_def)

text \<open>Written weights read back, except the two that are not written.\<close>

lemma weights_read_back:
  assumes "list_all plain_weight [rw_keyword_exact w, rw_keyword_prefix w, rw_keyword_contains w, rw_fuzzy_subsequence w,
      rw_multi_token w, rw_history_freq_per_use w, rw_history_day w, rw_history_week w, rw_title_exact w, rw_title_prefix w,
      rw_title_contains w, rw_plugin_hint w]" "rw_history_freq_cap w \<le> 1000"
  shows "weights_from_json (weights_to_json w) =
    Ok (w\<lparr>rw_title_word := rw_title_word default_weights, rw_plugin_hint_matched := rw_plugin_hint_matched default_weights\<rparr>)"
proof -
  let ?v = "weights_to_json w"
  let ?w = "json_index ?v ''weights''"
  have cap: "ucast (min (ucast (rw_history_freq_cap w)) (1000 :: 64 word)) = rw_history_freq_cap w"
  proof -
    have "unat (ucast (rw_history_freq_cap w) :: 64 word) \<le> 1000"
      using assms(2) le_trans [OF take_bit_nat_less_eq_self]
      by (simp add: word_le_nat_alt unsigned_ucast_eq)
    then have "(ucast (rw_history_freq_cap w) :: 64 word) \<le> 1000" by (simp add: word_le_nat_alt)
    then show ?thesis by (simp add: min_def ucast_up_ucast_id is_up)
  qed
  have version: "json_u64 (json_index ?v ''version'') = Some RANKING_WEIGHTS_VERSION"
    by (simp add: weights_to_json_def json_index_def)
  have fields: "json_index ?w ''keyword_exact'' = json_of_f32 (rw_keyword_exact w)"
    "json_index ?w ''keyword_prefix'' = json_of_f32 (rw_keyword_prefix w)"
    "json_index ?w ''keyword_contains'' = json_of_f32 (rw_keyword_contains w)"
    "json_index ?w ''fuzzy_subsequence'' = json_of_f32 (rw_fuzzy_subsequence w)"
    "json_index ?w ''multi_token'' = json_of_f32 (rw_multi_token w)"
    "json_index ?w ''history_freq_per_use'' = json_of_f32 (rw_history_freq_per_use w)"
    "json_index ?w ''history_recency_day'' = json_of_f32 (rw_history_day w)"
    "json_index ?w ''history_recency_week'' = json_of_f32 (rw_history_week w)"
    "json_index ?w ''title_exact'' = json_of_f32 (rw_title_exact w)"
    "json_index ?w ''title_prefix'' = json_of_f32 (rw_title_prefix w)"
    "json_index ?w ''title_contains'' = json_of_f32 (rw_title_contains w)"
    "json_index ?w ''plugin_hint'' = json_of_f32 (rw_plugin_hint w)"
    "json_index ?w ''title_word'' = JNull" "json_index ?w ''plugin_hint_matched'' = JNull"
    "json_index ?w ''history_freq_cap'' = JNumber (PosInt (ucast (rw_history_freq_cap w)))"
    by (simp_all add: weights_to_json_def json_index_def)
  note reads = fields(1-12) [THEN read_plain [rotated]]
  have "fold (read_weight ?w) weight_fields default_weights = w\<lparr>rw_history_freq_cap := rw_history_freq_cap default_weights,
      rw_title_word := rw_title_word default_weights, rw_plugin_hint_matched := rw_plugin_hint_matched default_weights\<rparr>"
    using assms(1) unfolding weight_fields_def fold_simps id_apply comp_apply
    by (simp add: reads read_absent fields(13,14))
  then show ?thesis unfolding weights_from_json_def Let_def version fields by (simp add: cap)
qed

section \<open>Context\<close>

datatype time_bucket = TbNight | TbMorning | TbAfternoon | TbEvening

definition time_bucket_of :: "32 word \<Rightarrow> time_bucket" where
  "time_bucket_of h = (if h \<le> 7 then TbNight else if h \<le> 11 then TbMorning else if h \<le> 17 then TbAfternoon else TbEvening)"

record context_snapshot =
  cx_foreground :: "string option"
  cx_folder :: "string option"

datatype folder_proximity = FpNone | FpAncestor | FpDescendant | FpSameFolder

record context_weights =
  cw_foreground :: f64
  cw_same_folder :: f64
  cw_descendant :: f64
  cw_ancestor :: f64

definition default_context_weights :: context_weights where
  "default_context_weights = \<lparr>cw_foreground = Fin 8, cw_same_folder = Fin 12, cw_descendant = Fin 7, cw_ancestor = Fin 3\<rparr>"

definition path_parent :: "string \<Rightarrow> string" where
  "path_parent t = (case rsplit_once_char (CHR 0x5C) t of Some (p, _) \<Rightarrow> p | None \<Rightarrow> [])"

definition proximity_of :: "string \<Rightarrow> string \<Rightarrow> folder_proximity" where
  "proximity_of f t =
     (if path_parent t = f then FpSameFolder
      else if starts_with t (f @ [CHR 0x5C]) then FpDescendant
      else if starts_with f (t @ [CHR 0x5C]) then FpAncestor
      else FpNone)"

definition proximity_weight :: "context_weights \<Rightarrow> folder_proximity \<Rightarrow> f64" where
  "proximity_weight w p = (case p of FpSameFolder \<Rightarrow> cw_same_folder w | FpDescendant \<Rightarrow> cw_descendant w
     | FpAncestor \<Rightarrow> cw_ancestor w | FpNone \<Rightarrow> Fin 0)"

definition context_score :: "search_env \<Rightarrow> command \<Rightarrow> context_snapshot \<Rightarrow> context_weights \<Rightarrow> f64" where
  "context_score E c ctx w =
     (let norm = normalize_path_identity (uc_lower (se_unicode E));
          s1 = (case (cx_foreground ctx, cmd_target c) of
            (Some fg, Some t) \<Rightarrow> if norm fg = norm t then f32_add (Fin 0) (cw_foreground w) else Fin 0
          | _ \<Rightarrow> Fin 0)
      in case (cx_folder ctx, cmd_target c) of
           (Some folder, Some target) \<Rightarrow>
             let f = norm folder; t = norm target
             in if f \<noteq> [] \<and> t \<noteq> [] then f32_add s1 (proximity_weight w (proximity_of f t)) else s1
         | _ \<Rightarrow> s1)"

text \<open>With the default weights the context adds at most 20, and nothing without a target.\<close>

lemma context_score_bounds:
  "context_score E c ctx default_context_weights \<in> {Fin 0, Fin 3, Fin 7, Fin 8, Fin 11, Fin 12, Fin 15, Fin 20}"
  by (auto simp: context_score_def Let_def default_context_weights_def proximity_weight_def f32_of_rat_numeral
      split: option.split folder_proximity.split)

lemma context_needs_a_target: "cmd_target c = None \<Longrightarrow> context_score E c ctx w = Fin 0"
  by (simp add: context_score_def Let_def split: option.split)

text \<open>The parent decides before the prefix: a direct child of the folder is in the same folder, a deeper
  one below it.\<close>

lemma proximity_child: "CHR 0x5C \<notin> set n \<Longrightarrow> proximity_of f (f @ CHR 0x5C # n) = FpSameFolder"
  by (simp add: proximity_of_def path_parent_def rsplit_once_append)

lemma proximity_below:
  assumes "m \<noteq> []" "CHR 0x5C \<notin> set n"
  shows "proximity_of f (f @ CHR 0x5C # m @ CHR 0x5C # n) = FpDescendant"
proof -
  have "path_parent (f @ CHR 0x5C # m @ CHR 0x5C # n) = f @ CHR 0x5C # m"
    using rsplit_once_append [OF assms(2), of "f @ CHR 0x5C # m"] by (simp add: path_parent_def)
  then show ?thesis by (auto simp: proximity_of_def starts_with_iff)
qed

end
