(* ===== verification/SearchCoordinator.thy ===== *)
theory SearchCoordinator
  imports SearchRank
begin

text \<open>
  The provider fan-out of \<open>launcher-core/src/search_coordinator.rs\<close>. A provider is outside the model: its
  answer to the query is the argument \<open>ask\<close>, \<open>None\<close> for a panic. The threads of the scope are workers that
  take turns as a schedule says; a turn starts the worker's next provider or finishes the running one, and
  carries the value of the cancel flag.
\<close>

section \<open>Routing\<close>

fun routes_to :: "filter_kind \<Rightarrow> string \<Rightarrow> bool" where
  "routes_to FkApp pid = starts_with pid ''app''"
| "routes_to FkFile pid = (starts_with pid ''file'' \<or> starts_with pid ''recent'')"
| "routes_to FkFolder pid = (starts_with pid ''file'' \<or> starts_with pid ''recent'')"
| "routes_to FkCmd pid = (starts_with pid ''workflow'' \<or> starts_with pid ''settings'' \<or> starts_with pid ''context'')"
| "routes_to FkPlugin pid = starts_with pid ''plugin''"
| "routes_to FkWf pid = starts_with pid ''workflow''"

definition intent_routes_to :: "search_request \<Rightarrow> string \<Rightarrow> bool" where
  "intent_routes_to req pid = (case sq_strategy req of
     StrategyAll \<Rightarrow> True
   | Routed kinds \<Rightarrow> list_ex (\<lambda>k. routes_to k pid) kinds)"

record coordinator =
  co_ids :: "string list"
  co_max_parallelism :: nat
  co_in_flight :: nat
  co_max_seen :: nat

definition coordinator_new :: "nat \<Rightarrow> coordinator" where
  "coordinator_new p = \<lparr>co_ids = [], co_max_parallelism = max p 1, co_in_flight = 0, co_max_seen = 0\<rparr>"

definition register_provider :: "string \<Rightarrow> coordinator \<Rightarrow> coordinator" where
  "register_provider pid co = co\<lparr>co_ids := co_ids co @ [pid]\<rparr>"

definition selected_providers :: "search_request \<Rightarrow> coordinator \<Rightarrow> nat list" where
  "selected_providers req co = filter (\<lambda>i. intent_routes_to req (co_ids co ! i)) [0..<length (co_ids co)]"

definition group_count :: "coordinator \<Rightarrow> nat list \<Rightarrow> nat" where
  "group_count co sel = min (co_max_parallelism co) (max (length sel) 1)"

definition provider_groups :: "nat \<Rightarrow> nat list \<Rightarrow> nat list list" where
  "provider_groups n sel =
     fold (\<lambda>(pos, idx) gs. gs[pos mod n := gs ! (pos mod n) @ [idx]]) (enumerate 0 sel) (replicate n [])"

section \<open>Workers\<close>

record worker =
  wk_queue :: "nat list"
  wk_running :: "nat option"

record fan_out =
  fo_workers :: "worker list"
  fo_results :: "command list option list"
  fo_errors :: "string list"
  fo_cancelled :: bool
  fo_in_flight :: nat
  fo_max_seen :: nat
  fo_panicked :: bool

type_synonym provider_answer = "(command list \<times> string option) option"

definition fan_out_start :: "coordinator \<Rightarrow> nat list \<Rightarrow> fan_out" where
  "fan_out_start co sel =
     \<lparr>fo_workers = map (\<lambda>g. \<lparr>wk_queue = g, wk_running = None\<rparr>) (provider_groups (group_count co sel) sel),
      fo_results = replicate (length sel) None, fo_errors = [], fo_cancelled = False,
      fo_in_flight = co_in_flight co, fo_max_seen = co_max_seen co, fo_panicked = False\<rparr>"

text \<open>The answer of a provider is stored under the provider's index. The vector has one place for each
  selected provider, and an index past its end is a panic of the worker.\<close>

definition store_answer :: "(nat \<Rightarrow> string) \<Rightarrow> nat \<Rightarrow> nat \<Rightarrow> provider_answer \<Rightarrow> fan_out \<Rightarrow> fan_out" where
  "store_answer pid g idx answer s = (case answer of
     None \<Rightarrow> s\<lparr>fo_errors := fo_errors s @ [pid idx @ '': provider panicked'']\<rparr>
   | Some (cmds, err) \<Rightarrow>
       if idx < length (fo_results s)
       then s\<lparr>fo_results := (fo_results s)[idx := Some cmds],
              fo_errors := fo_errors s @ (case err of Some e \<Rightarrow> [pid idx @ '': '' @ e] | None \<Rightarrow> [])\<rparr>
       else s\<lparr>fo_panicked := True, fo_workers := (fo_workers s)[g := \<lparr>wk_queue = [], wk_running = None\<rparr>]\<rparr>)"

definition worker_turn :: "(nat \<Rightarrow> string) \<Rightarrow> (nat \<Rightarrow> provider_answer) \<Rightarrow> nat \<times> bool \<Rightarrow> fan_out \<Rightarrow> fan_out" where
  "worker_turn pid ask = (\<lambda>(g, cancel) s.
     if length (fo_workers s) \<le> g then s
     else let w = fo_workers s ! g in
       case wk_running w of
         Some idx \<Rightarrow> store_answer pid g idx (ask idx)
           (s\<lparr>fo_workers := (fo_workers s)[g := w\<lparr>wk_running := None\<rparr>], fo_in_flight := fo_in_flight s - 1\<rparr>)
       | None \<Rightarrow> (case wk_queue w of
           [] \<Rightarrow> s
         | idx # rest \<Rightarrow>
             if cancel then s\<lparr>fo_cancelled := True, fo_workers := (fo_workers s)[g := w\<lparr>wk_queue := []\<rparr>]\<rparr>
             else s\<lparr>fo_workers := (fo_workers s)[g := \<lparr>wk_queue = rest, wk_running = Some idx\<rparr>],
                    fo_in_flight := fo_in_flight s + 1, fo_max_seen := max (fo_max_seen s) (fo_in_flight s + 1)\<rparr>))"

definition worker_pending :: "worker \<Rightarrow> nat list" where
  "worker_pending w = (case wk_running w of Some i \<Rightarrow> [i] | None \<Rightarrow> []) @ wk_queue w"

definition fan_out_done :: "fan_out \<Rightarrow> bool" where
  "fan_out_done s = list_all (\<lambda>w. worker_pending w = []) (fo_workers s)"

section \<open>Searches\<close>

record coordinator_result =
  cr_commands :: "command list"
  cr_errors :: "string list"
  cr_state :: search_result_state
  cr_max_in_flight :: nat

definition fan_out_result :: "fan_out \<Rightarrow> coordinator_result option" where
  "fan_out_result s =
     (if fo_panicked s then None
      else Some \<lparr>cr_commands = concat (map (\<lambda>r. case r of Some cs \<Rightarrow> cs | None \<Rightarrow> []) (fo_results s)),
        cr_errors = fo_errors s,
        cr_state = (if fo_cancelled s then SearchCancelled else if fo_errors s = [] then SearchComplete else SearchPartial),
        cr_max_in_flight = fo_max_seen s\<rparr>)"

definition search_fan_out :: "unicode \<Rightarrow> (nat \<Rightarrow> query_context \<Rightarrow> provider_answer) \<Rightarrow> string \<Rightarrow> (nat \<times> bool) list \<Rightarrow>
    coordinator \<Rightarrow> fan_out" where
  "search_fan_out U ask raw sched co =
     (let req = search_request_of U raw 100;
          q = parse_query U (sq_normalized req)
      in fold (worker_turn (\<lambda>i. co_ids co ! i) (\<lambda>i. ask i q)) sched (fan_out_start co (selected_providers req co)))"

definition coordinator_search :: "unicode \<Rightarrow> (nat \<Rightarrow> query_context \<Rightarrow> provider_answer) \<Rightarrow> string \<Rightarrow> (nat \<times> bool) list \<Rightarrow>
    coordinator \<Rightarrow> coordinator_result option \<times> coordinator" where
  "coordinator_search U ask raw sched co =
     (let s = search_fan_out U ask raw sched co
      in (fan_out_result s, co\<lparr>co_in_flight := fo_in_flight s, co_max_seen := fo_max_seen s\<rparr>))"

section \<open>Groups\<close>

lemma mset_concat_update:
  "i < length xss \<Longrightarrow> mset (concat (xss[i := ys])) + mset (xss ! i) = mset (concat xss) + mset ys"
proof (induction xss arbitrary: i)
  case (Cons xs xss)
  then show ?case by (cases i) (simp_all add: ac_simps)
qed simp

lemma provider_groups_fold:
  assumes "n = length gs" "0 < n"
  shows "length (fold (\<lambda>(pos, idx) gs. gs[pos mod n := gs ! (pos mod n) @ [idx]]) ps gs) = n
    \<and> mset (concat (fold (\<lambda>(pos, idx) gs. gs[pos mod n := gs ! (pos mod n) @ [idx]]) ps gs)) = mset (concat gs) + mset (map snd ps)"
  using assms
proof (induction ps arbitrary: gs)
  case (Cons p ps)
  obtain pos idx where p: "p = (pos, idx)" by (cases p)
  have "pos mod n < length gs" using Cons.prems by simp
  from mset_concat_update [OF this, of "gs ! (pos mod n) @ [idx]"]
  have "mset (concat (gs[pos mod n := gs ! (pos mod n) @ [idx]])) = add_mset idx (mset (concat gs))" by simp
  with Cons.IH [of "gs[pos mod n := gs ! (pos mod n) @ [idx]]"] Cons.prems p show ?case by simp
qed simp

lemma provider_groups_facts:
  assumes "0 < n"
  shows "length (provider_groups n sel) = n" "mset (concat (provider_groups n sel)) = mset sel"
proof -
  have "map snd (enumerate 0 sel) = sel" by simp
  with provider_groups_fold [of n "replicate n []" "enumerate 0 sel"] assms
  show "length (provider_groups n sel) = n" "mset (concat (provider_groups n sel)) = mset sel"
    unfolding provider_groups_def by auto
qed

section \<open>Every interleaving\<close>

definition running_list :: "worker \<Rightarrow> nat list" where
  "running_list w = (case wk_running w of Some i \<Rightarrow> [i] | None \<Rightarrow> [])"

definition provider_errors :: "(nat \<Rightarrow> string) \<Rightarrow> (nat \<Rightarrow> provider_answer) \<Rightarrow> nat \<Rightarrow> string list" where
  "provider_errors pid ask i = (case ask i of
     None \<Rightarrow> [pid i @ '': provider panicked'']
   | Some (_, Some e) \<Rightarrow> [pid i @ '': '' @ e]
   | Some (_, None) \<Rightarrow> [])"

text \<open>A fan-out that has not panicked has answered a part \<open>D\<close> of the selected providers, each once, and
  holds exactly the answers and errors of that part.\<close>

definition answered :: "(nat \<Rightarrow> string) \<Rightarrow> (nat \<Rightarrow> provider_answer) \<Rightarrow> nat list \<Rightarrow> fan_out \<Rightarrow> nat list \<Rightarrow> bool" where
  "answered pid ask sel s D \<longleftrightarrow>
     mset D + mset (concat (map worker_pending (fo_workers s))) = mset sel
     \<and> (\<forall>i \<in> set D. ask i \<noteq> None \<longrightarrow> i < length sel)
     \<and> fo_results s = map (\<lambda>i. if i \<in> set D then map_option fst (ask i) else None) [0..<length sel]
     \<and> mset (fo_errors s) = mset (concat (map (provider_errors pid ask) D))"

definition fan_inv :: "(nat \<Rightarrow> string) \<Rightarrow> (nat \<Rightarrow> provider_answer) \<Rightarrow> nat list \<Rightarrow> coordinator \<Rightarrow> fan_out \<Rightarrow> bool" where
  "fan_inv pid ask sel co s \<longleftrightarrow>
     length (fo_results s) = length sel
     \<and> length (fo_workers s) = group_count co sel
     \<and> fo_in_flight s = co_in_flight co + length (concat (map running_list (fo_workers s)))
     \<and> fo_max_seen s \<le> max (co_max_seen co) (co_in_flight co + group_count co sel)
     \<and> set (concat (map worker_pending (fo_workers s))) \<subseteq> set sel
     \<and> \<not> fo_cancelled s
     \<and> (fo_panicked s \<longrightarrow> (\<exists>i \<in> set sel. length sel \<le> i \<and> ask i \<noteq> None))
     \<and> (\<not> fo_panicked s \<longrightarrow> (\<exists>D. answered pid ask sel s D))"

lemma mset_map_update:
  "g < length ws \<Longrightarrow> mset (concat (map f (ws[g := w]))) + mset (f (ws ! g)) = mset (concat (map f ws)) + mset (f w)"
  using mset_concat_update [of g "map f ws" "f w"] by (simp add: map_update)

lemma length_map_update:
  "g < length ws \<Longrightarrow> length (concat (map f (ws[g := w]))) + length (f (ws ! g)) = length (concat (map f ws)) + length (f w)"
  using arg_cong [OF mset_map_update, of g ws size f w] by (simp add: size_mset)

lemma set_map_update:
  "g < length ws \<Longrightarrow> set (f w) \<subseteq> set (f (ws ! g)) \<Longrightarrow> set (concat (map f (ws[g := w]))) \<subseteq> set (concat (map f ws))"
proof
  fix x assume g: "g < length ws" "set (f w) \<subseteq> set (f (ws ! g))" and "x \<in> set (concat (map f (ws[g := w])))"
  then obtain v where "v \<in> set (ws[g := w])" "x \<in> set (f v)" by auto
  with set_update_subset_insert [of ws g w] have "v \<in> set ws \<or> v = w" by auto
  with g \<open>x \<in> set (f v)\<close> show "x \<in> set (concat (map f ws))" by (auto dest: nth_mem)
qed

lemma running_le: "length (concat (map running_list ws)) \<le> length ws"
  by (induction ws) (auto simp: running_list_def split: option.splits)

lemma answered_next:
  assumes "answered pid ask sel s D" "idx \<in> set sel" "ask idx \<noteq> None \<longrightarrow> idx < length sel"
    and "mset (concat (map worker_pending (fo_workers s'))) + {#idx#} = mset (concat (map worker_pending (fo_workers s)))"
    and "fo_results s' = (case ask idx of Some (cs, _) \<Rightarrow> (fo_results s)[idx := Some cs] | None \<Rightarrow> fo_results s)"
    and "fo_errors s' = fo_errors s @ provider_errors pid ask idx"
  shows "answered pid ask sel s' (D @ [idx])"
proof -
  have "fo_results s' = map (\<lambda>i. if i \<in> set (D @ [idx]) then map_option fst (ask i) else None) [0..<length sel]"
  proof (intro nth_equalityI)
    show len: "length (fo_results s') = length (map (\<lambda>i. if i \<in> set (D @ [idx]) then map_option fst (ask i) else None) [0..<length sel])"
      using assms(1,5) by (auto simp: answered_def split: option.splits)
    fix i assume "i < length (fo_results s')"
    then have i: "i < length sel" using len by simp
    have old: "fo_results s = map (\<lambda>i. if i \<in> set D then map_option fst (ask i) else None) [0..<length sel]"
      using assms(1) by (simp add: answered_def)
    show "fo_results s' ! i = map (\<lambda>i. if i \<in> set (D @ [idx]) then map_option fst (ask i) else None) [0..<length sel] ! i"
      unfolding assms(5) old using i by (cases "ask idx"; cases "i = idx") auto
  qed
  moreover have "mset (D @ [idx]) + mset (concat (map worker_pending (fo_workers s'))) = mset sel"
    using assms(1) unfolding answered_def assms(4) [symmetric] by simp
  moreover have "mset (fo_errors s') = mset (concat (map (provider_errors pid ask) (D @ [idx])))"
    using assms(1) by (simp add: answered_def assms(6))
  moreover have "\<forall>i \<in> set (D @ [idx]). ask i \<noteq> None \<longrightarrow> i < length sel"
    using assms(1,3) by (simp add: answered_def)
  ultimately show ?thesis unfolding answered_def by blast
qed

text \<open>A step that leaves answers and pending providers alone.\<close>

lemma answered_same:
  "answered pid ask sel s D \<Longrightarrow> mset (concat (map worker_pending (fo_workers s'))) = mset (concat (map worker_pending (fo_workers s)))
    \<Longrightarrow> fo_results s' = fo_results s \<Longrightarrow> fo_errors s' = fo_errors s \<Longrightarrow> answered pid ask sel s' D"
  by (simp add: answered_def)

lemma fan_inv_start_turn:
  assumes inv: "fan_inv pid ask sel co s" and g: "g < length (fo_workers s)"
    and w: "wk_running (fo_workers s ! g) = None" "wk_queue (fo_workers s ! g) = idx # rest"
  shows "fan_inv pid ask sel co (worker_turn pid ask (g, False) s)"
proof -
  let ?w = "\<lparr>wk_queue = rest, wk_running = Some idx\<rparr>"
  let ?s = "worker_turn pid ask (g, False) s"
  have s: "?s = s\<lparr>fo_workers := (fo_workers s)[g := ?w], fo_in_flight := fo_in_flight s + 1,
      fo_max_seen := max (fo_max_seen s) (fo_in_flight s + 1)\<rparr>"
    using g w by (simp add: worker_turn_def Let_def)
  have same: "worker_pending ?w = worker_pending (fo_workers s ! g)" using w by (simp add: worker_pending_def)
  have pend: "mset (concat (map worker_pending (fo_workers ?s))) = mset (concat (map worker_pending (fo_workers s)))"
    using mset_map_update [OF g, of worker_pending ?w] same by (simp add: s)
  have run: "length (concat (map running_list (fo_workers ?s))) = length (concat (map running_list (fo_workers s))) + 1"
    using length_map_update [OF g, of running_list ?w] w by (simp add: s running_list_def)
  have "fo_in_flight s + 1 \<le> co_in_flight co + group_count co sel"
    using run running_le [of "fo_workers ?s"] inv by (simp add: s fan_inv_def)
  then have "fo_max_seen ?s \<le> max (co_max_seen co) (co_in_flight co + group_count co sel)"
    using inv by (simp add: s fan_inv_def)
  moreover have "set (concat (map worker_pending (fo_workers ?s))) = set (concat (map worker_pending (fo_workers s)))"
    using pend by (metis set_mset_mset)
  moreover have "\<exists>D. answered pid ask sel ?s D" if "\<not> fo_panicked s"
  proof -
    have "\<exists>D. answered pid ask sel s D" using inv that unfolding fan_inv_def by blast
    then obtain D where "answered pid ask sel s D" ..
    then have "answered pid ask sel ?s D" by (rule answered_same [OF _ pend]) (simp_all add: s)
    then show ?thesis ..
  qed
  ultimately show ?thesis using inv run by (auto simp: fan_inv_def s)
qed

lemma fan_inv_finish_turn:
  assumes inv: "fan_inv pid ask sel co s" and g: "g < length (fo_workers s)"
    and w: "wk_running (fo_workers s ! g) = Some idx"
  shows "fan_inv pid ask sel co (worker_turn pid ask (g, False) s)"
proof -
  let ?w = "(fo_workers s ! g)\<lparr>wk_running := None\<rparr>"
  let ?s = "worker_turn pid ask (g, False) s"
  let ?t = "s\<lparr>fo_workers := (fo_workers s)[g := ?w], fo_in_flight := fo_in_flight s - 1\<rparr>"
  have s: "?s = store_answer pid g idx (ask idx) ?t" using g w by (simp add: worker_turn_def Let_def)
  have pend: "mset (concat (map worker_pending (fo_workers ?t))) + {#idx#} = mset (concat (map worker_pending (fo_workers s)))"
    using mset_map_update [OF g, of worker_pending ?w] w by (simp add: worker_pending_def)
  have run: "length (concat (map running_list (fo_workers ?t))) + 1 = length (concat (map running_list (fo_workers s)))"
    using length_map_update [OF g, of running_list ?w] w by (simp add: running_list_def)
  have idx: "idx \<in> set sel"
  proof -
    have "idx \<in># mset (concat (map worker_pending (fo_workers s)))" unfolding pend [symmetric] by simp
    then show ?thesis using inv by (auto simp: fan_inv_def)
  qed
  have pset: "set (concat (map worker_pending (fo_workers ?t))) \<subseteq> set sel"
  proof -
    have "set_mset (mset (concat (map worker_pending (fo_workers ?t)))) \<subseteq> set_mset (mset (concat (map worker_pending (fo_workers s))))"
      unfolding pend [symmetric] by auto
    then show ?thesis using inv unfolding fan_inv_def set_mset_mset by blast
  qed
  show ?thesis
  proof (cases "ask idx \<noteq> None \<and> length sel \<le> idx")
    case True
    then have ss: "?s = ?t\<lparr>fo_panicked := True, fo_workers := (fo_workers ?t)[g := \<lparr>wk_queue = [], wk_running = None\<rparr>]\<rparr>"
      using inv by (auto simp: s store_answer_def fan_inv_def)
    let ?e = "\<lparr>wk_queue = [], wk_running = None\<rparr>"
    have "set (concat (map worker_pending (fo_workers ?s))) \<subseteq> set sel"
      using set_map_update [of g "fo_workers ?t" worker_pending ?e] g pset unfolding ss by (simp add: worker_pending_def)
    moreover have "length (concat (map running_list (fo_workers ?s))) = length (concat (map running_list (fo_workers ?t)))"
      using length_map_update [of g "fo_workers ?t" running_list ?e] g unfolding ss by (simp add: running_list_def)
    ultimately show ?thesis using inv run True idx by (auto simp: fan_inv_def ss)
  next
    case False
    have res: "fo_results ?s = (case ask idx of Some (cs, _) \<Rightarrow> (fo_results s)[idx := Some cs] | None \<Rightarrow> fo_results s)"
      "fo_errors ?s = fo_errors s @ provider_errors pid ask idx" "fo_workers ?s = fo_workers ?t"
      "fo_in_flight ?s = fo_in_flight ?t" "fo_max_seen ?s = fo_max_seen s" "fo_panicked ?s = fo_panicked s"
      "fo_cancelled ?s = fo_cancelled s"
      using False inv by (auto simp: s store_answer_def provider_errors_def fan_inv_def split: option.splits)
    have "\<exists>D. answered pid ask sel ?s D" if np: "\<not> fo_panicked s"
    proof -
      obtain D where "answered pid ask sel s D" using inv np unfolding fan_inv_def by blast
      from answered_next [OF this idx _ _ res(1,2)] pend False show ?thesis unfolding res(3) by auto
    qed
    moreover have "length (fo_results ?s) = length (fo_results s)" unfolding res(1) by (auto split: option.splits)
    ultimately show ?thesis using inv run pset by (auto simp: fan_inv_def res)
  qed
qed

lemma fan_inv_turn: "fan_inv pid ask sel co s \<Longrightarrow> fan_inv pid ask sel co (worker_turn pid ask (g, False) s)"
proof (cases "g < length (fo_workers s)")
  case True
  assume inv: "fan_inv pid ask sel co s"
  show ?thesis
  proof (cases "wk_running (fo_workers s ! g)")
    case None
    show ?thesis
    proof (cases "wk_queue (fo_workers s ! g)")
      case Nil
      with None True inv show ?thesis by (simp add: worker_turn_def Let_def)
    next
      case (Cons idx rest)
      show ?thesis by (rule fan_inv_start_turn [OF inv True None Cons])
    qed
  next
    case (Some idx)
    show ?thesis by (rule fan_inv_finish_turn [OF inv True Some])
  qed
qed (simp add: worker_turn_def)

lemma fan_inv_turns:
  "fan_inv pid ask sel co s \<Longrightarrow> list_all (\<lambda>(_, c). \<not> c) sched \<Longrightarrow> fan_inv pid ask sel co (fold (worker_turn pid ask) sched s)"
  by (induction sched arbitrary: s) (auto simp: fan_inv_turn)

lemma fan_inv_start:
  assumes "0 < co_max_parallelism co"
  shows "fan_inv pid ask sel co (fan_out_start co sel)"
proof -
  let ?n = "group_count co sel"
  have n: "0 < ?n" using assms by (simp add: group_count_def)
  have pend: "map worker_pending (fo_workers (fan_out_start co sel)) = provider_groups ?n sel"
    by (simp add: fan_out_start_def worker_pending_def comp_def)
  have run: "concat (map running_list (fo_workers (fan_out_start co sel))) = []"
    by (simp add: fan_out_start_def running_list_def comp_def)
  have "answered pid ask sel (fan_out_start co sel) []"
    unfolding answered_def pend using provider_groups_facts [OF n, of sel]
    by (simp add: fan_out_start_def map_replicate_const)
  moreover have "set (concat (provider_groups ?n sel)) = set sel"
    using provider_groups_facts(2) [OF n, of sel] by (metis set_mset_mset)
  ultimately show ?thesis
    unfolding fan_inv_def pend run using provider_groups_facts(1) [OF n, of sel] by (auto simp: fan_out_start_def)
qed

lemma done_answered:
  assumes "answered pid ask sel s D" "fan_out_done s"
  shows "set D = set sel" "mset (fo_errors s) = mset (concat (map (provider_errors pid ask) sel))"
    "\<forall>i \<in> set sel. ask i \<noteq> None \<longrightarrow> i < length sel"
    "fo_results s = map (\<lambda>i. if i \<in> set sel then map_option fst (ask i) else None) [0..<length sel]"
proof -
  have none: "concat (map worker_pending (fo_workers s)) = []" using assms(2) by (simp add: fan_out_done_def list_all_iff)
  have D: "mset D = mset sel" using assms(1) unfolding answered_def none by simp
  then show set: "set D = set sel" by (metis set_mset_mset)
  have "mset (concat (map f D)) = mset (concat (map f sel))" for f :: "nat \<Rightarrow> string list"
    using D by (simp add: mset_concat flip: sum_mset_sum_list)
  with assms(1) show "mset (fo_errors s) = mset (concat (map (provider_errors pid ask) sel))" by (simp add: answered_def)
  show "\<forall>i \<in> set sel. ask i \<noteq> None \<longrightarrow> i < length sel"
    "fo_results s = map (\<lambda>i. if i \<in> set sel then map_option fst (ask i) else None) [0..<length sel]"
    using assms(1) set by (simp_all add: answered_def)
qed

definition provider_commands :: "(nat \<Rightarrow> provider_answer) \<Rightarrow> nat \<Rightarrow> command list" where
  "provider_commands ask i = (case ask i of Some (cs, _) \<Rightarrow> cs | None \<Rightarrow> [])"

lemma selected_length: "length (selected_providers req co) \<le> length (co_ids co)"
  unfolding selected_providers_def by (metis length_filter_le diff_zero length_upt)

lemma merge_in_provider_order:
  assumes "sel = filter P [0..<N]" "\<forall>i \<in> set sel. ask i \<noteq> None \<longrightarrow> i < length sel"
  shows "concat (map (\<lambda>r. case r of Some cs \<Rightarrow> cs | None \<Rightarrow> [])
      (map (\<lambda>i. if i \<in> set sel then map_option fst (ask i) else None) [0..<length sel]))
    = concat (map (provider_commands ask) sel)"
proof -
  let ?n = "length sel"
  have "?n \<le> N" using assms(1) by (metis length_filter_le diff_zero length_upt)
  then have "[0..<N] = [0..<?n] @ [?n..<N]" using upt_add_eq_append [of 0 ?n "N - ?n"] by simp
  then have sel: "sel = filter P [0..<?n] @ filter P [?n..<N]" using assms(1) by (metis filter_append)
  have "provider_commands ask i = []" if "i \<in> set (filter P [?n..<N])" for i
    using that assms sel by (fastforce simp: provider_commands_def split: option.splits)
  then have "concat (map (provider_commands ask) (filter P [?n..<N])) = []" by simp
  then have "concat (map (provider_commands ask) sel) = concat (map (provider_commands ask) (filter P [0..<?n]))"
    by (subst sel) simp
  moreover have "concat (map (\<lambda>r. case r of Some cs \<Rightarrow> cs | None \<Rightarrow> [])
      (map (\<lambda>i. if i \<in> set sel then map_option fst (ask i) else None) xs)) = concat (map (provider_commands ask) (filter P xs))"
    if "set xs \<subseteq> {0..<N}" for xs
    using that assms(1) by (induction xs) (auto simp: provider_commands_def split: option.splits)
  ultimately show ?thesis using \<open>?n \<le> N\<close> by (simp only: set_upt atLeastLessThan_subset_iff) simp
qed

lemma search_inv:
  assumes "0 < co_max_parallelism co" "list_all (\<lambda>(_, cancel). \<not> cancel) sched"
  shows "fan_inv (\<lambda>i. co_ids co ! i) (\<lambda>i. ask i (parse_query U (sq_normalized (search_request_of U raw 100))))
    (selected_providers (search_request_of U raw 100) co) co (search_fan_out U ask raw sched co)"
  unfolding search_fan_out_def Let_def by (rule fan_inv_turns [OF fan_inv_start [OF assms(1)] assms(2)])

text \<open>C36: Orchestrated search is deterministic. Whatever order the worker threads run in, a search that is
  not cancelled merges the commands of the selected providers in provider order, reports the error of
  every provider that failed or panicked and of no other, is complete exactly when there is none, and
  never has more queries in flight than its parallelism. It panics exactly when a selected provider that
  answers has an index past the number of selected providers, whatever the interleaving.\<close>

theorem search_is_deterministic:
  assumes "0 < co_max_parallelism co" "list_all (\<lambda>(_, cancel). \<not> cancel) sched"
    and "fan_out_done (search_fan_out U ask raw sched co)"
  shows "let req = search_request_of U raw 100; q = parse_query U (sq_normalized req);
           sel = selected_providers req co; answer = (\<lambda>i. ask i q);
           errors = concat (map (provider_errors (\<lambda>i. co_ids co ! i) answer) sel)
         in case fst (coordinator_search U ask raw sched co) of
              None \<Rightarrow> \<exists>i \<in> set sel. length sel \<le> i \<and> answer i \<noteq> None
            | Some r \<Rightarrow> (\<forall>i \<in> set sel. answer i \<noteq> None \<longrightarrow> i < length sel)
                \<and> cr_commands r = concat (map (provider_commands answer) sel)
                \<and> mset (cr_errors r) = mset errors
                \<and> cr_state r = (if errors = [] then SearchComplete else SearchPartial)
                \<and> cr_max_in_flight r \<le> max (co_max_seen co) (co_in_flight co + co_max_parallelism co)"
proof -
  define q where "q = parse_query U (sq_normalized (search_request_of U raw 100))"
  define answer where "answer = (\<lambda>i. ask i q)"
  define pid where "pid = (\<lambda>i. co_ids co ! i)"
  define sel where "sel = selected_providers (search_request_of U raw 100) co"
  define s where "s = search_fan_out U ask raw sched co"
  have inv: "fan_inv pid answer sel co s"
    using search_inv [OF assms(1,2), where U = U and ask = ask and raw = raw] by (simp add: s_def pid_def answer_def q_def sel_def)
  have finished: "fan_out_done s" using assms(3) by (simp add: s_def)
  have res: "fst (coordinator_search U ask raw sched co) = fan_out_result s"
    by (simp add: coordinator_search_def s_def Let_def)
  let ?errors = "concat (map (provider_errors pid answer) sel)"
  have "case fan_out_result s of
      None \<Rightarrow> \<exists>i \<in> set sel. length sel \<le> i \<and> answer i \<noteq> None
    | Some r \<Rightarrow> (\<forall>i \<in> set sel. answer i \<noteq> None \<longrightarrow> i < length sel)
        \<and> cr_commands r = concat (map (provider_commands answer) sel) \<and> mset (cr_errors r) = mset ?errors
        \<and> cr_state r = (if ?errors = [] then SearchComplete else SearchPartial)
        \<and> cr_max_in_flight r \<le> max (co_max_seen co) (co_in_flight co + co_max_parallelism co)"
  proof (cases "fo_panicked s")
    case True
    with inv show ?thesis by (simp add: fan_out_result_def fan_inv_def)
  next
    case False
    then obtain D where D: "answered pid answer sel s D" using inv unfolding fan_inv_def by blast
    note facts = done_answered [OF D finished]
    have "fo_errors s = [] \<longleftrightarrow> ?errors = []" using facts(2) by (metis mset_zero_iff)
    moreover have "concat (map (\<lambda>r. case r of Some cs \<Rightarrow> cs | None \<Rightarrow> []) (fo_results s)) = concat (map (provider_commands answer) sel)"
      unfolding facts(4)
      by (rule merge_in_provider_order [OF _ facts(3)]) (simp add: sel_def selected_providers_def)
    moreover have "fo_max_seen s \<le> max (co_max_seen co) (co_in_flight co + co_max_parallelism co)" "\<not> fo_cancelled s"
      using inv by (auto simp: fan_inv_def group_count_def)
    ultimately show ?thesis using False facts(2,3) by (simp add: fan_out_result_def)
  qed
  then show ?thesis unfolding res Let_def answer_def q_def pid_def sel_def .
qed

definition two_providers :: coordinator where
  "two_providers = register_provider ''apps'' (register_provider ''files'' (coordinator_new 2))"

definition sample_answers :: "nat \<Rightarrow> query_context \<Rightarrow> provider_answer" where
  "sample_answers i q = (if i = 0 then None else Some ([calc_app], None))"

theorem search_is_deterministic_witness:
  "map_option cr_commands (fst (coordinator_search ascii_unicode sample_answers ''calc'' [(0, False), (1, False), (1, False), (0, False)] two_providers))
     = Some [calc_app]"
proof -
  let ?r = "coordinator_search ascii_unicode sample_answers ''calc'' [(0, False), (1, False), (1, False), (0, False)] two_providers"
  have ends: "fan_out_done (search_fan_out ascii_unicode sample_answers ''calc'' [(0, False), (1, False), (1, False), (0, False)] two_providers)"
    by code_simp
  have sel: "selected_providers (search_request_of ascii_unicode ''calc'' 100) two_providers = [0, 1]" by code_simp
  have max: "0 < co_max_parallelism two_providers" by code_simp
  show ?thesis
    using search_is_deterministic [OF max _ ends]
    by (cases "fst ?r") (simp_all add: sel Let_def sample_answers_def provider_commands_def)
qed

text \<open>Without a filter every provider is selected, and no answer panics.\<close>

lemma unfiltered_search_never_panics:
  assumes "sq_strategy (search_request_of U raw 100) = StrategyAll" "0 < co_max_parallelism co"
    "list_all (\<lambda>(_, cancel). \<not> cancel) sched"
  shows "fst (coordinator_search U ask raw sched co) \<noteq> None"
proof -
  have "selected_providers (search_request_of U raw 100) co = [0..<length (co_ids co)]"
    using assms(1) by (simp add: selected_providers_def intent_routes_to_def)
  then show ?thesis
    using search_inv [OF assms(2,3), where U = U and ask = ask and raw = raw] by (auto simp: fan_inv_def coordinator_search_def fan_out_result_def Let_def)
qed

text \<open>A filter that selects the second provider only makes the search panic.\<close>

lemma routed_search_panics:
  "fst (coordinator_search ascii_unicode sample_answers ''app:calc'' [(0, False), (0, False)] two_providers) = None"
  by code_simp

text \<open>The peak is kept across searches: a search that never has two queries in flight reports the peak of
  the one before.\<close>

lemma peak_is_never_reset:
  "let co = snd (coordinator_search ascii_unicode sample_answers ''calc'' [(0, False), (1, False), (1, False), (0, False)] two_providers)
   in map_option cr_max_in_flight (fst (coordinator_search ascii_unicode sample_answers ''calc'' [(0, False), (0, False), (1, False), (1, False)] co))
      = Some 2"
  by code_simp

end
