(* ===== verification/SearchCache.thy ===== *)
theory SearchCache
  imports Domain "HOL-Library.AList"
begin

text \<open>
  The query cache of \<open>launcher-search/src/cache.rs\<close>. The hash map is an association list with distinct
  keys; the clock is an argument, in milliseconds; byte counts are unbounded here (they stay below
  the budget, a \<open>usize\<close>).
\<close>

section \<open>Keys and entries\<close>

record cache_environment =
  cv_file :: "64 word"
  cv_application :: "64 word"
  cv_user :: "64 word"
  cv_context :: "64 word"
  cv_ranking :: "64 word"

record search_key =
  qk_query :: string
  qk_file :: "64 word"
  qk_application :: "64 word"
  qk_user :: "64 word"
  qk_context :: "64 word"
  qk_ranking :: "64 word"

definition search_key_new :: "(string \<Rightarrow> string) \<Rightarrow> string \<Rightarrow> cache_environment \<Rightarrow> search_key" where
  "search_key_new lower normalized env = \<lparr>qk_query = lower normalized,
     qk_file = cv_file env, qk_application = cv_application env, qk_user = cv_user env,
     qk_context = cv_context env, qk_ranking = cv_ranking env\<rparr>"

datatype cache_ttl = TtlComplete | TtlNegative

fun ttl_duration :: "cache_ttl \<Rightarrow> nat" where
  "ttl_duration TtlComplete = 60000"
| "ttl_duration TtlNegative = 5000"

record cache_entry =
  qe_results :: "command list"
  qe_inserted :: nat
  qe_ttl :: nat
  qe_bytes :: nat

text \<open>\<open>size_of::<Vec<_>>()\<close> is 24 on a 64-bit target.\<close>

definition estimate_bytes :: "command list \<Rightarrow> nat" where
  "estimate_bytes results =
     24 + sum_list (map (\<lambda>c. length (cmd_title c) + (case cmd_subtitle c of Some s \<Rightarrow> length s | None \<Rightarrow> 0) + 64) results)"

section \<open>The cache\<close>

record search_cache =
  qc_max_entries :: nat
  qc_max_bytes :: nat
  qc_entries :: "(search_key \<times> cache_entry) list"
  qc_order :: "search_key list"
  qc_used :: nat
  qc_hits :: "64 word"
  qc_misses :: "64 word"
  qc_stale :: "64 word"
  qc_evictions :: "64 word"

definition qc_new :: "nat \<Rightarrow> nat \<Rightarrow> search_cache" where
  "qc_new n b = \<lparr>qc_max_entries = max n 1, qc_max_bytes = max b 1, qc_entries = [], qc_order = [],
     qc_used = 0, qc_hits = 0, qc_misses = 0, qc_stale = 0, qc_evictions = 0\<rparr>"

definition qc_len :: "search_cache \<Rightarrow> nat" where
  "qc_len c = length (qc_entries c)"

definition qc_remove :: "search_key \<Rightarrow> search_cache \<Rightarrow> search_cache" where
  "qc_remove k c = (case map_of (qc_entries c) k of
     Some e \<Rightarrow> c\<lparr>qc_entries := AList.delete k (qc_entries c), qc_used := qc_used c - qe_bytes e,
       qc_order := filter (\<lambda>k'. k' \<noteq> k) (qc_order c)\<rparr>
   | None \<Rightarrow> c)"

definition qc_get :: "nat \<Rightarrow> search_key \<Rightarrow> search_cache \<Rightarrow> command list option \<times> search_cache" where
  "qc_get now k c = (case map_of (qc_entries c) k of
     Some e \<Rightarrow>
       if now - qe_inserted e \<ge> qe_ttl e then (None, (qc_remove k c)\<lparr>qc_stale := qc_stale c + 1\<rparr>)
       else (Some (qe_results e), c\<lparr>qc_hits := qc_hits c + 1\<rparr>)
   | None \<Rightarrow> (None, c\<lparr>qc_misses := qc_misses c + 1\<rparr>))"

text \<open>One turn of the eviction loop, for the oldest key.\<close>

definition evict_oldest :: "search_key \<Rightarrow> search_cache \<Rightarrow> search_cache" where
  "evict_oldest k c = (case map_of (qc_entries c) k of
     Some e \<Rightarrow> c\<lparr>qc_entries := AList.delete k (qc_entries c), qc_used := qc_used c - qe_bytes e,
       qc_evictions := qc_evictions c + 1\<rparr>
   | None \<Rightarrow> c)\<lparr>qc_order := tl (qc_order c)\<rparr>"

function evict_until_fit :: "nat \<Rightarrow> search_cache \<Rightarrow> search_cache" where
  "evict_until_fit bytes c =
     (if qc_used c + bytes > qc_max_bytes c \<or> qc_len c \<ge> qc_max_entries c
      then (case qc_order c of [] \<Rightarrow> c | k # _ \<Rightarrow> evict_until_fit bytes (evict_oldest k c))
      else c)"
  by pat_completeness auto
termination
  by (relation "measure (\<lambda>(b, c). length (qc_order c))") (auto simp: evict_oldest_def)

declare evict_until_fit.simps [simp del]

definition qc_put :: "nat \<Rightarrow> search_key \<Rightarrow> command list \<Rightarrow> cache_ttl \<Rightarrow> search_cache \<Rightarrow> bool \<times> search_cache" where
  "qc_put now k results ttl c =
     (let bytes = estimate_bytes results in
      if bytes > qc_max_bytes c div 4 then (False, c)
      else let c' = evict_until_fit bytes (qc_remove k c)
        in (True, c'\<lparr>qc_used := qc_used c' + bytes, qc_order := qc_order c' @ [k],
             qc_entries := AList.update k \<lparr>qe_results = results, qe_inserted = now,
               qe_ttl = ttl_duration ttl, qe_bytes = bytes\<rparr> (qc_entries c')\<rparr>))"

section \<open>The budgets hold\<close>

definition entry_bytes :: "(search_key \<times> cache_entry) list \<Rightarrow> nat" where
  "entry_bytes es = sum_list (map (qe_bytes \<circ> snd) es)"

text \<open>The order lists the keys of the map, each once; the used bytes are those of the entries; both
  budgets hold.\<close>

definition books_ok :: "search_cache \<Rightarrow> bool" where
  "books_ok c \<longleftrightarrow> distinct (map fst (qc_entries c)) \<and> distinct (qc_order c)
     \<and> set (qc_order c) = fst ` set (qc_entries c) \<and> qc_used c = entry_bytes (qc_entries c)
     \<and> 1 \<le> qc_max_entries c"

definition cache_inv :: "search_cache \<Rightarrow> bool" where
  "cache_inv c \<longleftrightarrow> books_ok c \<and> qc_len c \<le> qc_max_entries c \<and> qc_used c \<le> qc_max_bytes c"

lemma entry_bytes_delete:
  assumes "distinct (map fst es)" "map_of es k = Some e"
  shows "entry_bytes (AList.delete k es) = entry_bytes es - qe_bytes e" "qe_bytes e \<le> entry_bytes es"
    "length (AList.delete k es) = length es - 1"
  using assms
proof (induction es)
  case (Cons a es)
  obtain k' e' where a: "a = (k', e')" by (cases a)
  have gone: "k \<notin> fst ` set es \<Longrightarrow> AList.delete k es = es"
    by (induction es) (auto simp: AList.delete_eq)
  {
    case 1
    then show ?case using Cons.IH a gone by (auto simp: entry_bytes_def AList.delete_eq)
  next
    case 2
    then show ?case using Cons.IH a by (auto simp: entry_bytes_def split: if_splits)
  next
    case 3
    then show ?case using Cons.IH a gone by (cases es) (auto simp: AList.delete_eq split: if_splits)
  }
qed auto


lemma map_of_AList_delete: "map_of (AList.delete k es) k' = (if k' = k then None else map_of es k')"
  by (simp add: delete_conv)

lemma entry_keys_delete [simp]: "fst ` set (AList.delete k es) = fst ` set es - {k}"
  by (metis delete_keys set_map set_removeAll)

lemma distinct_keys_delete: "distinct (map fst es) \<Longrightarrow> distinct (map fst (AList.delete k es))"
  by (simp add: delete_keys distinct_removeAll)

lemma update_fresh: "k \<notin> fst ` set es \<Longrightarrow> AList.update k e es = es @ [(k, e)]"
  by (induction es) auto

lemma remove_None: "map_of (qc_entries c) k = None \<Longrightarrow> qc_remove k c = c"
  by (simp add: qc_remove_def)

lemma remove_frame [simp]:
  "qc_max_entries (qc_remove k c) = qc_max_entries c" "qc_max_bytes (qc_remove k c) = qc_max_bytes c"
  "map_of (qc_entries (qc_remove k c)) k' = (if k' = k then None else map_of (qc_entries c) k')"
  by (auto simp: qc_remove_def delete_conv split: option.split)

lemma books_remove: "books_ok c \<Longrightarrow> books_ok (qc_remove k c)"
  by (auto simp: books_ok_def qc_remove_def entry_bytes_delete distinct_keys_delete split: option.split)

lemma remove_smaller:
  assumes "books_ok c"
  shows "qc_len (qc_remove k c) \<le> qc_len c" "qc_used (qc_remove k c) \<le> qc_used c"
  using assms by (auto simp: qc_remove_def qc_len_def books_ok_def entry_bytes_delete split: option.split)

lemma books_evict:
  assumes "books_ok c" "qc_order c = k # ks"
  shows "books_ok (evict_oldest k c)" "map_of (qc_entries (evict_oldest k c)) k' = (if k' = k then None else map_of (qc_entries c) k')"
    "qc_max_entries (evict_oldest k c) = qc_max_entries c" "qc_max_bytes (evict_oldest k c) = qc_max_bytes c"
    "qc_order (evict_oldest k c) = ks"
proof -
  have "k \<in> fst ` set (qc_entries c)" using assms by (auto simp: books_ok_def)
  then obtain e where e: "map_of (qc_entries c) k = Some e" by (metis map_of_eq_None_iff not_None_eq)
  have "set ks = fst ` set (qc_entries c) - {k}" "distinct ks" using assms by (auto simp: books_ok_def)
  with assms e show "books_ok (evict_oldest k c)"
    by (simp add: books_ok_def evict_oldest_def entry_bytes_delete distinct_keys_delete)
  show "map_of (qc_entries (evict_oldest k c)) k' = (if k' = k then None else map_of (qc_entries c) k')"
    "qc_max_entries (evict_oldest k c) = qc_max_entries c" "qc_max_bytes (evict_oldest k c) = qc_max_bytes c"
    "qc_order (evict_oldest k c) = ks"
    using e assms(2) by (auto simp: evict_oldest_def delete_conv)
qed

lemma evict_until_fit_facts:
  assumes "books_ok c" "bytes \<le> qc_max_bytes c"
  shows "let c' = evict_until_fit bytes c in books_ok c' \<and> qc_used c' + bytes \<le> qc_max_bytes c'
    \<and> qc_len c' < qc_max_entries c' \<and> qc_max_bytes c' = qc_max_bytes c \<and> qc_max_entries c' = qc_max_entries c
    \<and> (\<exists>n. qc_order c' = drop n (qc_order c))
    \<and> (\<forall>k e. map_of (qc_entries c') k = Some e \<longrightarrow> map_of (qc_entries c) k = Some e)"
  using assms
proof (induction bytes c rule: evict_until_fit.induct)
  case (1 bytes c)
  show ?case
  proof (cases "qc_used c + bytes > qc_max_bytes c \<or> qc_len c \<ge> qc_max_entries c")
    case False
    then show ?thesis using 1(2) by (simp add: evict_until_fit.simps [of bytes c] Let_def exI [of _ 0])
  next
    case True
    show ?thesis
    proof (cases "qc_order c")
      case Nil
      with 1(2) have "qc_entries c = []" by (simp add: books_ok_def)
      with 1(2,3) True show ?thesis by (auto simp: books_ok_def entry_bytes_def qc_len_def)
    next
      case (Cons k ks)
      note ev = books_evict [OF 1(2) Cons]
      have "evict_until_fit bytes c = evict_until_fit bytes (evict_oldest k c)"
        using True Cons by (simp add: evict_until_fit.simps [of bytes c])
      moreover have "\<exists>n. drop m ks = drop n (qc_order c)" for m
        using Cons by (intro exI [of _ "Suc m"]) simp
      moreover have "map_of (qc_entries (evict_oldest k c)) k' = Some e \<Longrightarrow> map_of (qc_entries c) k' = Some e" for k' e
        by (simp add: ev(2) split: if_splits)
      ultimately show ?thesis
        using "1.IH" [OF True Cons ev(1)] 1(3) ev(3-5) by (auto simp: Let_def)
    qed
  qed
qed

lemma cache_inv_put: "cache_inv c \<Longrightarrow> cache_inv (snd (qc_put now k rs ttl c))"
proof -
  assume inv: "cache_inv c"
  show ?thesis
  proof (cases "estimate_bytes rs > qc_max_bytes c div 4")
    case True
    with inv show ?thesis by (simp add: qc_put_def)
  next
    case False
    let ?r = "qc_remove k c"
    define c' where "c' = evict_until_fit (estimate_bytes rs) ?r"
    have "books_ok ?r" using inv by (simp add: cache_inv_def books_remove)
    moreover have "estimate_bytes rs \<le> qc_max_bytes ?r" using False by simp
    ultimately have c': "books_ok c'" "qc_used c' + estimate_bytes rs \<le> qc_max_bytes c'" "qc_len c' < qc_max_entries c'"
      "\<forall>k e. map_of (qc_entries c') k = Some e \<longrightarrow> map_of (qc_entries ?r) k = Some e"
      using evict_until_fit_facts [of ?r "estimate_bytes rs"] by (simp_all add: Let_def c'_def)
    have new: "map_of (qc_entries c') k = None" using c'(4) by (metis option.exhaust remove_frame(3))
    then have fresh: "k \<notin> fst ` set (qc_entries c')" by (simp add: map_of_eq_None_iff)
    note upd = update_fresh [OF fresh]
    show ?thesis using False c'(1-3) fresh
      by (auto simp: qc_put_def Let_def c'_def [symmetric] cache_inv_def books_ok_def qc_len_def upd entry_bytes_def)
  qed
qed

lemma cache_inv_get: "cache_inv c \<Longrightarrow> cache_inv (snd (qc_get now k c))"
  using books_remove [of c k] remove_smaller [of c k]
  by (auto simp: qc_get_def cache_inv_def books_ok_def qc_len_def split: option.split)

lemma cache_inv_remove: "cache_inv c \<Longrightarrow> cache_inv (qc_remove k c)"
  using books_remove [of c k] remove_smaller [of c k] by (auto simp: cache_inv_def)

lemma cache_inv_new: "cache_inv (qc_new n b)"
  by (simp add: cache_inv_def books_ok_def qc_new_def entry_bytes_def qc_len_def)

section \<open>What a lookup returns\<close>

datatype cache_op = CachePut nat search_key "command list" cache_ttl | CacheGet nat search_key | CacheRemove search_key

fun cache_call :: "cache_op \<Rightarrow> search_cache \<Rightarrow> search_cache" where
  "cache_call (CachePut now k rs ttl) c = snd (qc_put now k rs ttl c)"
| "cache_call (CacheGet now k) c = snd (qc_get now k c)"
| "cache_call (CacheRemove k) c = qc_remove k c"

lemma cache_inv_call: "cache_inv c \<Longrightarrow> cache_inv (cache_call op c)"
  by (cases op) (simp_all add: cache_inv_put cache_inv_get cache_inv_remove)

lemma cache_inv_calls: "cache_inv c \<Longrightarrow> cache_inv (fold cache_call ops c)"
  by (induction ops arbitrary: c) (simp_all add: cache_inv_call)

text \<open>The specification: per key, the results, the time and the lifetime of the last accepted \<open>put\<close>.\<close>

fun last_put :: "nat \<Rightarrow> cache_op \<Rightarrow> (search_key \<rightharpoonup> command list \<times> nat \<times> nat) \<Rightarrow> (search_key \<rightharpoonup> command list \<times> nat \<times> nat)" where
  "last_put budget (CachePut now k rs ttl) m =
     (if estimate_bytes rs > budget div 4 then m else m(k \<mapsto> (rs, now, ttl_duration ttl)))"
| "last_put budget (CacheGet now k) m = m"
| "last_put budget (CacheRemove k) m = m(k := None)"

definition agrees :: "search_cache \<Rightarrow> (search_key \<rightharpoonup> command list \<times> nat \<times> nat) \<Rightarrow> bool" where
  "agrees c m \<longleftrightarrow> (\<forall>k e. map_of (qc_entries c) k = Some e \<longrightarrow> m k = Some (qe_results e, qe_inserted e, qe_ttl e))"

lemma put_entries:
  assumes "cache_inv c" "\<not> estimate_bytes rs > qc_max_bytes c div 4"
    "map_of (qc_entries (snd (qc_put now k rs ttl c))) k' = Some e"
  shows "(k' = k \<and> qe_results e = rs \<and> qe_inserted e = now \<and> qe_ttl e = ttl_duration ttl)
    \<or> (k' \<noteq> k \<and> map_of (qc_entries c) k' = Some e)"
proof -
  let ?r = "qc_remove k c"
  have "books_ok ?r" "estimate_bytes rs \<le> qc_max_bytes ?r"
    using assms(1,2) by (simp_all add: cache_inv_def books_remove)
  then have "map_of (qc_entries (evict_until_fit (estimate_bytes rs) ?r)) k' = Some e' \<Longrightarrow> map_of (qc_entries ?r) k' = Some e'" for e'
    using evict_until_fit_facts [of ?r "estimate_bytes rs"] by (auto simp: Let_def)
  with assms(2,3) show ?thesis by (auto simp: qc_put_def Let_def update_conv split: if_splits)
qed

lemma put_frame:
  "cache_inv c \<Longrightarrow> qc_max_bytes (snd (qc_put now k rs ttl c)) = qc_max_bytes c"
  using evict_until_fit_facts [of "qc_remove k c" "estimate_bytes rs"] books_remove [of c k]
  by (auto simp: qc_put_def Let_def cache_inv_def)

lemma agrees_call:
  assumes "cache_inv c" "agrees c m"
  shows "agrees (cache_call op c) (last_put (qc_max_bytes c) op m)" "qc_max_bytes (cache_call op c) = qc_max_bytes c"
proof -
  show "agrees (cache_call op c) (last_put (qc_max_bytes c) op m)"
  proof (cases op)
    case (CachePut now k rs ttl)
    show ?thesis
    proof (cases "estimate_bytes rs > qc_max_bytes c div 4")
      case True
      with CachePut assms(2) show ?thesis by (simp add: qc_put_def)
    next
      case False
      with CachePut assms(2) put_entries [OF assms(1) False] show ?thesis by (fastforce simp: agrees_def)
    qed
  qed (use assms(2) in \<open>auto simp: agrees_def qc_get_def split: option.splits if_splits\<close>)
  show "qc_max_bytes (cache_call op c) = qc_max_bytes c"
    using put_frame [OF assms(1)] by (cases op) (auto simp: qc_get_def split: option.split)
qed

lemma call_frame: "cache_inv c \<Longrightarrow> qc_max_entries (cache_call op c) = qc_max_entries c \<and> qc_max_bytes (cache_call op c) = qc_max_bytes c"
proof (cases op)
  case (CachePut now k rs ttl)
  assume "cache_inv c"
  with CachePut evict_until_fit_facts [of "qc_remove k c" "estimate_bytes rs"] books_remove [of c k]
  show ?thesis by (auto simp: qc_put_def Let_def cache_inv_def)
qed (auto simp: qc_get_def split: option.split)

lemma cache_calls_frame:
  "cache_inv c \<Longrightarrow> qc_max_entries (fold cache_call ops c) = qc_max_entries c"
  "cache_inv c \<Longrightarrow> qc_max_bytes (fold cache_call ops c) = qc_max_bytes c"
  by (induction ops arbitrary: c) (simp_all add: cache_inv_call call_frame)

lemma agrees_calls:
  "cache_inv c \<Longrightarrow> agrees c m \<Longrightarrow> agrees (fold cache_call ops c) (fold (last_put (qc_max_bytes c)) ops m)"
proof (induction ops arbitrary: c m)
  case (Cons op ops)
  from Cons.IH [OF cache_inv_call [OF Cons.prems(1)] agrees_call(1) [OF Cons.prems]] show ?case
    by (simp add: agrees_call(2) [OF Cons.prems])
qed simp

lemma get_after_calls:
  assumes "fst (qc_get now k (fold cache_call ops (qc_new n b))) = Some rs"
  shows "\<exists>t ttl. fold (last_put (max b 1)) ops Map.empty k = Some (rs, t, ttl) \<and> now - t < ttl"
proof -
  have start: "cache_inv (qc_new n b)" "agrees (qc_new n b) Map.empty" "qc_max_bytes (qc_new n b) = max b 1"
    using cache_inv_new by (auto simp: agrees_def qc_new_def)
  from assms obtain e where "map_of (qc_entries (fold cache_call ops (qc_new n b))) k = Some e"
    "rs = qe_results e" "now - qe_inserted e < qe_ttl e"
    by (auto simp: qc_get_def split: option.splits if_splits)
  with agrees_calls [OF start(1,2), of ops] start(3) show ?thesis by (auto simp: agrees_def)
qed

lemma get_after_put:
  assumes "cache_inv c" "estimate_bytes rs \<le> qc_max_bytes c div 4" "now' - now < ttl_duration ttl"
  shows "fst (qc_get now' k (snd (qc_put now k rs ttl c))) = Some rs"
  using assms(2,3) by (simp add: qc_put_def qc_get_def Let_def update_conv)

section \<open>How long an entry stays\<close>

text \<open>The bytes of a list of keys, and the keys from \<open>k\<close> on in the eviction order.\<close>

definition key_bytes :: "search_cache \<Rightarrow> search_key list \<Rightarrow> nat" where
  "key_bytes c ks = sum_list (map (\<lambda>k. case map_of (qc_entries c) k of Some e \<Rightarrow> qe_bytes e | None \<Rightarrow> 0) ks)"

lemma key_bytes_simps [simp]:
  "key_bytes c [] = 0"
  "key_bytes c (k # ks) = (case map_of (qc_entries c) k of Some e \<Rightarrow> qe_bytes e | None \<Rightarrow> 0) + key_bytes c ks"
  "key_bytes c (ks @ ks') = key_bytes c ks + key_bytes c ks'"
  by (simp_all add: key_bytes_def)

lemma key_bytes_cong: "(\<And>k. k \<in> set ks \<Longrightarrow> map_of (qc_entries c) k = map_of (qc_entries c') k)
    \<Longrightarrow> key_bytes c ks = key_bytes c' ks"
  unfolding key_bytes_def by (metis (mono_tags, lifting) map_eq_conv)

lemma key_bytes_filter: "key_bytes c (filter P ks) \<le> key_bytes c ks"
  by (induction ks) auto

lemma entry_bytes_keys:
  assumes "distinct (map fst es)" "distinct ks" "set ks = fst ` set es"
  shows "entry_bytes es = sum_list (map (\<lambda>k. case map_of es k of Some e \<Rightarrow> qe_bytes e | None \<Rightarrow> 0) ks)"
proof -
  let ?f = "\<lambda>k. case map_of es k of Some e \<Rightarrow> qe_bytes e | None \<Rightarrow> 0"
  have "?f (fst p) = qe_bytes (snd p)" if "p \<in> set es" for p
  proof -
    have "map_of es (fst p) = Some (snd p)" using assms(1) that by (simp add: map_of_is_SomeI)
    then show ?thesis by simp
  qed
  then have "entry_bytes es = sum_list (map ?f (map fst es))"
    unfolding entry_bytes_def by (simp add: comp_def cong: map_cong)
  also have "\<dots> = sum ?f (set (map fst es))" using assms(1) by (rule sum_list_distinct_conv_sum_set)
  also have "\<dots> = sum_list (map ?f ks)" using assms(2,3) by (simp add: sum_list_distinct_conv_sum_set)
  finally show ?thesis .
qed

lemma books_used: "books_ok c \<Longrightarrow> qc_used c = key_bytes c (qc_order c) \<and> qc_len c = length (qc_order c)"
proof -
  assume b: "books_ok c"
  have "length (qc_order c) = card (fst ` set (qc_entries c))"
    using b by (metis books_ok_def distinct_card)
  also have "\<dots> = length (qc_entries c)" using b by (metis books_ok_def distinct_card length_map list.set_map)
  finally show ?thesis using b entry_bytes_keys [of "qc_entries c" "qc_order c"]
    by (simp add: books_ok_def key_bytes_def qc_len_def)
qed

text \<open>The entry is there, and it and the entries put after it are at most \<open>n\<close> with at most \<open>b\<close> bytes.\<close>

definition kept :: "search_key \<Rightarrow> cache_entry \<Rightarrow> nat \<Rightarrow> nat \<Rightarrow> search_cache \<Rightarrow> bool" where
  "kept k e n b c \<longleftrightarrow> map_of (qc_entries c) k = Some e
     \<and> (\<exists>older newer. qc_order c = older @ k # newer \<and> Suc (length newer) \<le> n \<and> key_bytes c (k # newer) \<le> b)"

lemma keptE:
  assumes "kept k e n b c"
  obtains older newer where "map_of (qc_entries c) k = Some e" "qc_order c = older @ k # newer"
    "Suc (length newer) \<le> n" "key_bytes c (k # newer) \<le> b"
  using assms unfolding kept_def by blast

lemma kept_remove:
  assumes "kept k e n b c" "books_ok c" "k' \<noteq> k"
  shows "kept k e n b (qc_remove k' c)"
proof (cases "map_of (qc_entries c) k'")
  case None
  then show ?thesis using assms(1) by (simp add: remove_None)
next
  case (Some e')
  from assms(1) obtain older newer where k: "map_of (qc_entries c) k = Some e" "qc_order c = older @ k # newer"
    "Suc (length newer) \<le> n" "key_bytes c (k # newer) \<le> b" by (rule keptE)
  let ?rest = "filter (\<lambda>x. x \<noteq> k') newer"
  have "qc_order (qc_remove k' c) = filter (\<lambda>x. x \<noteq> k') older @ k # ?rest"
    using Some k(2) assms(3) by (simp add: qc_remove_def)
  moreover have "key_bytes (qc_remove k' c) (k # ?rest) = key_bytes c (k # ?rest)"
    using assms(3) by (intro key_bytes_cong) auto
  moreover have "key_bytes c (k # ?rest) \<le> key_bytes c (k # newer)" by (simp add: key_bytes_filter)
  moreover have "length ?rest \<le> length newer" by simp
  ultimately show ?thesis unfolding kept_def using k assms(3)
    by (intro conjI exI [of _ "filter (\<lambda>x. x \<noteq> k') older"] exI [of _ ?rest]) (simp_all del: length_filter_le)
qed

lemma kept_evict:
  assumes "kept k e n b c" "books_ok c" "n < qc_max_entries c" "b + bytes \<le> qc_max_bytes c"
  shows "kept k e n b (evict_until_fit bytes c)"
  using assms
proof (induction bytes c rule: evict_until_fit.induct)
  case (1 bytes c)
  from "1.prems"(1) obtain older newer where k: "map_of (qc_entries c) k = Some e" "qc_order c = older @ k # newer"
    "Suc (length newer) \<le> n" "key_bytes c (k # newer) \<le> b" by (rule keptE)
  show ?case
  proof (cases "qc_used c + bytes > qc_max_bytes c \<or> qc_len c \<ge> qc_max_entries c")
    case False
    then show ?thesis using "1.prems"(1) by (simp add: evict_until_fit.simps [of bytes c])
  next
    case full: True
    then have "older \<noteq> []" using books_used [OF "1.prems"(2)] k "1.prems"(3,4) by auto
    then obtain x rest where x: "older = x # rest" by (cases older) auto
    then have ord: "qc_order c = x # rest @ k # newer" using k(2) by simp
    note ev = books_evict [OF "1.prems"(2) ord]
    have new: "x \<noteq> k" "x \<notin> set newer" using "1.prems"(2) ord by (auto simp: books_ok_def)
    have "key_bytes (evict_oldest x c) (k # newer) = key_bytes c (k # newer)"
      using new ev(2) by (intro key_bytes_cong) auto
    then have "kept k e n b (evict_oldest x c)" unfolding kept_def using k new ev(2,5)
      by (intro conjI exI [of _ rest] exI [of _ newer]) simp_all
    from "1.IH" [OF full ord this ev(1)] "1.prems"(3,4) ev(3,4) full ord show ?thesis
      by (simp add: evict_until_fit.simps [of bytes c])
  qed
qed

lemma kept_put:
  assumes "kept k e n b c" "cache_inv c" "k' \<noteq> k" "\<not> estimate_bytes rs > qc_max_bytes c div 4"
    and "n < qc_max_entries c" "b + estimate_bytes rs \<le> qc_max_bytes c"
  shows "kept k e (Suc n) (b + estimate_bytes rs) (snd (qc_put now k' rs ttl c))"
proof -
  let ?r = "qc_remove k' c"
  define c' where "c' = evict_until_fit (estimate_bytes rs) ?r"
  have books: "books_ok ?r" using assms(2) by (simp add: cache_inv_def books_remove)
  have "kept k e n b ?r" using assms(1-3) by (intro kept_remove) (simp_all add: cache_inv_def)
  then have "kept k e n b c'" unfolding c'_def using books assms(5,6) by (intro kept_evict) simp_all
  then obtain older newer where k: "map_of (qc_entries c') k = Some e" "qc_order c' = older @ k # newer"
    "Suc (length newer) \<le> n" "key_bytes c' (k # newer) \<le> b" by (rule keptE)
  have c': "books_ok c'" "\<And>x e. map_of (qc_entries c') x = Some e \<Longrightarrow> map_of (qc_entries ?r) x = Some e"
    using evict_until_fit_facts [OF books, of "estimate_bytes rs"] assms(4) by (auto simp: Let_def c'_def)
  have "map_of (qc_entries c') k' = None" using c'(2) [of k'] by (cases "map_of (qc_entries c') k'") auto
  then have "k' \<notin> set (qc_order c')" using c'(1) by (simp add: books_ok_def map_of_eq_None_iff)
  then have fresh: "k' \<notin> set newer" using k(2) by simp
  let ?d = "snd (qc_put now k' rs ttl c)"
  have d: "qc_order ?d = older @ k # (newer @ [k'])" "\<And>x. map_of (qc_entries ?d) x = (if x = k' then
      Some \<lparr>qe_results = rs, qe_inserted = now, qe_ttl = ttl_duration ttl, qe_bytes = estimate_bytes rs\<rparr>
      else map_of (qc_entries c') x)"
    using assms(4) k(2) by (simp_all add: qc_put_def Let_def c'_def update_conv)
  have "key_bytes ?d (k # newer) = key_bytes c' (k # newer)"
    using d(2) fresh assms(3) by (intro key_bytes_cong) auto
  then have "key_bytes ?d (k # newer @ [k']) \<le> b + estimate_bytes rs" using k(4) d(2) by simp
  then show ?thesis unfolding kept_def using k(1,3) d assms(3) by (intro conjI exI) auto
qed

text \<open>Calls that leave the entry alone: they neither put nor remove its key, nor look it up when its
  lifetime is over. The bytes of the accepted puts among them.\<close>

fun spares :: "search_key \<Rightarrow> nat \<Rightarrow> nat \<Rightarrow> cache_op \<Rightarrow> bool" where
  "spares k now life (CachePut t k' rs ttl) = (k' \<noteq> k)"
| "spares k now life (CacheGet t k') = (k' = k \<longrightarrow> t - now < life)"
| "spares k now life (CacheRemove k') = (k' \<noteq> k)"

fun put_bytes :: "nat \<Rightarrow> cache_op list \<Rightarrow> nat list" where
  "put_bytes budget [] = []"
| "put_bytes budget (CachePut t k rs ttl # ops) =
     (if estimate_bytes rs > budget div 4 then put_bytes budget ops
      else estimate_bytes rs # put_bytes budget ops)"
| "put_bytes budget (_ # ops) = put_bytes budget ops"

lemma kept_counters [simp]:
  "kept k e n b (c\<lparr>qc_hits := x\<rparr>) = kept k e n b c" "kept k e n b (c\<lparr>qc_misses := x\<rparr>) = kept k e n b c"
  "kept k e n b (c\<lparr>qc_stale := x\<rparr>) = kept k e n b c"
  by (simp_all add: kept_def key_bytes_def)

lemma kept_get:
  assumes "kept k e n b c" "books_ok c" "k' = k \<longrightarrow> t - qe_inserted e < qe_ttl e"
  shows "kept k e n b (snd (qc_get t k' c))"
proof (cases "k' = k")
  case True
  with assms have "map_of (qc_entries c) k' = Some e" by (simp add: kept_def)
  with True assms show ?thesis by (simp add: qc_get_def)
next
  case False
  with kept_remove [OF assms(1,2) False] assms(1) show ?thesis by (simp add: qc_get_def split: option.split)
qed

lemma kept_calls:
  assumes "kept k e n b c" "cache_inv c" "list_all (spares k (qe_inserted e) (qe_ttl e)) ops"
    and "n + length (put_bytes (qc_max_bytes c) ops) \<le> qc_max_entries c"
    and "b + sum_list (put_bytes (qc_max_bytes c) ops) \<le> qc_max_bytes c"
  shows "map_of (qc_entries (fold cache_call ops c)) k = Some e"
  using assms
proof (induction ops arbitrary: n b c)
  case Nil
  then show ?case by (simp add: kept_def)
next
  case (Cons op ops)
  let ?c = "cache_call op c"
  note frame = call_frame [OF Cons.prems(2), of op] cache_inv_call [OF Cons.prems(2), of op]
  show ?case
  proof (cases op)
    case (CachePut t k' rs ttl)
    show ?thesis
    proof (cases "estimate_bytes rs > qc_max_bytes c div 4")
      case True
      then have "?c = c" using CachePut by (simp add: qc_put_def)
      with Cons CachePut True show ?thesis by simp
    next
      case False
      have "kept k e (Suc n) (b + estimate_bytes rs) ?c"
        using kept_put [OF Cons.prems(1,2), of k' rs t ttl] False CachePut Cons.prems(3-5) by simp
      from Cons.IH [OF this frame(2)] frame(1) False CachePut Cons.prems(3-5) show ?thesis by simp
    qed
  next
    case (CacheGet t k')
    have "kept k e n b ?c"
      using kept_get [OF Cons.prems(1)] Cons.prems(2,3) CacheGet by (simp add: cache_inv_def)
    from Cons.IH [OF this frame(2)] frame(1) CacheGet Cons.prems(3-5) show ?thesis by simp
  next
    case (CacheRemove k')
    have "kept k e n b ?c"
      using kept_remove [OF Cons.prems(1)] Cons.prems(2,3) CacheRemove by (simp add: cache_inv_def)
    from Cons.IH [OF this frame(2)] frame(1) CacheRemove Cons.prems(3-5) show ?thesis by simp
  qed
qed

lemma get_after_sparing_calls:
  assumes inv: "cache_inv c" and fits: "estimate_bytes rs \<le> qc_max_bytes c div 4"
    and time: "now' - now < ttl_duration ttl" and spare: "list_all (spares k now (ttl_duration ttl)) later"
    and room: "Suc (length (put_bytes (qc_max_bytes c) later)) \<le> qc_max_entries c"
      "estimate_bytes rs + sum_list (put_bytes (qc_max_bytes c) later) \<le> qc_max_bytes c"
  shows "fst (qc_get now' k (fold cache_call later (snd (qc_put now k rs ttl c)))) = Some rs"
proof -
  let ?e = "\<lparr>qe_results = rs, qe_inserted = now, qe_ttl = ttl_duration ttl, qe_bytes = estimate_bytes rs\<rparr>"
  let ?d = "snd (qc_put now k rs ttl c)"
  have "kept k ?e 1 (estimate_bytes rs) ?d"
    using fits by (auto simp: kept_def qc_put_def Let_def update_conv)
  moreover have "cache_inv ?d" by (rule cache_inv_put [OF inv])
  moreover have "qc_max_entries ?d = qc_max_entries c" "qc_max_bytes ?d = qc_max_bytes c"
    using call_frame [OF inv, of "CachePut now k rs ttl"] by simp_all
  ultimately have "map_of (qc_entries (fold cache_call later ?d)) k = Some ?e"
    using spare room by (intro kept_calls [where n = 1 and b = "estimate_bytes rs"]) simp_all
  with time show ?thesis by (simp add: qc_get_def)
qed

section \<open>Which entry goes first\<close>

definition plain_key :: "string \<Rightarrow> search_key" where
  "plain_key s = search_key_new id s \<lparr>cv_file = 0, cv_application = 0, cv_user = 0, cv_context = 0, cv_ranking = 0\<rparr>"

text \<open>A cache of two entries: \<open>a\<close> is put first, then \<open>b\<close>, then \<open>a\<close> is used, then \<open>c\<close> is put.\<close>

definition reuse_cache :: search_cache where
  "reuse_cache = fold cache_call [CachePut 0 (plain_key ''a'') [] TtlComplete, CachePut 1 (plain_key ''b'') [] TtlComplete,
     CacheGet 2 (plain_key ''a''), CachePut 3 (plain_key ''c'') [] TtlComplete] (qc_new 2 1000)"

lemma reuse_cache_result:
  "qc_hits reuse_cache = 1" "fst (qc_get 4 (plain_key ''a'') reuse_cache) = None"
  "fst (qc_get 4 (plain_key ''b'') reuse_cache) = Some []" "fst (qc_get 4 (plain_key ''c'') reuse_cache) = Some []"
  by (simp_all add: reuse_cache_def plain_key_def search_key_new_def qc_new_def qc_put_def qc_get_def qc_remove_def
      qc_len_def evict_oldest_def evict_until_fit.simps estimate_bytes_def)

text \<open>C37: The cache refines a table of last writes. After any sequence of puts, lookups and removals on a
  new cache, the entries and their bytes are within the budgets and the byte count is exact; a lookup
  returns only the results of the last accepted put under that very key, and only before their lifetime
  has passed. A put of at most a quarter of the byte budget is found by a lookup right after it, and
  still after any later calls, until its lifetime has passed, provided these calls do not put or remove
  its key (nor look it up when its lifetime is over) and the accepted puts among them fit into both
  budgets together with it. Later puts beyond the budgets evict it (\<open>reuse_cache_result\<close>).\<close>

theorem cache_refines_last_put:
  "let c = fold cache_call ops (qc_new n b) in
     qc_len c \<le> max n 1 \<and> qc_used c \<le> max b 1 \<and> qc_used c = entry_bytes (qc_entries c)
     \<and> (\<forall>now k rs. fst (qc_get now k c) = Some rs \<longrightarrow>
          (\<exists>t ttl. fold (last_put (max b 1)) ops Map.empty k = Some (rs, t, ttl) \<and> now - t < ttl))
     \<and> (\<forall>now now' k rs ttl. estimate_bytes rs \<le> max b 1 div 4 \<longrightarrow> now' - now < ttl_duration ttl \<longrightarrow>
          fst (qc_get now' k (snd (qc_put now k rs ttl c))) = Some rs)
     \<and> (\<forall>now now' k rs ttl later. estimate_bytes rs \<le> max b 1 div 4 \<longrightarrow> now' - now < ttl_duration ttl \<longrightarrow>
          list_all (spares k now (ttl_duration ttl)) later \<longrightarrow>
          Suc (length (put_bytes (max b 1) later)) \<le> max n 1 \<longrightarrow>
          estimate_bytes rs + sum_list (put_bytes (max b 1) later) \<le> max b 1 \<longrightarrow>
          fst (qc_get now' k (fold cache_call later (snd (qc_put now k rs ttl c)))) = Some rs)"
proof -
  let ?c = "fold cache_call ops (qc_new n b)"
  have inv: "cache_inv ?c" by (rule cache_inv_calls [OF cache_inv_new])
  have size: "qc_max_entries ?c = max n 1" "qc_max_bytes ?c = max b 1"
    using cache_calls_frame [OF cache_inv_new] by (simp_all add: qc_new_def)
  have "qc_len ?c \<le> max n 1 \<and> qc_used ?c \<le> max b 1 \<and> qc_used ?c = entry_bytes (qc_entries ?c)"
    using inv size by (simp add: cache_inv_def books_ok_def)
  then show ?thesis
    using get_after_calls [of _ _ ops n b] get_after_put [OF inv] get_after_sparing_calls [OF inv]
    unfolding Let_def size by (intro conjI allI impI) simp_all
qed

theorem cache_refines_last_put_witness:
  "(\<exists>t ttl. fold (last_put 1000) [CachePut 0 (plain_key ''a'') [] TtlComplete] Map.empty (plain_key ''a'') = Some ([], t, ttl)
    \<and> 4 - t < ttl)
    \<and> fst (qc_get 4 (plain_key ''a'') (fold cache_call [CachePut 2 (plain_key ''b'') [] TtlComplete]
         (snd (qc_put 1 (plain_key ''a'') [] TtlComplete (qc_new 2 1000))))) = Some []"
proof
  have "fst (qc_get 4 (plain_key ''a'') (fold cache_call [CachePut 0 (plain_key ''a'') [] TtlComplete] (qc_new 2 1000))) = Some []"
    by (simp add: plain_key_def search_key_new_def qc_new_def qc_put_def qc_get_def qc_remove_def
        qc_len_def evict_until_fit.simps estimate_bytes_def)
  with cache_refines_last_put [of "[CachePut 0 (plain_key ''a'') [] TtlComplete]" 2 1000]
  show "\<exists>t ttl. fold (last_put 1000) [CachePut 0 (plain_key ''a'') [] TtlComplete] Map.empty (plain_key ''a'') = Some ([], t, ttl)
    \<and> 4 - t < ttl" unfolding Let_def by simp
  have "\<forall>now now' k rs ttl later. estimate_bytes rs \<le> max 1000 1 div 4 \<longrightarrow> now' - now < ttl_duration ttl \<longrightarrow>
          list_all (spares k now (ttl_duration ttl)) later \<longrightarrow>
          Suc (length (put_bytes (max 1000 1) later)) \<le> max 2 1 \<longrightarrow>
          estimate_bytes rs + sum_list (put_bytes (max 1000 1) later) \<le> max 1000 1 \<longrightarrow>
          fst (qc_get now' k (fold cache_call later (snd (qc_put now k rs ttl (qc_new 2 1000))))) = Some rs"
    using cache_refines_last_put [of "[]" 2 1000] unfolding Let_def fold_simps(1) id_apply by blast
  from this [THEN spec [of _ 1], THEN spec [of _ 4], THEN spec [of _ "plain_key ''a''"], THEN spec [of _ "[]"],
      THEN spec [of _ TtlComplete], THEN spec [of _ "[CachePut 2 (plain_key ''b'') [] TtlComplete]"]]
  show "fst (qc_get 4 (plain_key ''a'') (fold cache_call [CachePut 2 (plain_key ''b'') [] TtlComplete]
         (snd (qc_put 1 (plain_key ''a'') [] TtlComplete (qc_new 2 1000))))) = Some []"
    by (simp add: estimate_bytes_def plain_key_def search_key_new_def)
qed

end
