(* ===== verification/WfExpr.thy ===== *)
theory WfExpr
  imports Domain
begin

text \<open>
  The workflow expression language (\<open>launcher-domain/src/expr.rs\<close>): values, tokenizer, recursive
  descent parser and evaluator. What the tokenizer takes from Unicode and from decimal conversion is
  the record \<open>rust_text\<close>. The parser's depth counter, which goes up to \<open>MAX_DEPTH\<close> and comes back
  after each level, is the remaining depth that the recursion decreases.
\<close>

section \<open>Values\<close>

text \<open>An object is a \<open>BTreeMap\<close>: its members, keys distinct and sorted.\<close>

datatype wvalue = VNull | VBool bool | VNumber f64 | VString string | VArray "wvalue list"
  | VObject "(string \<times> wvalue) list"

fun type_name :: "wvalue \<Rightarrow> string" where
  "type_name VNull = ''null''"
| "type_name (VBool _) = ''bool''"
| "type_name (VNumber _) = ''number''"
| "type_name (VString _) = ''string''"
| "type_name (VArray _) = ''array''"
| "type_name (VObject _) = ''object''"

fun value_from_json :: "json \<Rightarrow> wvalue" where
  "value_from_json JNull = VNull"
| "value_from_json (JBool b) = VBool b"
| "value_from_json (JNumber n) = VNumber (number_as_f64 n)"
| "value_from_json (JString s) = VString s"
| "value_from_json (JArray a) = VArray (map value_from_json a)"
| "value_from_json (JObject m) = VObject (map (\<lambda>(k, v). (k, value_from_json v)) m)"

text \<open>\<open>Number::from_f64\<close> refuses the values JSON has no notation for.\<close>

definition number_from_f64 :: "f64 \<Rightarrow> json_number" where
  "number_from_f64 x = (case x of Fin _ \<Rightarrow> JFloat x | _ \<Rightarrow> PosInt 0)"

fun value_to_json :: "wvalue \<Rightarrow> json" where
  "value_to_json VNull = JNull"
| "value_to_json (VBool b) = JBool b"
| "value_to_json (VNumber n) = JNumber (number_from_f64 n)"
| "value_to_json (VString s) = JString s"
| "value_to_json (VArray a) = JArray (map value_to_json a)"
| "value_to_json (VObject m) = JObject (map (\<lambda>(k, v). (k, value_to_json v)) m)"

fun finite_value :: "wvalue \<Rightarrow> bool" where
  "finite_value (VNumber n) = (\<exists>q. n = Fin q)"
| "finite_value (VArray a) = list_all finite_value a"
| "finite_value (VObject m) = list_all (\<lambda>(k, v). finite_value v) m"
| "finite_value _ = True"

lemma value_json_roundtrip: "finite_value v \<Longrightarrow> value_from_json (value_to_json v) = v"
proof (induction v rule: finite_value.induct)
  case (3 m)
  then have "map (\<lambda>(k, v). (k, value_from_json (value_to_json v))) m = m"
    by (intro map_idI) (auto simp: list_all_iff)
  then show ?case by (simp add: comp_def case_prod_unfold)
qed (auto simp: number_from_f64_def list_all_iff comp_def intro: map_idI)

fun values_equal :: "wvalue \<Rightarrow> wvalue \<Rightarrow> bool"
  and lists_equal :: "wvalue list \<Rightarrow> wvalue list \<Rightarrow> bool"
  and members_in :: "(string \<times> wvalue) list \<Rightarrow> (string \<times> wvalue) list \<Rightarrow> bool" where
  "values_equal VNull VNull = True"
| "values_equal (VBool x) (VBool y) = (x = y)"
| "values_equal (VNumber x) (VNumber y) = f64_eq x y"
| "values_equal (VString x) (VString y) = (x = y)"
| "values_equal (VArray x) (VArray y) = (length x = length y \<and> lists_equal x y)"
| "values_equal (VObject x) (VObject y) = (length x = length y \<and> members_in x y)"
| "values_equal _ _ = False"
| "lists_equal (x # xs) (y # ys) = (values_equal x y \<and> lists_equal xs ys)"
| "lists_equal _ _ = True"
| "members_in [] y = True"
| "members_in ((k, v) # x) y = ((case map_of y k of Some w \<Rightarrow> values_equal v w | None \<Rightarrow> False) \<and> members_in x y)"

text \<open>\<open>walk_path\<close>; \<open>str::parse::<usize>\<close> of an index is an optional plus sign and digits, in range.\<close>

definition parse_usize :: "string \<Rightarrow> nat option" where
  "parse_usize s =
     (let d = (case s of c # r \<Rightarrow> if c = CHR ''+'' then r else s | [] \<Rightarrow> []) in
      if d \<noteq> [] \<and> list_all (\<lambda>c. 48 \<le> byte c \<and> byte c \<le> 57) d \<and> str_nat d < 2 ^ 64 then Some (str_nat d) else None)"

fun walk_segments :: "wvalue \<Rightarrow> string list \<Rightarrow> wvalue option" where
  "walk_segments v [] = Some v"
| "walk_segments (VObject m) (s # ss) = (case map_of m s of Some w \<Rightarrow> walk_segments w ss | None \<Rightarrow> None)"
| "walk_segments (VArray a) (s # ss) = (case parse_usize s of
     Some i \<Rightarrow> (if i < length a then walk_segments (a ! i) ss else None) | None \<Rightarrow> None)"
| "walk_segments _ (s # ss) = None"

definition walk_path :: "wvalue \<Rightarrow> string \<Rightarrow> wvalue option" where
  "walk_path v path = walk_segments v (split_on (\<lambda>c. c = CHR ''.'') path)"

section \<open>Expressions\<close>

datatype wexpr =
    ELit wvalue | ERef string
  | EEq wexpr wexpr | ENe wexpr wexpr | ELt wexpr wexpr | ELe wexpr wexpr | EGt wexpr wexpr | EGe wexpr wexpr
  | EContains wexpr wexpr | EStartsWith wexpr wexpr | EEndsWith wexpr wexpr
  | EExists wexpr | ENot wexpr | EAnd wexpr wexpr | EOr wexpr wexpr

datatype expr_error = ParseError string | TooDeep nat | TypeMismatch string string | UnknownRef string
  | OutputPathNotFound string

definition MAX_DEPTH :: nat where "MAX_DEPTH = 32"

datatype token = TIdent string | TRef string | TStr string | TNumber f64 | TSym string

record rust_text =
  alphabetic :: "string \<Rightarrow> bool"
  alphanumeric :: "string \<Rightarrow> bool"
  read_f64 :: "string \<Rightarrow> f64 option"

section \<open>The tokenizer\<close>

definition ascii_digit :: "string \<Rightarrow> bool" where
  "ascii_digit ch \<longleftrightarrow> (case ch of [b] \<Rightarrow> 48 \<le> byte b \<and> byte b \<le> 57 | _ \<Rightarrow> False)"

definition number_char :: "string \<Rightarrow> bool" where
  "number_char ch \<longleftrightarrow> ascii_digit ch \<or> ch = ''.''"

definition word_start :: "rust_text \<Rightarrow> string \<Rightarrow> bool" where
  "word_start T ch \<longleftrightarrow> alphabetic T ch \<or> ch = ''_''"

definition word_char :: "rust_text \<Rightarrow> string \<Rightarrow> bool" where
  "word_char T ch \<longleftrightarrow> alphanumeric T ch \<or> ch = ''_'' \<or> ch = ''.''"

lemma length_dropWhile_pred [simp]: "length (dropWhile P s) - Suc 0 < Suc (length s)"
  using length_dropWhile_le [of P s] by simp

function tokenize :: "rust_text \<Rightarrow> string list \<Rightarrow> expr_error + token list" where
  "tokenize T [] = Ok []"
| "tokenize T (c # cs) =
     (if c \<in> {'' '', [CHR 0x09], [CHR 0x0A], [CHR 0x0D]} then tokenize T cs
      else if c = ''('' \<or> c = '')'' then map_sum id (Cons (TSym c)) (tokenize T cs)
      else if c = ''='' \<or> c = ''!'' then
        (case cs of d # ds \<Rightarrow>
            if d = ''='' then map_sum id (Cons (TSym (c @ ''=''))) (tokenize T ds)
            else Err (ParseError (''expected '' @ c @ ''=''))
         | [] \<Rightarrow> Err (ParseError (''expected '' @ c @ ''='')))
      else if c = ''<'' \<or> c = ''>'' then
        (case cs of d # ds \<Rightarrow>
            if d = ''='' then map_sum id (Cons (TSym (c @ ''=''))) (tokenize T ds)
            else map_sum id (Cons (TSym c)) (tokenize T cs)
         | [] \<Rightarrow> map_sum id (Cons (TSym c)) (tokenize T cs))
      else if c = [CHR 0x22] then
        (let s = takeWhile (\<lambda>d. d \<noteq> [CHR 0x22]) cs; rest = drop 1 (dropWhile (\<lambda>d. d \<noteq> [CHR 0x22]) cs)
         in map_sum id (Cons (TStr (concat s))) (tokenize T rest))
      else if ascii_digit c then
        (let s = concat (takeWhile number_char (c # cs)) in
         case read_f64 T s of
           None \<Rightarrow> Err (ParseError (''bad number '' @ s))
         | Some n \<Rightarrow> map_sum id (Cons (TNumber n)) (tokenize T (dropWhile number_char cs)))
      else if word_start T c then
        (let s = concat (c # takeWhile (word_char T) cs)
         in map_sum id (Cons (if CHR ''.'' \<in> set s then TRef s else TIdent s))
              (tokenize T (dropWhile (word_char T) cs)))
      else Err (ParseError (''unexpected character '' @ c)))"
  by pat_completeness auto
termination
  by (relation "measure (\<lambda>(T, cs). length cs)") auto

section \<open>The parser\<close>

type_synonym 'a parse = "expr_error + 'a \<times> token list"

definition peek_ident :: "string \<Rightarrow> token list \<Rightarrow> bool" where
  "peek_ident w toks \<longleftrightarrow> (case toks of t # _ \<Rightarrow> t = TIdent w | [] \<Rightarrow> False)"

text \<open>The loops of \<open>or_expr\<close> and \<open>and_expr\<close>: operands parsed by \<open>p\<close>, joined from the left. The test
  on the length holds for every \<open>p\<close> of the parser (\<open>not_expr_shorter\<close>).\<close>

function op_chain :: "(token list \<Rightarrow> wexpr parse) \<Rightarrow> string \<Rightarrow> (wexpr \<Rightarrow> wexpr \<Rightarrow> wexpr) \<Rightarrow> wexpr \<Rightarrow>
    token list \<Rightarrow> wexpr parse" where
  "op_chain p w f left toks =
     (if peek_ident w toks then
        (case p (tl toks) of
           Inl e \<Rightarrow> Err e
         | Inr (right, toks') \<Rightarrow>
             if length toks' < length toks then op_chain p w f (f left right) toks' else Ok (f left right, toks'))
      else Ok (left, toks))"
  by pat_completeness auto
termination
  by (relation "measure (\<lambda>(p, w, f, left, toks). length toks)") auto

declare op_chain.simps [simp del]

definition and_expr :: "(token list \<Rightarrow> wexpr parse) \<Rightarrow> token list \<Rightarrow> wexpr parse" where
  "and_expr nt toks = (case nt toks of Inl e \<Rightarrow> Err e | Inr (left, toks') \<Rightarrow> op_chain nt ''and'' EAnd left toks')"

definition or_expr :: "(token list \<Rightarrow> wexpr parse) \<Rightarrow> token list \<Rightarrow> wexpr parse" where
  "or_expr nt toks =
     (case and_expr nt toks of Inl e \<Rightarrow> Err e | Inr (left, toks') \<Rightarrow> op_chain (and_expr nt) ''or'' EOr left toks')"

fun token_name :: "token \<Rightarrow> string" where
  "token_name (TIdent w) = w" | "token_name (TRef w) = w" | "token_name (TStr w) = w"
| "token_name (TNumber _) = ''number''" | "token_name (TSym w) = w"

text \<open>The error text of an unexpected token is Rust's debug output; only its first words are kept.\<close>

definition primary_expr :: "(token list \<Rightarrow> wexpr parse) \<Rightarrow> token list \<Rightarrow> wexpr parse" where
  "primary_expr ex toks = (case toks of
     TSym s # ts \<Rightarrow>
       (if s = ''('' then
          (case ex ts of
             Inl e \<Rightarrow> Err e
           | Inr (inner, ts') \<Rightarrow>
               (case ts' of TSym s' # ts'' \<Rightarrow> (if s' = '')'' then Ok (inner, ts'') else Err (ParseError ''expected )''))
                | _ \<Rightarrow> Err (ParseError ''expected )'')))
        else Err (ParseError (''unexpected token '' @ s)))
   | TNumber n # ts \<Rightarrow> Ok (ELit (VNumber n), ts)
   | TStr s # ts \<Rightarrow> Ok (ELit (VString s), ts)
   | TIdent w # ts \<Rightarrow>
       (if w = ''true'' then Ok (ELit (VBool True), ts)
        else if w = ''false'' then Ok (ELit (VBool False), ts)
        else if w = ''null'' then Ok (ELit VNull, ts)
        else Err (ParseError (''unexpected token '' @ w)))
   | TRef r # ts \<Rightarrow> Ok (ERef r, ts)
   | [] \<Rightarrow> Err (ParseError ''unexpected token None''))"

definition binary_op :: "token \<Rightarrow> (wexpr \<Rightarrow> wexpr \<Rightarrow> wexpr) option" where
  "binary_op t = map_of [(TSym ''=='', EEq), (TSym ''!='', ENe), (TSym ''<'', ELt), (TSym ''<='', ELe),
     (TSym ''>'', EGt), (TSym ''>='', EGe), (TIdent ''contains'', EContains),
     (TIdent ''starts_with'', EStartsWith), (TIdent ''ends_with'', EEndsWith)] t"

definition comparison :: "(token list \<Rightarrow> wexpr parse) \<Rightarrow> token list \<Rightarrow> wexpr parse" where
  "comparison prim toks = (case prim toks of
     Inl e \<Rightarrow> Err e
   | Inr (left, ts) \<Rightarrow> (case ts of
       [] \<Rightarrow> Ok (left, ts)
     | t # ts' \<Rightarrow>
        if t = TIdent ''exists'' then Ok (EExists left, ts')
        else (case binary_op t of
          None \<Rightarrow> Ok (left, ts)
        | Some f \<Rightarrow> (case prim ts' of Inl e \<Rightarrow> Err e | Inr (right, ts'') \<Rightarrow> Ok (f left right, ts'')))))"

text \<open>The argument is the depth that is left.\<close>

fun not_expr :: "nat \<Rightarrow> token list \<Rightarrow> wexpr parse" and expr :: "nat \<Rightarrow> token list \<Rightarrow> wexpr parse" where
  "not_expr 0 = (\<lambda>toks. Err (TooDeep MAX_DEPTH))"
| "not_expr (Suc k) = (\<lambda>toks.
     if peek_ident ''not'' toks then
       (case not_expr k (tl toks) of Inl e \<Rightarrow> Err e | Inr (inner, ts) \<Rightarrow> Ok (ENot inner, ts))
     else comparison (primary_expr (expr k)) toks)"
| "expr 0 = (\<lambda>toks. Err (TooDeep MAX_DEPTH))"
| "expr (Suc k) = or_expr (not_expr k)"

definition parse_tokens :: "token list \<Rightarrow> expr_error + wexpr" where
  "parse_tokens toks = (case expr MAX_DEPTH toks of
     Inl e \<Rightarrow> Err e
   | Inr (e, ts) \<Rightarrow> if ts = [] then Ok e else Err (ParseError ''trailing tokens''))"

definition parse_expr :: "rust_text \<Rightarrow> string \<Rightarrow> expr_error + wexpr" where
  "parse_expr T src = (case tokenize T (utf8_chars src) of Inl e \<Rightarrow> Err e | Inr toks \<Rightarrow> parse_tokens toks)"

subsection \<open>Every part of the parser consumes a token\<close>

definition consuming :: "(token list \<Rightarrow> wexpr parse) \<Rightarrow> bool" where
  "consuming p \<longleftrightarrow> (\<forall>toks e ts. p toks = Ok (e, ts) \<longrightarrow> length ts < length toks)"

lemma consumingD: "consuming p \<Longrightarrow> p toks = Ok (e, ts) \<Longrightarrow> length ts < length toks"
  by (auto simp: consuming_def)

lemma chain_shorter: "op_chain p w f left toks = Ok (e, ts) \<Longrightarrow> consuming p \<Longrightarrow> length ts \<le> length toks"
proof (induction p w f left toks rule: op_chain.induct)
  case (1 p w f left toks)
  show ?case
  proof (cases "peek_ident w toks")
    case True
    with "1.prems"(1) obtain r ts' where p: "p (tl toks) = Ok (r, ts')"
      by (auto simp: op_chain.simps [of p w f left toks] split: sum.splits)
    have l: "length ts' < length toks" using consumingD [OF "1.prems"(2) p] True
      by (auto simp: peek_ident_def split: list.splits)
    with "1.prems"(1) True p have "op_chain p w f (f left r) ts' = Ok (e, ts)"
      by (simp add: op_chain.simps [of p w f left toks])
    with "1.IH" [OF True p refl l] "1.prems"(2) l show ?thesis by simp
  next
    case False
    with "1.prems"(1) show ?thesis by (simp add: op_chain.simps [of p w f left toks])
  qed
qed

lemma consumingI: "(\<And>toks e ts. p toks = Ok (e, ts) \<Longrightarrow> length ts < length toks) \<Longrightarrow> consuming p"
  by (simp add: consuming_def)

lemma chained_consuming:
  assumes "consuming p" "\<And>toks. q toks = (case p toks of Inl e \<Rightarrow> Err e | Inr (left, toks') \<Rightarrow> op_chain p w f left toks')"
  shows "consuming q"
proof (rule consumingI)
  fix toks e ts assume "q toks = Ok (e, ts)"
  then obtain l ts' where p: "p toks = Ok (l, ts')" and c: "op_chain p w f l ts' = Ok (e, ts)"
    by (auto simp: assms(2) split: sum.splits)
  show "length ts < length toks" using consumingD [OF assms(1) p] chain_shorter [OF c assms(1)] by simp
qed

lemma and_expr_consuming: "consuming nt \<Longrightarrow> consuming (and_expr nt)"
  by (rule chained_consuming) (auto simp: and_expr_def)

lemma or_expr_consuming: "consuming nt \<Longrightarrow> consuming (or_expr nt)"
  by (rule chained_consuming [OF and_expr_consuming]) (auto simp: or_expr_def)

lemma primary_consuming:
  assumes "consuming ex"
  shows "consuming (primary_expr ex)"
proof (rule consumingI)
  fix toks e ts assume p: "primary_expr ex toks = Ok (e, ts)"
  then obtain t us where t: "toks = t # us" by (cases toks) (auto simp: primary_expr_def)
  show "length ts < length toks"
  proof (cases "t = TSym ''(''")
    case True
    with p t obtain ts' where "ex us = Ok (e, TSym '')'' # ts)"
      by (auto simp: primary_expr_def split: sum.splits list.splits token.splits if_splits)
    from consumingD [OF assms this] t show ?thesis by simp
  next
    case False
    with p t show ?thesis by (auto simp: primary_expr_def split: token.splits if_splits)
  qed
qed

lemma comparison_consuming:
  assumes "consuming prim"
  shows "consuming (comparison prim)"
proof (rule consumingI)
  fix toks e ts assume c: "comparison prim toks = Ok (e, ts)"
  then obtain l us where p: "prim toks = Ok (l, us)" by (auto simp: comparison_def split: sum.splits)
  note lt = consumingD [OF assms p]
  show "length ts < length toks"
  proof (cases us)
    case Nil
    with c p lt show ?thesis by (simp add: comparison_def)
  next
    case (Cons t vs)
    show ?thesis
    proof (cases "t = TIdent ''exists'' \<or> binary_op t = None")
      case True
      with c p lt Cons show ?thesis by (auto simp: comparison_def split: if_splits)
    next
      case False
      with c p Cons obtain r where "prim vs = Ok (r, ts)"
        by (auto simp: comparison_def split: sum.splits)
      from consumingD [OF assms this] lt Cons show ?thesis by simp
    qed
  qed
qed

lemma not_expr_shorter: "consuming (not_expr k)" and expr_shorter: "consuming (expr k)"
proof (induction k and k rule: not_expr_expr.induct)
  case (2 k)
  have "consuming (comparison (primary_expr (expr k)))" if "consuming (expr k)"
    using comparison_consuming [OF primary_consuming [OF that]] .
  show ?case
  proof (rule consumingI)
    fix toks e ts assume n: "not_expr (Suc k) toks = Ok (e, ts)"
    show "length ts < length toks"
    proof (cases "peek_ident ''not'' toks")
      case True
      with n obtain i where "not_expr k (tl toks) = Ok (i, ts)" by (auto split: sum.splits)
      from consumingD [OF "2.IH"(1) [OF True] this] show ?thesis by simp
    next
      case False
      with n have "comparison (primary_expr (expr k)) toks = Ok (e, ts)" by simp
      from consumingD [OF comparison_consuming [OF primary_consuming [OF "2.IH"(2) [OF False]]] this]
      show ?thesis .
    qed
  qed
qed (auto simp: consuming_def or_expr_consuming [unfolded consuming_def])

subsection \<open>Printing and parsing back\<close>

text \<open>Fully parenthesized token lists; only atoms stand without parentheses.\<close>

fun atom :: "wexpr \<Rightarrow> bool" where
  "atom (ELit v) = True" | "atom (ERef r) = True" | "atom _ = False"

fun literal_token :: "wvalue \<Rightarrow> token" where
  "literal_token VNull = TIdent ''null''"
| "literal_token (VBool b) = TIdent (if b then ''true'' else ''false'')"
| "literal_token (VNumber n) = TNumber n"
| "literal_token (VString s) = TStr s"
| "literal_token _ = TSym []"

definition wrap :: "wexpr \<Rightarrow> token list \<Rightarrow> token list" where
  "wrap e ts = (if atom e then ts else TSym ''('' # ts @ [TSym '')''])"

fun show_tokens :: "wexpr \<Rightarrow> token list" where
  "show_tokens (ELit v) = [literal_token v]"
| "show_tokens (ERef r) = [TRef r]"
| "show_tokens (EEq a b) = wrap a (show_tokens a) @ TSym ''=='' # wrap b (show_tokens b)"
| "show_tokens (ENe a b) = wrap a (show_tokens a) @ TSym ''!='' # wrap b (show_tokens b)"
| "show_tokens (ELt a b) = wrap a (show_tokens a) @ TSym ''<'' # wrap b (show_tokens b)"
| "show_tokens (ELe a b) = wrap a (show_tokens a) @ TSym ''<='' # wrap b (show_tokens b)"
| "show_tokens (EGt a b) = wrap a (show_tokens a) @ TSym ''>'' # wrap b (show_tokens b)"
| "show_tokens (EGe a b) = wrap a (show_tokens a) @ TSym ''>='' # wrap b (show_tokens b)"
| "show_tokens (EContains a b) = wrap a (show_tokens a) @ TIdent ''contains'' # wrap b (show_tokens b)"
| "show_tokens (EStartsWith a b) = wrap a (show_tokens a) @ TIdent ''starts_with'' # wrap b (show_tokens b)"
| "show_tokens (EEndsWith a b) = wrap a (show_tokens a) @ TIdent ''ends_with'' # wrap b (show_tokens b)"
| "show_tokens (EExists a) = wrap a (show_tokens a) @ [TIdent ''exists'']"
| "show_tokens (ENot a) = TIdent ''not'' # wrap a (show_tokens a)"
| "show_tokens (EAnd a b) = wrap a (show_tokens a) @ TIdent ''and'' # wrap b (show_tokens b)"
| "show_tokens (EOr a b) = wrap a (show_tokens a) @ TIdent ''or'' # wrap b (show_tokens b)"

text \<open>The depth the parser needs for it.\<close>

definition inner_need :: "wexpr \<Rightarrow> nat \<Rightarrow> nat" where
  "inner_need e n = (if atom e then 0 else n)"

fun need :: "wexpr \<Rightarrow> nat" where
  "need (ELit v) = 2"
| "need (ERef r) = 2"
| "need (ENot a) = 3 + inner_need a (need a)"
| "need (EExists a) = 2 + inner_need a (need a)"
| "need (EEq a b) = 2 + max (inner_need a (need a)) (inner_need b (need b))"
| "need (ENe a b) = 2 + max (inner_need a (need a)) (inner_need b (need b))"
| "need (ELt a b) = 2 + max (inner_need a (need a)) (inner_need b (need b))"
| "need (ELe a b) = 2 + max (inner_need a (need a)) (inner_need b (need b))"
| "need (EGt a b) = 2 + max (inner_need a (need a)) (inner_need b (need b))"
| "need (EGe a b) = 2 + max (inner_need a (need a)) (inner_need b (need b))"
| "need (EContains a b) = 2 + max (inner_need a (need a)) (inner_need b (need b))"
| "need (EStartsWith a b) = 2 + max (inner_need a (need a)) (inner_need b (need b))"
| "need (EEndsWith a b) = 2 + max (inner_need a (need a)) (inner_need b (need b))"
| "need (EAnd a b) = 2 + max (inner_need a (need a)) (inner_need b (need b))"
| "need (EOr a b) = 2 + max (inner_need a (need a)) (inner_need b (need b))"

primrec printable :: "wexpr \<Rightarrow> bool" where
  "printable (ELit v) = (case v of VArray _ \<Rightarrow> False | VObject _ \<Rightarrow> False | _ \<Rightarrow> True)"
| "printable (ERef r) = True"
| "printable (ENot a) = printable a"
| "printable (EExists a) = printable a"
| "printable (EEq a b) = (printable a \<and> printable b)"
| "printable (ENe a b) = (printable a \<and> printable b)"
| "printable (ELt a b) = (printable a \<and> printable b)"
| "printable (ELe a b) = (printable a \<and> printable b)"
| "printable (EGt a b) = (printable a \<and> printable b)"
| "printable (EGe a b) = (printable a \<and> printable b)"
| "printable (EContains a b) = (printable a \<and> printable b)"
| "printable (EStartsWith a b) = (printable a \<and> printable b)"
| "printable (EEndsWith a b) = (printable a \<and> printable b)"
| "printable (EAnd a b) = (printable a \<and> printable b)"
| "printable (EOr a b) = (printable a \<and> printable b)"

definition closes :: "token list \<Rightarrow> bool" where
  "closes rest \<longleftrightarrow> rest = [] \<or> (\<exists>r. rest = TSym '')'' # r)"

definition reads_back :: "wexpr \<Rightarrow> bool" where
  "reads_back a \<longleftrightarrow> (\<forall>k rest. need a \<le> k \<longrightarrow> closes rest \<longrightarrow> expr k (show_tokens a @ rest) = Ok (a, rest))"

definition operand_stop :: "token list \<Rightarrow> bool" where
  "operand_stop rest \<longleftrightarrow> (case rest of [] \<Rightarrow> True | t # _ \<Rightarrow> t \<noteq> TIdent ''exists'' \<and> binary_op t = None)"

lemma chain_stop: "\<not> peek_ident w toks \<Longrightarrow> op_chain p w f l toks = Ok (l, toks)"
  by (simp add: op_chain.simps [of p w f l toks])

lemma chain_one:
  "p tail = Ok (b, rest) \<Longrightarrow> length rest \<le> length tail \<Longrightarrow> \<not> peek_ident w rest \<Longrightarrow>
    op_chain p w f a (TIdent w # tail) = Ok (f a b, rest)"
  by (subst op_chain.simps) (simp add: peek_ident_def chain_stop le_imp_less_Suc)

lemma closes_stop: "closes rest \<Longrightarrow> operand_stop rest" "closes rest \<Longrightarrow> \<not> peek_ident w rest"
  by (auto simp: closes_def operand_stop_def binary_op_def peek_ident_def)

lemma primary_reads:
  assumes "reads_back a" "printable a" "inner_need a (need a) \<le> k"
  shows "primary_expr (expr k) (wrap a (show_tokens a) @ rest) = Ok (a, rest)"
proof (cases "atom a")
  case True
  with assms(2) show ?thesis
    by (cases a) (auto simp: wrap_def primary_expr_def split: wvalue.splits)
next
  case False
  then have "expr k (show_tokens a @ TSym '')'' # rest) = Ok (a, TSym '')'' # rest)"
    using assms(1,3) by (simp add: reads_back_def inner_need_def closes_def)
  with False show ?thesis by (simp add: wrap_def primary_expr_def)
qed

lemma first_not: "\<not> peek_ident ''not'' (wrap a (show_tokens a) @ rest)" if "printable a"
  using that by (cases a) (auto simp: wrap_def peek_ident_def split: wvalue.splits)

lemma not_reads:
  assumes "reads_back a" "printable a" "inner_need a (need a) \<le> k" "operand_stop rest"
  shows "not_expr (Suc k) (wrap a (show_tokens a) @ rest) = Ok (a, rest)"
  using assms(4) first_not [OF assms(2)] primary_reads [OF assms(1-3), of rest]
  by (auto simp: comparison_def operand_stop_def split: list.splits)

lemma binary_reads:
  assumes "reads_back a" "printable a" "inner_need a (need a) \<le> k"
    "reads_back b" "printable b" "inner_need b (need b) \<le> k" "binary_op t = Some f"
  shows "not_expr (Suc k) (wrap a (show_tokens a) @ t # wrap b (show_tokens b) @ rest) = Ok (f a b, rest)"
proof -
  have "t \<noteq> TIdent ''exists''" using assms(7) by (auto simp: binary_op_def)
  then show ?thesis
    using first_not [OF assms(2)] primary_reads [OF assms(1-3)] primary_reads [OF assms(4-6)] assms(7)
    by (simp add: comparison_def)
qed

lemma expr_of_not:
  assumes "not_expr k toks = Ok (e, rest)" "closes rest"
  shows "expr (Suc k) toks = Ok (e, rest)"
  using assms by (simp add: or_expr_def and_expr_def chain_stop closes_stop)

lemma reads_back_binary:
  assumes "reads_back a" "printable a" "reads_back b" "printable b" "binary_op t = Some f"
    "show_tokens (f a b) = wrap a (show_tokens a) @ t # wrap b (show_tokens b)"
    "need (f a b) = 2 + max (inner_need a (need a)) (inner_need b (need b))"
  shows "reads_back (f a b)"
  unfolding reads_back_def
proof (intro allI impI)
  fix k rest assume k: "need (f a b) \<le> k" and c: "closes rest"
  then obtain j where j: "k = Suc (Suc j)" "inner_need a (need a) \<le> j" "inner_need b (need b) \<le> j"
    using assms(7) by (cases k; cases "k - 1") auto
  have "expr (Suc (Suc j)) (wrap a (show_tokens a) @ t # wrap b (show_tokens b) @ rest) = Ok (f a b, rest)"
    by (rule expr_of_not [OF binary_reads [OF assms(1,2) j(2) assms(3,4) j(3) assms(5)] c])
  then show "expr k (show_tokens (f a b) @ rest) = Ok (f a b, rest)" by (simp add: assms(6) j(1))
qed

lemma reads_back_joined:
  assumes "reads_back a" "printable a" "reads_back b" "printable b" "f = EAnd \<and> w = ''and'' \<or> f = EOr \<and> w = ''or''"
    "show_tokens (f a b) = wrap a (show_tokens a) @ TIdent w # wrap b (show_tokens b)"
    "need (f a b) = 2 + max (inner_need a (need a)) (inner_need b (need b))"
  shows "reads_back (f a b)"
  unfolding reads_back_def
proof (intro allI impI)
  fix k rest assume k: "need (f a b) \<le> k" and c: "closes rest"
  then obtain j where j: "k = Suc (Suc j)" "inner_need a (need a) \<le> j" "inner_need b (need b) \<le> j"
    using assms(7) by (cases k; cases "k - 1") auto
  let ?nt = "not_expr (Suc j)" and ?tail = "wrap b (show_tokens b) @ rest"
  have l: "?nt (wrap a (show_tokens a) @ TIdent w # ?tail) = Ok (a, TIdent w # ?tail)"
    by (rule not_reads [OF assms(1,2) j(2)]) (use assms(5) in \<open>auto simp: operand_stop_def binary_op_def\<close>)
  have r: "?nt ?tail = Ok (b, rest)"
    by (rule not_reads [OF assms(3,4) j(3) closes_stop(1) [OF c]])
  have st: "show_tokens (f a b) @ rest = wrap a (show_tokens a) @ TIdent w # ?tail"
    by (simp only: assms(6) append_assoc append_Cons)
  from assms(5) show "expr k (show_tokens (f a b) @ rest) = Ok (f a b, rest)"
  proof
    assume f: "f = EAnd \<and> w = ''and''"
    have "op_chain ?nt ''and'' EAnd a (TIdent ''and'' # ?tail) = Ok (EAnd a b, rest)"
      by (rule chain_one [of ?nt ?tail b rest]) ((rule r), simp, simp add: closes_stop c)
    with f l have "and_expr ?nt (wrap a (show_tokens a) @ TIdent ''and'' # ?tail) = Ok (EAnd a b, rest)"
      by (simp add: and_expr_def del: not_expr.simps)
    then have "or_expr ?nt (wrap a (show_tokens a) @ TIdent ''and'' # ?tail) = Ok (EAnd a b, rest)"
      by (simp add: or_expr_def chain_stop closes_stop c del: not_expr.simps)
    then show ?thesis unfolding st j(1) expr.simps using f by simp
  next
    assume f: "f = EOr \<and> w = ''or''"
    have "\<not> peek_ident ''and'' (TIdent ''or'' # ?tail)" by (simp add: peek_ident_def)
    with f l have al: "and_expr ?nt (wrap a (show_tokens a) @ TIdent ''or'' # ?tail) = Ok (a, TIdent ''or'' # ?tail)"
      by (simp add: and_expr_def chain_stop del: not_expr.simps)
    have ar: "and_expr ?nt ?tail = Ok (b, rest)"
      using r by (simp add: and_expr_def chain_stop closes_stop c del: not_expr.simps)
    have "op_chain (and_expr ?nt) ''or'' EOr a (TIdent ''or'' # ?tail) = Ok (EOr a b, rest)"
      by (rule chain_one [of "and_expr ?nt" ?tail b rest]) ((rule ar), simp, simp add: closes_stop c)
    with al have "or_expr ?nt (wrap a (show_tokens a) @ TIdent ''or'' # ?tail) = Ok (EOr a b, rest)"
      by (simp add: or_expr_def del: not_expr.simps)
    then show ?thesis unfolding st j(1) expr.simps using f by simp
  qed
qed

lemma printed_reads_back: "printable e \<Longrightarrow> reads_back e"
proof (induction e)
  case (ELit v)
  show ?case
    unfolding reads_back_def
  proof (intro allI impI)
    fix k rest assume "need (ELit v) \<le> k" and c: "closes rest"
    then obtain j where j: "k = Suc (Suc j)" by (cases k; cases "k - 1") auto
    have "primary_expr (expr j) (show_tokens (ELit v) @ rest) = Ok (ELit v, rest)"
      using ELit by (auto simp: primary_expr_def split: wvalue.splits)
    moreover have "\<not> peek_ident ''not'' (show_tokens (ELit v) @ rest)"
      using ELit by (auto simp: peek_ident_def split: wvalue.splits)
    ultimately have "not_expr (Suc j) (show_tokens (ELit v) @ rest) = Ok (ELit v, rest)"
      using closes_stop(1) [OF c] by (auto simp: comparison_def operand_stop_def split: list.splits)
    from expr_of_not [OF this c] show "expr k (show_tokens (ELit v) @ rest) = Ok (ELit v, rest)" by (simp add: j)
  qed
next
  case (ERef r)
  show ?case
    unfolding reads_back_def
  proof (intro allI impI)
    fix k rest assume "need (ERef r) \<le> k" and c: "closes rest"
    then obtain j where j: "k = Suc (Suc j)" by (cases k; cases "k - 1") auto
    have "not_expr (Suc j) (TRef r # rest) = Ok (ERef r, rest)"
      using closes_stop(1) [OF c]
      by (auto simp: peek_ident_def comparison_def primary_expr_def operand_stop_def split: list.splits)
    from expr_of_not [OF this c] show "expr k (show_tokens (ERef r) @ rest) = Ok (ERef r, rest)" by (simp add: j)
  qed
next
  case (EExists a)
  show ?case
    unfolding reads_back_def
  proof (intro allI impI)
    fix k rest assume "need (EExists a) \<le> k" and c: "closes rest"
    then obtain j where j: "k = Suc (Suc j)" "inner_need a (need a) \<le> j" by (cases k; cases "k - 1") auto
    have "not_expr (Suc j) (wrap a (show_tokens a) @ TIdent ''exists'' # rest) = Ok (EExists a, rest)"
      using EExists first_not [of a] primary_reads [of a j "TIdent ''exists'' # rest"] j(2)
      by (simp add: comparison_def)
    from expr_of_not [OF this c] show "expr k (show_tokens (EExists a) @ rest) = Ok (EExists a, rest)" by (simp add: j)
  qed
next
  case (ENot a)
  show ?case
    unfolding reads_back_def
  proof (intro allI impI)
    fix k rest assume "need (ENot a) \<le> k" and c: "closes rest"
    then obtain j where j: "k = Suc (Suc (Suc j))" "inner_need a (need a) \<le> j"
      by (cases k; cases "k - 1"; cases "k - 2") auto
    have "not_expr (Suc j) (wrap a (show_tokens a) @ rest) = Ok (a, rest)"
      using ENot j(2) closes_stop(1) [OF c] by (intro not_reads) auto
    then have "not_expr (Suc (Suc j)) (TIdent ''not'' # wrap a (show_tokens a) @ rest) = Ok (ENot a, rest)"
      by (subst not_expr.simps(2)) (simp add: peek_ident_def del: not_expr.simps)
    from expr_of_not [OF this c] show "expr k (show_tokens (ENot a) @ rest) = Ok (ENot a, rest)" by (simp add: j)
  qed
next
  case (EAnd a b)
  then show ?case by (intro reads_back_joined [of a b EAnd "''and''"]) auto
next
  case (EOr a b)
  then show ?case by (intro reads_back_joined [of a b EOr "''or''"]) auto
next
  case (EEq a b)
  then show ?case by (intro reads_back_binary [of a b "TSym ''==''" EEq]) (simp_all add: binary_op_def)
next
  case (ENe a b)
  then show ?case by (intro reads_back_binary [of a b "TSym ''!=''" ENe]) (simp_all add: binary_op_def)
next
  case (ELt a b)
  then show ?case by (intro reads_back_binary [of a b "TSym ''<''" ELt]) (simp_all add: binary_op_def)
next
  case (ELe a b)
  then show ?case by (intro reads_back_binary [of a b "TSym ''<=''" ELe]) (simp_all add: binary_op_def)
next
  case (EGt a b)
  then show ?case by (intro reads_back_binary [of a b "TSym ''>''" EGt]) (simp_all add: binary_op_def)
next
  case (EGe a b)
  then show ?case by (intro reads_back_binary [of a b "TSym ''>=''" EGe]) (simp_all add: binary_op_def)
next
  case (EContains a b)
  then show ?case by (intro reads_back_binary [of a b "TIdent ''contains''" EContains]) (simp_all add: binary_op_def)
next
  case (EStartsWith a b)
  then show ?case by (intro reads_back_binary [of a b "TIdent ''starts_with''" EStartsWith]) (simp_all add: binary_op_def)
next
  case (EEndsWith a b)
  then show ?case by (intro reads_back_binary [of a b "TIdent ''ends_with''" EEndsWith]) (simp_all add: binary_op_def)
qed

lemma parse_show:
  assumes "printable e" "need e \<le> MAX_DEPTH"
  shows "parse_tokens (show_tokens e) = Ok e"
proof -
  have "expr MAX_DEPTH (show_tokens e @ []) = Ok (e, [])"
    using printed_reads_back [OF assms(1)] assms(2) unfolding reads_back_def by (simp add: closes_def)
  then show ?thesis by (simp add: parse_tokens_def)
qed

section \<open>Evaluation\<close>

datatype ordering = OrdLess | OrdEqual | OrdGreater

definition expect_bool :: "wvalue \<Rightarrow> expr_error + bool" where
  "expect_bool v = (case v of VBool b \<Rightarrow> Ok b | _ \<Rightarrow> Err (TypeMismatch (type_name v) ''bool''))"

definition f64_partial_cmp :: "f64 \<Rightarrow> f64 \<Rightarrow> ordering option" where
  "f64_partial_cmp x y = (if f64_lt x y then Some OrdLess else if f64_lt y x then Some OrdGreater
     else if f64_eq x y then Some OrdEqual else None)"

definition ordered :: "wvalue \<Rightarrow> wvalue \<Rightarrow> expr_error + ordering" where
  "ordered a b = (case (a, b) of
     (VNumber x, VNumber y) \<Rightarrow> (case f64_partial_cmp x y of
         Some r \<Rightarrow> Ok r | None \<Rightarrow> Err (TypeMismatch ''number'' ''number''))
   | (VString x, VString y) \<Rightarrow> Ok (if x < y then OrdLess else if x = y then OrdEqual else OrdGreater)
   | _ \<Rightarrow> Err (TypeMismatch (type_name a) (type_name b)))"

definition ends_with :: "string \<Rightarrow> string \<Rightarrow> bool" where
  "ends_with s p = starts_with (rev s) (rev p)"

definition contains_value :: "wvalue \<Rightarrow> wvalue \<Rightarrow> expr_error + wvalue" where
  "contains_value a b = (case (a, b) of
     (VString h, VString n) \<Rightarrow> Ok (VBool (contains_str h n))
   | (VArray h, _) \<Rightarrow> Ok (VBool (list_ex (\<lambda>i. values_equal i b) h))
   | (VNull, _) \<Rightarrow> Ok (VBool False)
   | (_, VNull) \<Rightarrow> Ok (VBool False)
   | _ \<Rightarrow> Err (TypeMismatch (type_name a) (type_name b)))"

text \<open>Both operands first, left before right; then the operation.\<close>

definition both :: "expr_error + 'a \<Rightarrow> expr_error + 'b \<Rightarrow> ('a \<Rightarrow> 'b \<Rightarrow> expr_error + 'c) \<Rightarrow> expr_error + 'c" where
  "both x y f = (case x of Inl e \<Rightarrow> Err e | Inr a \<Rightarrow> (case y of Inl e \<Rightarrow> Err e | Inr b \<Rightarrow> f a b))"

definition bool_of :: "expr_error + wvalue \<Rightarrow> expr_error + bool" where
  "bool_of r = (case r of Inl e \<Rightarrow> Err e | Inr v \<Rightarrow> expect_bool v)"

definition compare :: "(ordering \<Rightarrow> bool) \<Rightarrow> wvalue \<Rightarrow> wvalue \<Rightarrow> expr_error + wvalue" where
  "compare test a b = (case ordered a b of Inl e \<Rightarrow> Err e | Inr r \<Rightarrow> Ok (VBool (test r)))"

definition string_test :: "(string \<Rightarrow> string \<Rightarrow> bool) \<Rightarrow> wvalue \<Rightarrow> wvalue \<Rightarrow> expr_error + wvalue" where
  "string_test f a b = (case (a, b) of
     (VString h, VString n) \<Rightarrow> Ok (VBool (f h n)) | _ \<Rightarrow> Err (TypeMismatch (type_name a) (type_name b)))"

fun eval :: "(string \<Rightarrow> wvalue option) \<Rightarrow> wexpr \<Rightarrow> expr_error + wvalue" where
  "eval res (ELit v) = Ok v"
| "eval res (ERef r) = Ok (case res r of Some v \<Rightarrow> v | None \<Rightarrow> VNull)"
| "eval res (EExists e) = Ok (VBool (case e of ERef path \<Rightarrow> res path \<noteq> None | _ \<Rightarrow> False))"
| "eval res (ENot e) = map_sum id (\<lambda>b. VBool (\<not> b)) (bool_of (eval res e))"
| "eval res (EAnd a b) = both (bool_of (eval res a)) (bool_of (eval res b)) (\<lambda>x y. Ok (VBool (x \<and> y)))"
| "eval res (EOr a b) = both (bool_of (eval res a)) (bool_of (eval res b)) (\<lambda>x y. Ok (VBool (x \<or> y)))"
| "eval res (EEq a b) = both (eval res a) (eval res b) (\<lambda>x y. Ok (VBool (values_equal x y)))"
| "eval res (ENe a b) = both (eval res a) (eval res b) (\<lambda>x y. Ok (VBool (\<not> values_equal x y)))"
| "eval res (ELt a b) = both (eval res a) (eval res b) (compare (\<lambda>r. r = OrdLess))"
| "eval res (ELe a b) = both (eval res a) (eval res b) (compare (\<lambda>r. r \<noteq> OrdGreater))"
| "eval res (EGt a b) = both (eval res a) (eval res b) (compare (\<lambda>r. r = OrdGreater))"
| "eval res (EGe a b) = both (eval res a) (eval res b) (compare (\<lambda>r. r \<noteq> OrdLess))"
| "eval res (EContains a b) = both (eval res a) (eval res b) contains_value"
| "eval res (EStartsWith a b) = both (eval res a) (eval res b) (string_test starts_with)"
| "eval res (EEndsWith a b) = both (eval res a) (eval res b) (string_test ends_with)"

section \<open>Typing\<close>

text \<open>A static type for the expressions that cannot fail. A number type excludes NaN, which no
  order compares.\<close>

datatype vtype = TyNull | TyBool | TyNumber | TyString | TyArray | TyObject

fun has_type :: "wvalue \<Rightarrow> vtype \<Rightarrow> bool" where
  "has_type VNull t = (t = TyNull)"
| "has_type (VBool _) t = (t = TyBool)"
| "has_type (VNumber x) t = (t = TyNumber \<and> x \<noteq> NaN)"
| "has_type (VString _) t = (t = TyString)"
| "has_type (VArray _) t = (t = TyArray)"
| "has_type (VObject _) t = (t = TyObject)"

inductive etype :: "(string \<Rightarrow> vtype option) \<Rightarrow> wexpr \<Rightarrow> vtype \<Rightarrow> bool" for G where
  lit: "has_type v t \<Longrightarrow> etype G (ELit v) t"
| ref: "G r = Some t \<Longrightarrow> etype G (ERef r) t"
| ex: "etype G (EExists e) TyBool"
| neg: "etype G e TyBool \<Longrightarrow> etype G (ENot e) TyBool"
| conj: "etype G a TyBool \<Longrightarrow> etype G b TyBool \<Longrightarrow> f \<in> {EAnd, EOr} \<Longrightarrow> etype G (f a b) TyBool"
| eq: "etype G a s \<Longrightarrow> etype G b t \<Longrightarrow> f \<in> {EEq, ENe} \<Longrightarrow> etype G (f a b) TyBool"
| ord: "etype G a t \<Longrightarrow> etype G b t \<Longrightarrow> t \<in> {TyNumber, TyString} \<Longrightarrow> f \<in> {ELt, ELe, EGt, EGe} \<Longrightarrow>
    etype G (f a b) TyBool"
| str: "etype G a TyString \<Longrightarrow> etype G b TyString \<Longrightarrow> f \<in> {EContains, EStartsWith, EEndsWith} \<Longrightarrow>
    etype G (f a b) TyBool"
| arr: "etype G a TyArray \<Longrightarrow> etype G b t \<Longrightarrow> etype G (EContains a b) TyBool"

definition env_ok :: "(string \<Rightarrow> vtype option) \<Rightarrow> (string \<Rightarrow> wvalue option) \<Rightarrow> bool" where
  "env_ok G res \<longleftrightarrow> (\<forall>r t. G r = Some t \<longrightarrow> has_type (case res r of Some v \<Rightarrow> v | None \<Rightarrow> VNull) t)"

lemma has_type_elims:
  "has_type v TyBool \<Longrightarrow> \<exists>b. v = VBool b" "has_type v TyNumber \<Longrightarrow> \<exists>x. v = VNumber x \<and> x \<noteq> NaN"
  "has_type v TyString \<Longrightarrow> \<exists>s. v = VString s" "has_type v TyArray \<Longrightarrow> \<exists>a. v = VArray a"
  by (cases v; simp)+

lemma partial_cmp_total: "x \<noteq> NaN \<Longrightarrow> y \<noteq> NaN \<Longrightarrow> f64_partial_cmp x y \<noteq> None"
  by (cases x; cases y) (auto simp: f64_partial_cmp_def)

lemma ordered_typed:
  assumes "has_type x t" "has_type y t" "t \<in> {TyNumber, TyString}"
  shows "\<exists>r. ordered x y = Ok r"
proof (cases "t = TyNumber")
  case True
  with assms obtain p q where "x = VNumber p" "y = VNumber q" "p \<noteq> NaN" "q \<noteq> NaN"
    by (metis has_type_elims(2))
  with partial_cmp_total [of p q] show ?thesis by (auto simp: ordered_def)
next
  case False
  with assms obtain p q where "x = VString p" "y = VString q" by (metis has_type_elims(3) insertE singletonD)
  then show ?thesis by (simp add: ordered_def)
qed

lemma eval_typed: "etype G e t \<Longrightarrow> env_ok G res \<Longrightarrow> \<exists>v. eval res e = Ok v \<and> has_type v t"
proof (induction rule: etype.induct)
  case (ref r t)
  then show ?case by (auto simp: env_ok_def)
next
  case (neg e)
  then show ?case by (auto simp: bool_of_def expect_bool_def dest!: has_type_elims(1))
next
  case (conj a b f)
  then show ?case by (auto simp: both_def bool_of_def expect_bool_def dest!: has_type_elims(1))
next
  case (eq a s b t f)
  then show ?case by (auto simp: both_def)
next
  case (ord a t b f)
  then obtain x y where x: "eval res a = Ok x" "has_type x t" and y: "eval res b = Ok y" "has_type y t" by blast
  obtain r where "ordered x y = Ok r" using ordered_typed [OF x(2) y(2) ord.hyps(3)] by blast
  with x(1) y(1) ord.hyps(4) show ?case by (auto simp: both_def compare_def)
next
  case (str a b f)
  then show ?case by (auto simp: both_def contains_value_def string_test_def dest!: has_type_elims(3))
next
  case (arr a b t)
  then show ?case by (auto simp: both_def contains_value_def dest!: has_type_elims(4))
qed auto

text \<open>The only error of an evaluation is a type mismatch.\<close>

definition mismatch :: "expr_error + 'a \<Rightarrow> bool" where
  "mismatch r \<longleftrightarrow> (\<forall>e. r = Inl e \<longrightarrow> (\<exists>a b. e = TypeMismatch a b))"

lemma mismatch_both:
  "mismatch x \<Longrightarrow> mismatch y \<Longrightarrow> (\<And>a b. mismatch (f a b)) \<Longrightarrow> mismatch (both x y f)"
  by (auto simp: mismatch_def both_def split: sum.splits)

lemma mismatch_parts:
  "mismatch (Ok v)" "mismatch r \<Longrightarrow> mismatch (bool_of r)" "mismatch r' \<Longrightarrow> mismatch (map_sum id g r')"
  "mismatch (compare test a b)" "mismatch (string_test h a b)" "mismatch (contains_value a b)"
  by (cases r'; auto simp: mismatch_def bool_of_def expect_bool_def compare_def ordered_def string_test_def contains_value_def
      split: sum.splits wvalue.splits option.splits)+

lemma eval_errors: "mismatch (eval res e)"
  by (induction e) (simp_all add: mismatch_parts mismatch_both)

text \<open>How deep an expression is: the parser bounds the nesting of parentheses and negations, not the
  length of a chain.\<close>

primrec height :: "wexpr \<Rightarrow> nat" where
  "height (ELit v) = 1"
| "height (ERef r) = 1"
| "height (ENot a) = Suc (height a)"
| "height (EExists a) = Suc (height a)"
| "height (EEq a b) = Suc (max (height a) (height b))"
| "height (ENe a b) = Suc (max (height a) (height b))"
| "height (ELt a b) = Suc (max (height a) (height b))"
| "height (ELe a b) = Suc (max (height a) (height b))"
| "height (EGt a b) = Suc (max (height a) (height b))"
| "height (EGe a b) = Suc (max (height a) (height b))"
| "height (EContains a b) = Suc (max (height a) (height b))"
| "height (EStartsWith a b) = Suc (max (height a) (height b))"
| "height (EEndsWith a b) = Suc (max (height a) (height b))"
| "height (EAnd a b) = Suc (max (height a) (height b))"
| "height (EOr a b) = Suc (max (height a) (height b))"

fun and_chain :: "nat \<Rightarrow> wexpr" where
  "and_chain 0 = ELit (VBool True)"
| "and_chain (Suc n) = EAnd (and_chain n) (ELit (VBool True))"

definition chain_tokens :: "nat \<Rightarrow> token list" where
  "chain_tokens n = TIdent ''true'' # concat (replicate n [TIdent ''and'', TIdent ''true''])"

lemma height_and_chain: "height (and_chain n) = Suc n"
  by (induction n) auto

lemma not_expr_true: "peek_ident ''and'' ts \<or> ts = [] \<Longrightarrow> not_expr (Suc k) (TIdent ''true'' # ts) = Ok (ELit (VBool True), ts)"
  by (auto simp: peek_ident_def comparison_def primary_expr_def binary_op_def split: list.splits)

lemma chain_and_true:
  "op_chain (not_expr (Suc k)) ''and'' EAnd (and_chain m) (concat (replicate n [TIdent ''and'', TIdent ''true'']))
    = Ok (and_chain (m + n), [])"
proof (induction n arbitrary: m)
  case 0
  show ?case by (simp add: chain_stop peek_ident_def del: not_expr.simps)
next
  case (Suc n)
  let ?ts = "concat (replicate n [TIdent ''and'', TIdent ''true''])"
  have "peek_ident ''and'' ?ts \<or> ?ts = []" by (cases n) (auto simp: peek_ident_def)
  from not_expr_true [OF this] have
    "op_chain (not_expr (Suc k)) ''and'' EAnd (and_chain m) (TIdent ''and'' # TIdent ''true'' # ?ts)
      = op_chain (not_expr (Suc k)) ''and'' EAnd (and_chain (Suc m)) ?ts"
    by (subst op_chain.simps) (simp add: peek_ident_def del: not_expr.simps)
  with Suc [of "Suc m"] show ?case by (simp del: not_expr.simps)
qed

lemma parse_chain: "parse_tokens (chain_tokens n) = Ok (and_chain n)"
proof -
  let ?ts = "concat (replicate n [TIdent ''and'', TIdent ''true''])"
  have e: "MAX_DEPTH = Suc (Suc 30)" by (simp add: MAX_DEPTH_def)
  have "peek_ident ''and'' ?ts \<or> ?ts = []" by (cases n) (auto simp: peek_ident_def)
  from not_expr_true [OF this, of 30] chain_and_true [of 30 0 n] have
    "and_expr (not_expr (Suc 30)) (chain_tokens n) = Ok (and_chain n, [])"
    by (simp add: and_expr_def chain_tokens_def del: not_expr.simps)
  then have "expr MAX_DEPTH (chain_tokens n) = Ok (and_chain n, [])"
    unfolding e expr.simps or_expr_def by (simp add: chain_stop peek_ident_def del: not_expr.simps)
  then show ?thesis by (simp add: parse_tokens_def)
qed

end
