(* ===== verification/WfPolicy.thy ===== *)
theory WfPolicy
  imports WfExpr
begin

text \<open>
  Workflow definitions of the runner (\<open>launcher-domain/src/workflow.rs\<close>): steps, failure policies
  with their frozen default matrix, runs, and the checks made before a run starts.
\<close>

section \<open>Definitions\<close>

record action_reference =
  rf_provider :: string
  rf_command :: string
  rf_action :: string

datatype workflow_action = Reference action_reference | Inline action_descriptor

datatype failure_action = FaStop | FaRetry | FaSkip | FaReResolve

record retry_policy =
  max_attempts :: "32 word"

definition default_max_attempts :: "32 word" where
  "default_max_attempts = 2"

record step_failure_policy =
  sf_capability_denied :: "failure_action option"
  sf_stale_context :: "failure_action option"
  sf_timeout :: "retry_policy option"
  sf_business_error :: "failure_action option"
  sf_protocol_violation :: "failure_action option"
  sf_invalid_input :: "failure_action option"
  sf_plugin_unavailable :: "failure_action option"
  sf_command_not_found :: "failure_action option"

record workflow_failure_policy =
  wp_capability_denied :: "failure_action option"
  wp_stale_context :: "failure_action option"
  wp_timeout :: "retry_policy option"
  wp_business_error :: "failure_action option"
  wp_protocol_violation :: "failure_action option"
  wp_invalid_input :: "failure_action option"
  wp_plugin_unavailable :: "failure_action option"
  wp_command_not_found :: "failure_action option"

datatype workflow_failure_class = ClCapabilityDenied | ClInvalidInput | ClStaleContext | ClTimeout
  | ClBusinessError | ClProtocolViolation | ClPluginUnavailable | ClCommandNotFound | ClConfirmationRequired

text \<open>\<open>Option::or\<close> and the triple of \<open>action_for\<close>.\<close>

definition or_opt :: "'a option \<Rightarrow> 'a option \<Rightarrow> 'a option" where
  "or_opt a b = (case a of Some x \<Rightarrow> Some x | None \<Rightarrow> b)"

definition policy_row :: "workflow_failure_policy \<Rightarrow> step_failure_policy \<Rightarrow> workflow_failure_class \<Rightarrow>
    failure_action option \<times> failure_action option \<times> failure_action" where
  "policy_row p s c = (case c of
     ClCapabilityDenied \<Rightarrow> (sf_capability_denied s, wp_capability_denied p, FaStop)
   | ClInvalidInput \<Rightarrow> (sf_invalid_input s, wp_invalid_input p, FaStop)
   | ClStaleContext \<Rightarrow> (sf_stale_context s, wp_stale_context p, FaReResolve)
   | ClTimeout \<Rightarrow> (map_option (\<lambda>_. FaRetry) (sf_timeout s), map_option (\<lambda>_. FaRetry) (wp_timeout p), FaRetry)
   | ClBusinessError \<Rightarrow> (sf_business_error s, wp_business_error p, FaStop)
   | ClProtocolViolation \<Rightarrow> (sf_protocol_violation s, wp_protocol_violation p, FaStop)
   | ClPluginUnavailable \<Rightarrow> (sf_plugin_unavailable s, wp_plugin_unavailable p, FaRetry)
   | ClCommandNotFound \<Rightarrow> (sf_command_not_found s, wp_command_not_found p, FaStop)
   | ClConfirmationRequired \<Rightarrow> (None, None, FaStop))"

definition action_for :: "workflow_failure_policy \<Rightarrow> step_failure_policy \<Rightarrow> workflow_failure_class \<Rightarrow> failure_action" where
  "action_for p s c = (case policy_row p s c of (a, b, d) \<Rightarrow> (case or_opt a b of Some x \<Rightarrow> x | None \<Rightarrow> d))"

definition policy_max_attempts :: "workflow_failure_policy \<Rightarrow> step_failure_policy \<Rightarrow> 32 word" where
  "policy_max_attempts p s =
     (case or_opt (map_option max_attempts (sf_timeout s)) (map_option max_attempts (wp_timeout p)) of
        Some n \<Rightarrow> n | None \<Rightarrow> default_max_attempts)"

record wf_condition =
  co_expression :: string

record output_binding =
  ob_target :: string
  ob_source :: string

record wf_step =
  ws_id :: string
  ws_action :: workflow_action
  ws_input :: json
  ws_policy :: step_failure_policy
  ws_condition :: "wf_condition option"
  ws_output :: "output_binding option"
  ws_on_success :: "string option"
  ws_on_failure :: "string option"
  ws_on_condition_false :: "string option"

record wf_definition =
  wd_id :: string
  wd_version :: "32 word"
  wd_name :: string
  wd_steps :: "wf_step list"
  wd_policy :: workflow_failure_policy
  wd_entry :: "string option"

section \<open>Runs\<close>

datatype step_run_status = SrPending | SrResolving | SrResolved | SrWaitingForConfirmation | SrExecuting
  | SrComplete | SrFailed | SrSkipped

datatype workflow_run_status = WrCreated | WrRunning | WrPaused | WrSucceeded | WrFailed | WrCancelled

record step_run =
  sr_step :: string
  sr_status :: step_run_status
  sr_attempt :: "32 word"
  sr_error :: "string option"
  sr_execution :: "string option"
  sr_generation :: "64 word option"
  sr_skip :: "string option"
  sr_output :: "json option"

record wf_run =
  wr_id :: string
  wr_definition :: string
  wr_version :: "32 word"
  wr_status :: workflow_run_status
  wr_paused :: "string option"
  wr_current :: "string option"
  wr_steps :: "step_run list"
  wr_variables :: "json option"

definition MAX_STEPS_PER_RUN :: nat where "MAX_STEPS_PER_RUN = 1000"
definition MAX_VARIABLES :: nat where "MAX_VARIABLES = 256"
definition SKIP_BRANCH_NOT_SELECTED :: string where "SKIP_BRANCH_NOT_SELECTED = ''BranchNotSelected''"
definition SKIP_CONDITION_FALSE :: string where "SKIP_CONDITION_FALSE = ''ConditionFalse''"

fun check_step_ids :: "wf_step list \<Rightarrow> string list \<Rightarrow> string + unit" where
  "check_step_ids [] seen = Ok ()"
| "check_step_ids (s # ss) seen =
     (if str_blank (ws_id s) then Err ''step_id is required''
      else if ws_id s \<in> set seen then Err (''duplicate step_id: '' @ ws_id s)
      else check_step_ids ss (hs_insert (ws_id s) seen))"

definition wd_validate :: "wf_definition \<Rightarrow> string + unit" where
  "wd_validate d =
     (if str_blank (wd_id d) then Err ''workflow id is required''
      else if wd_steps d = [] then Err ''workflow must have at least one step''
      else check_step_ids (wd_steps d) [])"

definition fresh_step_run :: "wf_step \<Rightarrow> step_run" where
  "fresh_step_run s = \<lparr>sr_step = ws_id s, sr_status = SrPending, sr_attempt = 0, sr_error = None,
     sr_execution = None, sr_generation = None, sr_skip = None, sr_output = None\<rparr>"

definition fresh_run :: "wf_definition \<Rightarrow> string \<Rightarrow> wf_run" where
  "fresh_run d rid = \<lparr>wr_id = rid, wr_definition = wd_id d, wr_version = wd_version d,
     wr_status = WrCreated, wr_paused = None, wr_current = None,
     wr_steps = map fresh_step_run (wd_steps d), wr_variables = None\<rparr>"

section \<open>Policy lemmas\<close>

definition default_step_policy :: step_failure_policy where
  "default_step_policy = \<lparr>sf_capability_denied = None, sf_stale_context = None, sf_timeout = None,
     sf_business_error = None, sf_protocol_violation = None, sf_invalid_input = None,
     sf_plugin_unavailable = None, sf_command_not_found = None\<rparr>"

definition default_policy :: workflow_failure_policy where
  "default_policy = \<lparr>wp_capability_denied = None, wp_stale_context = None, wp_timeout = None,
     wp_business_error = None, wp_protocol_violation = None, wp_invalid_input = None,
     wp_plugin_unavailable = None, wp_command_not_found = None\<rparr>"

text \<open>Confirmation is no row of the policy: nothing overrides its \<open>Stop\<close>. A step's entry wins over
  the definition's, and only a missing pair falls back to the frozen matrix.\<close>

lemma confirmation_stops: "action_for p s ClConfirmationRequired = FaStop"
  by (simp add: action_for_def policy_row_def or_opt_def)

lemma action_for_layers:
  "action_for p s c = (case policy_row p s c of
     (Some a, _, _) \<Rightarrow> a | (None, Some b, _) \<Rightarrow> b | (None, None, d) \<Rightarrow> d)"
  by (auto simp: action_for_def or_opt_def split: prod.split option.split)

lemma check_step_ids_Ok:
  "check_step_ids ss seen = Ok () \<longleftrightarrow>
    distinct (map ws_id ss) \<and> (\<forall>s \<in> set ss. \<not> str_blank (ws_id s)) \<and> ws_id ` set ss \<inter> set seen = {}"
  by (induction ss arbitrary: seen) auto

lemma wd_validate_Ok:
  "wd_validate d = Ok () \<longleftrightarrow> \<not> str_blank (wd_id d) \<and> wd_steps d \<noteq> [] \<and> distinct (map ws_id (wd_steps d))
    \<and> (\<forall>s \<in> set (wd_steps d). \<not> str_blank (ws_id s))"
  by (simp add: wd_validate_def check_step_ids_Ok)

end
