(* ===== verification/McpPolicy.thy ===== *)
theory McpPolicy
  imports Bytes WfPolicy
begin

text \<open>
  The HTTP policy of the MCP transport (\<open>launcher-mcp/src/transport/http_policy.rs\<close>) and the normalized
  errors (\<open>launcher-mcp/src/error.rs\<close>). Times are in milliseconds.
\<close>

section \<open>Errors\<close>

datatype mcp_error =
    McpInvalidInput string
  | McpUnknownTool string
  | McpServerUnavailable string
  | McpTimeout nat
  | McpToolExecutionError string
  | McpProtocolViolation string
  | McpProcessCrashed "32 word option"
  | McpAuthenticationRequired string
  | McpPermissionDenied string

fun mcp_failure_class :: "mcp_error \<Rightarrow> workflow_failure_class" where
  "mcp_failure_class (McpInvalidInput _) = ClInvalidInput"
| "mcp_failure_class (McpUnknownTool _) = ClCommandNotFound"
| "mcp_failure_class (McpServerUnavailable _) = ClPluginUnavailable"
| "mcp_failure_class (McpTimeout _) = ClTimeout"
| "mcp_failure_class (McpToolExecutionError _) = ClBusinessError"
| "mcp_failure_class (McpProtocolViolation _) = ClProtocolViolation"
| "mcp_failure_class (McpProcessCrashed _) = ClProtocolViolation"
| "mcp_failure_class (McpAuthenticationRequired _) = ClPluginUnavailable"
| "mcp_failure_class (McpPermissionDenied _) = ClPluginUnavailable"

text \<open>\<open>format!("{code}")\<close> of a signed integer.\<close>

definition int_str :: "int \<Rightarrow> string" where
  "int_str i = (if i < 0 then ''-'' @ nat_str (nat (- i)) else nat_str (nat i))"

definition from_jsonrpc_error :: "32 word \<Rightarrow> string \<Rightarrow> string \<Rightarrow> mcp_error" where
  "from_jsonrpc_error code message tool =
     (if sint code = -32601 then McpUnknownTool tool
      else if sint code = -32602 then McpInvalidInput message
      else if sint code \<in> {-32700, -32600}
        then McpProtocolViolation (''jsonrpc error ['' @ int_str (sint code) @ '']: '' @ message)
      else McpToolExecutionError (''['' @ int_str (sint code) @ ''] '' @ message))"

section \<open>Classes of hosts\<close>

datatype network_class = NetLoopback | NetPrivate | NetPublic | NetMetadata

record url_policy =
  allow_private_network :: bool
  allow_plain_http :: bool

definition default_url_policy :: url_policy where
  "default_url_policy = \<lparr>allow_private_network = False, allow_plain_http = False\<rparr>"

text \<open>The host without its port: the inside of the brackets, or the text before a colon that a 16-bit
  number follows.\<close>

definition bare_host :: "string \<Rightarrow> string" where
  "bare_host raw = (let host = to_ascii_lowercase (str_trim raw) in
     case strip_prefix host ''['' of
       Some rest \<Rightarrow> before_any {CHR '']''} rest
     | None \<Rightarrow>
         let host = trim_end_char (CHR ''.'') host
         in case rsplit_once_char (CHR '':'') host of
              Some (h, port) \<Rightarrow> if parse_unsigned 65535 port \<noteq> None then h else host
            | None \<Rightarrow> host)"

definition octets_class :: "nat \<Rightarrow> nat \<Rightarrow> network_class" where
  "octets_class a b =
     (if a = 127 then NetLoopback
      else if a = 10 then NetPrivate
      else if a = 172 \<and> 16 \<le> b \<and> b \<le> 31 then NetPrivate
      else if a = 192 \<and> b = 168 then NetPrivate
      else if a = 169 \<and> b = 254 then NetMetadata
      else NetPublic)"

definition classify_host :: "string \<Rightarrow> network_class" where
  "classify_host raw = (let host = bare_host raw in
     if host \<in> {''localhost'', ''127.0.0.1'', ''0.0.0.0'', ''::1''} then NetLoopback
     else if host = ''169.254.169.254'' \<or> starts_with host ''169.254.169.'' then NetMetadata
     else if starts_with host ''fe80:'' \<or> starts_with host ''fc'' \<or> starts_with host ''fd'' then NetPrivate
     else case map (parse_unsigned 255) (split_on (\<lambda>c. c = CHR ''.'') host) of
       [Some a, Some b, Some _, Some _] \<Rightarrow> octets_class a b
     | _ \<Rightarrow> NetPublic)"

definition validate_url :: "string \<Rightarrow> url_policy \<Rightarrow> mcp_error + (string \<times> string)" where
  "validate_url url policy = (case split_once_str ''://'' url of
     None \<Rightarrow> Err (McpInvalidInput (''mcp url must be absolute: '' @ url))
   | Some (scheme, rest) \<Rightarrow>
       let scheme = to_ascii_lowercase scheme in
       if scheme \<noteq> ''http'' \<and> scheme \<noteq> ''https''
       then Err (McpInvalidInput (''mcp url scheme must be http(s): '' @ url))
       else let host = before_any {CHR ''/'', CHR ''?'', CHR 0x23} rest in
       if host = [] then Err (McpInvalidInput (''mcp url has no host: '' @ url))
       else let class = classify_host host in
       if class = NetMetadata then Err (McpInvalidInput ''mcp url points at a metadata endpoint (blocked)'')
       else if scheme = ''http'' \<and> class \<noteq> NetLoopback \<and> \<not> allow_plain_http policy
       then Err (McpInvalidInput ''plaintext http is only allowed for loopback endpoints unless allow_plain_http is explicitly configured'')
       else if class = NetPrivate \<and> \<not> allow_private_network policy
       then Err (McpInvalidInput ''private-network mcp endpoints require explicit allow_private_network'')
       else Ok (scheme, host))"

section \<open>Headers, content types and status codes\<close>

definition RESERVED_HEADERS :: "string list" where
  "RESERVED_HEADERS = [''mcp-protocol-version'', ''mcp-method'', ''mcp-name'', ''content-type'', ''content-length'',
     ''host'', ''authorization'', ''cookie'']"

definition is_reserved_header :: "string \<Rightarrow> bool" where
  "is_reserved_header name = (let lower = to_ascii_lowercase name in
     lower \<in> set RESERVED_HEADERS \<or> starts_with lower ''mcp-'' \<or> starts_with lower ''mcp_'')"

definition validate_content_type :: "string option \<Rightarrow> mcp_error + unit" where
  "validate_content_type content_type = (case content_type of
     None \<Rightarrow> Err (McpProtocolViolation ''response missing Content-Type'')
   | Some ct \<Rightarrow>
       let media = to_ascii_lowercase (str_trim (before_any {CHR '';''} ct)) in
       if media = ''application/json'' then Ok ()
       else if media = ''text/event-stream''
       then Err (McpProtocolViolation ''text/event-stream responses are unsupported in P0-B (safe reject)'')
       else Err (McpProtocolViolation (''unexpected response content-type: '' @ media)))"

definition status_error :: "16 word \<Rightarrow> string \<Rightarrow> mcp_error option" where
  "status_error status endpoint = (let s = unat status; tail = '' from '' @ endpoint in
     if 200 \<le> s \<and> s \<le> 299 then None
     else Some (
       if s = 400 \<or> s = 404 then McpServerUnavailable (''http '' @ nat_str s @ tail)
       else if s = 401 then McpAuthenticationRequired (''http 401'' @ tail)
       else if s = 403 then McpPermissionDenied (''http 403'' @ tail)
       else if s = 408 then McpTimeout 0
       else if s = 429 then McpServerUnavailable (''http 429 (throttled)'' @ tail)
       else if 500 \<le> s then McpServerUnavailable (''http '' @ nat_str s @ tail)
       else McpProtocolViolation (''unexpected http status '' @ nat_str s @ tail)))"

section \<open>Addresses written in digits\<close>

definition dotted :: "nat \<Rightarrow> nat \<Rightarrow> nat \<Rightarrow> nat \<Rightarrow> string" where
  "dotted a b c d = nat_str a @ ''.'' @ nat_str b @ ''.'' @ nat_str c @ ''.'' @ nat_str d"

definition port_suffix :: "nat option \<Rightarrow> string" where
  "port_suffix p = (case p of None \<Rightarrow> [] | Some n \<Rightarrow> '':'' @ nat_str n)"

text \<open>The class of an address by the block of addresses its number is in, the reference the checks on the
  octets are compared with.\<close>

definition address_number :: "nat \<Rightarrow> nat \<Rightarrow> nat \<Rightarrow> nat \<Rightarrow> nat" where
  "address_number a b c d = ((a * 256 + b) * 256 + c) * 256 + d"

definition in_block :: "nat \<Rightarrow> nat \<Rightarrow> nat \<times> nat \<times> nat \<times> nat \<Rightarrow> bool" where
  "in_block n len base = (case base of (a, b, c, d) \<Rightarrow>
     n div 2 ^ (32 - len) = address_number a b c d div 2 ^ (32 - len))"

definition ipv4_class :: "nat \<Rightarrow> nat \<Rightarrow> nat \<Rightarrow> nat \<Rightarrow> network_class" where
  "ipv4_class a b c d = (let n = address_number a b c d in
     if n = 0 \<or> in_block n 8 (127, 0, 0, 0) then NetLoopback
     else if in_block n 16 (169, 254, 0, 0) then NetMetadata
     else if in_block n 8 (10, 0, 0, 0) \<or> in_block n 12 (172, 16, 0, 0) \<or> in_block n 16 (192, 168, 0, 0) then NetPrivate
     else NetPublic)"

lemma address_blocks:
  assumes "b \<le> 255" "c \<le> 255" "d \<le> 255"
  shows "address_number a b c d div 16777216 = a" "address_number a b c d div 65536 = a * 256 + b"
    "address_number a b c d div 1048576 = a * 16 + b div 16" "address_number a b c d = 0 \<longleftrightarrow> a = 0 \<and> b = 0 \<and> c = 0 \<and> d = 0"
  using assms by (auto simp: address_number_def)

lemma digits_inject: "y < m \<Longrightarrow> y' < m \<Longrightarrow> x * m + y = x' * m + y' \<longleftrightarrow> x = x' \<and> y = y'" for x y m :: nat
proof
  assume "y < m" "y' < m" and eq: "x * m + y = x' * m + y'"
  from \<open>y < m\<close> \<open>y' < m\<close> have "(x * m + y) div m = x" "(x' * m + y') div m = x'"
    by (simp_all add: div_nat_eqI)
  then have "x = x'" unfolding eq by simp
  with eq show "x = x' \<and> y = y'" by simp
qed simp

lemma blocks_of_divisors:
  assumes "n div 16777216 = a" "n div 65536 = e" "n div 1048576 = f"
  shows "in_block n 8 (127, 0, 0, 0) \<longleftrightarrow> a = 127" "in_block n 8 (10, 0, 0, 0) \<longleftrightarrow> a = 10"
    "in_block n 16 (169, 254, 0, 0) \<longleftrightarrow> e = 43518" "in_block n 16 (192, 168, 0, 0) \<longleftrightarrow> e = 49320"
    "in_block n 12 (172, 16, 0, 0) \<longleftrightarrow> f = 2753"
  using assms by (simp_all add: in_block_def address_number_def)

lemma ipv4_class_octets:
  assumes "a \<le> 255" "b \<le> 255" "c \<le> 255" "d \<le> 255"
  shows "ipv4_class a b c d = (if a = 0 \<and> b = 0 \<and> c = 0 \<and> d = 0 then NetLoopback else octets_class a b)"
proof -
  have digits: "a * 256 + b = 43518 \<longleftrightarrow> a = 169 \<and> b = 254" "a * 256 + b = 49320 \<longleftrightarrow> a = 192 \<and> b = 168"
    using assms(2) digits_inject [of b 256 254 a 169] digits_inject [of b 256 168 a 192] by simp_all
  have "b div 16 = 1 \<longleftrightarrow> 16 \<le> b \<and> b \<le> 31" by linarith
  then have row: "a * 16 + b div 16 = 2753 \<longleftrightarrow> a = 172 \<and> 16 \<le> b \<and> b \<le> 31"
    using assms(2) digits_inject [of "b div 16" 16 1 a 172] by simp
  show ?thesis
    unfolding ipv4_class_def Let_def blocks_of_divisors [OF address_blocks(1-3) [OF assms(2-4), of a]]
      address_blocks(4) [OF assms(2-4)] digits row
    by (auto simp: octets_class_def)
qed

definition address_char :: "char \<Rightarrow> bool" where
  "address_char c \<longleftrightarrow> is_digit c \<or> c = CHR ''.'' \<or> c = CHR '':''"

lemma dotted_chars: "c \<in> set (dotted a b c' d) \<Longrightarrow> is_digit c \<or> c = CHR ''.''"
  by (auto simp: dotted_def is_digit_def dest: digit_plain)

lemma dotted_neq_Nil: "dotted a b c d \<noteq> []"
  by (simp add: dotted_def)

lemma address_chars: "c \<in> set (dotted a b c' d @ port_suffix p) \<Longrightarrow> address_char c"
  using dotted_chars [of c a b c' d] digit_plain [of c]
  by (auto simp: address_char_def port_suffix_def is_digit_def split: option.splits)

lemma digit_not [simp]:
  "is_digit c \<Longrightarrow> c \<noteq> CHR ''.''" "is_digit c \<Longrightarrow> c \<noteq> CHR '':''" "\<not> is_digit (CHR ''['')" "\<not> is_digit (CHR ''/'')"
  "\<not> is_digit (CHR ''?'')" "\<not> is_digit (CHR 0x23)"
  by (auto simp: is_digit_def byte_def)

lemma address_char_lower: "address_char c \<Longrightarrow> ascii_lower c = c"
  by (auto simp: address_char_def ascii_lower_def is_digit_def byte_def)

lemma address_char_plain: "address_char c \<Longrightarrow> \<not> is_cont c \<and> \<not> is_whitespace [c]"
  by (auto simp: address_char_def is_digit_def is_cont_def is_whitespace_def byte_def)

lemma plain_utf8: "\<forall>c \<in> set s. \<not> is_cont c \<Longrightarrow> utf8_chars s = map (\<lambda>c. [c]) s"
proof (induction s)
  case (Cons c s)
  then have "takeWhile is_cont s = []" "dropWhile is_cont s = s" by (cases s; simp)+
  with Cons show ?case by simp
qed simp

lemma plain_trim: "\<forall>c \<in> set s. \<not> is_cont c \<and> \<not> is_whitespace [c] \<Longrightarrow> str_trim s = s"
proof -
  assume s: "\<forall>c \<in> set s. \<not> is_cont c \<and> \<not> is_whitespace [c]"
  have keep: "dropWhile is_whitespace xs = xs" if "\<forall>x \<in> set xs. \<not> is_whitespace x" for xs
    using that by (cases xs) auto
  have "utf8_chars s = map (\<lambda>c. [c]) s" using s by (intro plain_utf8) blast
  with s show ?thesis by (simp add: str_trim_def keep)
qed

lemma address_text:
  assumes "\<forall>c \<in> set s. address_char c"
  shows "to_ascii_lowercase (str_trim s) = s"
proof -
  have "str_trim s = s" using assms address_char_plain by (intro plain_trim) blast
  then show ?thesis using assms address_char_lower by (simp add: map_idI)
qed

lemma first_digit: "\<exists>x r. nat_str n = x # r \<and> is_digit x"
  using digits_nat_str [of n] by (cases "nat_str n") auto

lemma last_digit: "\<exists>x r. rev (nat_str n) = x # r \<and> is_digit x"
proof -
  obtain x r where "rev (nat_str n) = x # r" using digits_nat_str [of n] by (cases "rev (nat_str n)") auto
  moreover have "x \<in> set (nat_str n)" using calculation by (metis list.set_intros(1) set_rev)
  ultimately show ?thesis using digits_nat_str [of n] by (auto simp: list_all_iff)
qed

lemma trim_end_digit: "trim_end_char (CHR ''.'') (a @ nat_str n) = a @ nat_str n"
proof -
  obtain x r where x: "rev (nat_str n) = x # r" "is_digit x" using last_digit by blast
  then have "dropWhile (\<lambda>c. c = CHR ''.'') (rev (a @ nat_str n)) = rev (a @ nat_str n)" by auto
  then show ?thesis by (simp add: trim_end_char_def)
qed

lemma bare_dotted:
  assumes "\<forall>n \<in> set_option p. n \<le> 65535"
  shows "bare_host (dotted a b c d @ port_suffix p) = dotted a b c d"
proof -
  let ?s = "dotted a b c d @ port_suffix p"
  have low: "to_ascii_lowercase (str_trim ?s) = ?s"
    using address_chars by (intro address_text) blast
  have "strip_prefix ?s ''['' = None"
    using first_digit [of a] by (auto simp: strip_prefix_def dotted_def)
  moreover have trim: "trim_end_char (CHR ''.'') ?s = ?s"
  proof (cases p)
    case None
    then show ?thesis using trim_end_digit [of "nat_str a @ ''.'' @ nat_str b @ ''.'' @ nat_str c @ ''.''" d]
      by (simp add: dotted_def port_suffix_def)
  next
    case (Some n)
    then show ?thesis using trim_end_digit [of "dotted a b c d @ '':''" n] by (simp add: port_suffix_def)
  qed
  moreover have "CHR '':'' \<notin> set (dotted a b c d)" using dotted_chars [of "CHR '':''" a b c d] by (auto simp: is_digit_def byte_def)
  moreover have "CHR '':'' \<notin> set (nat_str n)" for n using digits_nat_str [of n] by (auto simp: list_all_iff is_digit_def byte_def)
  ultimately show ?thesis
    unfolding bare_host_def Let_def low
    by (cases p) (use assms in \<open>auto simp: port_suffix_def rsplit_once_none rsplit_once_append parse_nat_str\<close>)
qed

lemma split_dotted: "split_on (\<lambda>c. c = CHR ''.'') (dotted a b c d) = [nat_str a, nat_str b, nat_str c, nat_str d]"
proof -
  have free: "\<forall>c \<in> set (nat_str n). c \<noteq> CHR ''.''" for n
    using digits_nat_str [of n] by (auto simp: list_all_iff)
  show ?thesis using free by (simp add: dotted_def split_on_append split_on_free)
qed

lemma dotted_inject: "dotted a b c d = dotted a' b' c' d' \<longleftrightarrow> a = a' \<and> b = b' \<and> c = c' \<and> d = d'"
proof
  assume "dotted a b c d = dotted a' b' c' d'"
  then have "[nat_str a, nat_str b, nat_str c, nat_str d] = [nat_str a', nat_str b', nat_str c', nat_str d']"
    by (metis split_dotted)
  then show "a = a' \<and> b = b' \<and> c = c' \<and> d = d'" by simp
qed simp

lemma dotted_samples:
  "''127.0.0.1'' = dotted 127 0 0 1" "''0.0.0.0'' = dotted 0 0 0 0" "''169.254.169.254'' = dotted 169 254 169 254"
  by code_simp+

lemma metadata_prefix: "starts_with (dotted a b c d) ''169.254.169.'' \<Longrightarrow> a = 169 \<and> b = 254"
proof -
  assume "starts_with (dotted a b c d) ''169.254.169.''"
  then obtain r where r: "dotted a b c d = ''169.254.169.'' @ r" by (auto simp: starts_with_iff)
  have "split_on (\<lambda>c. c = CHR ''.'') (''169.254.169.'' @ r) = ''169'' # ''254'' # ''169'' # split_on (\<lambda>c. c = CHR ''.'') r"
    by (simp add: split_on_append [where w = "''169''", simplified] split_on_append [where w = "''254''", simplified])
  then have "nat_str a = ''169''" "nat_str b = ''254''" using split_dotted [of a b c d] r by simp_all
  moreover have "''169'' = nat_str 169" "''254'' = nat_str 254" by code_simp+
  ultimately show ?thesis by (metis nat_str_inject)
qed

lemma classify_dotted:
  assumes "a \<le> 255" "b \<le> 255" "c \<le> 255" "d \<le> 255" "\<forall>n \<in> set_option p. n \<le> 65535"
  shows "classify_host (dotted a b c d @ port_suffix p) = ipv4_class a b c d"
proof -
  obtain x r where x: "dotted a b c d = x # r" "is_digit x" using first_digit [of a] by (auto simp: dotted_def)
  then have "x \<noteq> CHR ''l''" "x \<noteq> CHR '':''" "x \<noteq> CHR ''f''" by (auto simp: is_digit_def byte_def)
  with x have no: "dotted a b c d \<noteq> ''localhost''" "dotted a b c d \<noteq> ''::1''" "\<not> starts_with (dotted a b c d) ''fe80:''"
    "\<not> starts_with (dotted a b c d) ''fc''" "\<not> starts_with (dotted a b c d) ''fd''" by auto
  have octets: "map (parse_unsigned 255) (split_on (\<lambda>c. c = CHR ''.'') (dotted a b c d)) = [Some a, Some b, Some c, Some d]"
    using assms(1-4) by (simp add: split_dotted parse_nat_str)
  have loop: "dotted a b c d \<in> {''localhost'', ''127.0.0.1'', ''0.0.0.0'', ''::1''}
      \<longleftrightarrow> (a = 127 \<and> b = 0 \<and> c = 0 \<and> d = 1) \<or> (a = 0 \<and> b = 0 \<and> c = 0 \<and> d = 0)"
    unfolding dotted_samples using no(1,2) by (auto simp: dotted_inject)
  have meta: "dotted a b c d = ''169.254.169.254'' \<or> starts_with (dotted a b c d) ''169.254.169.'' \<Longrightarrow> a = 169 \<and> b = 254"
    unfolding dotted_samples using metadata_prefix by (auto simp: dotted_inject)
  show ?thesis
  proof (cases "dotted a b c d = ''169.254.169.254'' \<or> starts_with (dotted a b c d) ''169.254.169.''")
    case True
    with meta show ?thesis
      unfolding classify_host_def Let_def bare_dotted [OF assms(5)] loop ipv4_class_octets [OF assms(1-4)] by (simp add: octets_class_def)
  next
    case False
    with no(3-5) octets have "classify_host (dotted a b c d @ port_suffix p)
        = (if (a = 127 \<and> b = 0 \<and> c = 0 \<and> d = 1) \<or> (a = 0 \<and> b = 0 \<and> c = 0 \<and> d = 0) then NetLoopback else octets_class a b)"
      unfolding classify_host_def Let_def bare_dotted [OF assms(5)] loop by (simp only: if_False simp_thms list.case option.case)
    then show ?thesis unfolding ipv4_class_octets [OF assms(1-4)] by (simp add: octets_class_def)
  qed
qed

lemma http_scheme: "to_ascii_lowercase scheme \<in> {''http'', ''https''} \<Longrightarrow> CHR '':'' \<notin> set scheme"
proof
  assume s: "to_ascii_lowercase scheme \<in> {''http'', ''https''}" and "CHR '':'' \<in> set scheme"
  then have "ascii_lower (CHR '':'') \<in> set (to_ascii_lowercase scheme)" by simp
  moreover have "ascii_lower (CHR '':'') = CHR '':''" by code_simp
  ultimately show False using s by auto
qed

lemma authority_of_address:
  assumes "tail = [] \<or> hd tail \<in> {CHR ''/'', CHR ''?'', CHR 0x23}"
  shows "before_any {CHR ''/'', CHR ''?'', CHR 0x23} (dotted a b c d @ port_suffix p @ tail) = dotted a b c d @ port_suffix p"
proof -
  have "\<forall>x \<in> set (dotted a b c d @ port_suffix p). x \<notin> {CHR ''/'', CHR ''?'', CHR 0x23}"
    using address_chars [of _ a b c d p] by (fastforce simp: address_char_def is_digit_def byte_def)
  moreover have "takeWhile (\<lambda>x. x \<notin> {CHR ''/'', CHR ''?'', CHR 0x23}) tail = []" using assms by (cases tail) auto
  ultimately have "takeWhile (\<lambda>x. x \<notin> {CHR ''/'', CHR ''?'', CHR 0x23}) ((dotted a b c d @ port_suffix p) @ tail)
      = dotted a b c d @ port_suffix p"
    by (subst takeWhile_append2) auto
  then show ?thesis by (simp add: before_any_def)
qed

text \<open>C38: What a URL with a numeric address may reach. A URL whose host is an IPv4 address, with or
  without a port and whatever path, query or fragment follows, is judged by the block its number
  is in: the link-local block of the metadata services is always refused, plaintext needs a loopback
  address or the opt-in, the three private blocks need theirs, and every other address is accepted with the scheme and host it was written
  with.\<close>

theorem numeric_urls_are_judged_by_address:
  assumes "a \<le> 255" "b \<le> 255" "c \<le> 255" "d \<le> 255" "\<forall>n \<in> set_option p. n \<le> 65535"
    and "to_ascii_lowercase scheme \<in> {''http'', ''https''}" "tail = [] \<or> hd tail \<in> {CHR ''/'', CHR ''?'', CHR 0x23}"
  shows "validate_url (scheme @ ''://'' @ dotted a b c d @ port_suffix p @ tail) policy =
     (if ipv4_class a b c d = NetMetadata
      then Err (McpInvalidInput ''mcp url points at a metadata endpoint (blocked)'')
      else if to_ascii_lowercase scheme = ''http'' \<and> ipv4_class a b c d \<noteq> NetLoopback \<and> \<not> allow_plain_http policy
      then Err (McpInvalidInput ''plaintext http is only allowed for loopback endpoints unless allow_plain_http is explicitly configured'')
      else if ipv4_class a b c d = NetPrivate \<and> \<not> allow_private_network policy
      then Err (McpInvalidInput ''private-network mcp endpoints require explicit allow_private_network'')
      else Ok (to_ascii_lowercase scheme, dotted a b c d @ port_suffix p))"
proof -
  have scheme: "(to_ascii_lowercase scheme \<noteq> ''http'' \<and> to_ascii_lowercase scheme \<noteq> ''https'') = False"
    using assms(6) by blast
  have host: "(dotted a b c d @ port_suffix p = []) = False" using dotted_neq_Nil by blast
  show ?thesis
    unfolding validate_url_def split_scheme [OF http_scheme [OF assms(6)]] option.case prod.case Let_def
      authority_of_address [OF assms(7)] classify_dotted [OF assms(1-5)] scheme host if_False ..
qed

theorem numeric_urls_are_judged_by_address_witness:
  "validate_url (''HTTP://'' @ dotted 169 254 10 1 @ '':80'' @ ''/x'') \<lparr>allow_private_network = True, allow_plain_http = True\<rparr>
     = Err (McpInvalidInput ''mcp url points at a metadata endpoint (blocked)'')"
proof -
  have "to_ascii_lowercase ''HTTP'' \<in> {''http'', ''https''}" "port_suffix (Some 80) = '':80''" by code_simp+
  then show ?thesis
    using numeric_urls_are_judged_by_address [of 169 254 10 1 "Some 80" "''HTTP''" "''/x''"
        "\<lparr>allow_private_network = True, allow_plain_http = True\<rparr>"]
    by (simp add: ipv4_class_octets octets_class_def)
qed

text \<open>The class is read off the whole authority: user information hides the address, a bracket in it makes
  any host a loopback host, and an address mapped into IPv6 is public.\<close>

lemma user_information_hides_the_host:
  "validate_url ''https://x@169.254.169.254/'' default_url_policy = Ok (''https'', ''x@169.254.169.254'')"
  "validate_url ''http://[::1]@example.com/'' default_url_policy = Ok (''http'', ''[::1]@example.com'')"
  "classify_host ''[::ffff:10.0.0.1]'' = NetPublic"
  by code_simp+

end
