(* ===== verification/McpAuth.thy ===== *)
theory McpAuth
  imports Bytes Values
begin

text \<open>
  The OAuth client of \<open>launcher-mcp/src/auth\<close>: metadata URLs and issuers (\<open>discovery.rs\<close>), client metadata
  (\<open>cimd.rs\<close>), PKCE (\<open>pkce.rs\<close>), the authorization flow (\<open>oauth.rs\<close>), credentials and their storage
  (\<open>types.rs\<close>, \<open>storage.rs\<close>), and the provider of the header (\<open>mod.rs\<close>). The SHA-256 digest, the random
  bytes, the clock and the token endpoint are arguments. A secret is its text; times are in seconds.
\<close>

section \<open>URLs and issuers\<close>

datatype auth_error =
    DiscoveryFailed | IssuerMismatch | StateMismatch | AuthorizationDenied | TokenExchangeFailed | RefreshFailed
  | CredentialIssuerMismatch | InvalidCredential | UnsupportedFlow | MetadataInvalid | RedirectRejected

abbreviation authority_ends :: "char set" where
  "authority_ends \<equiv> {CHR ''/'', CHR ''?'', CHR 0x23}"

definition origin_of :: "string \<Rightarrow> string option" where
  "origin_of url = map_option (\<lambda>(scheme, rest). scheme @ ''://'' @ before_any authority_ends rest) (split_once_str ''://'' url)"

definition split_origin :: "string \<Rightarrow> (string \<times> string \<times> string) option" where
  "split_origin url = (case split_once_str ''://'' url of
     None \<Rightarrow> None
   | Some (scheme, rest) \<Rightarrow>
       let authority = before_any authority_ends rest in
       if scheme = [] \<or> authority = [] then None
       else Some (scheme @ ''://'' @ authority, to_ascii_lowercase scheme, to_ascii_lowercase authority))"

definition protected_resource_metadata_url :: "string \<Rightarrow> string option" where
  "protected_resource_metadata_url url = map_option (\<lambda>u. u @ ''/.well-known/oauth-protected-resource'') (origin_of url)"

definition authorization_server_metadata_urls :: "string \<Rightarrow> string list" where
  "authorization_server_metadata_urls issuer =
     (let origin = (case origin_of issuer of Some u \<Rightarrow> u | None \<Rightarrow> [])
      in [origin @ ''/.well-known/oauth-authorization-server'', origin @ ''/.well-known/openid-configuration''])"

definition validate_issuer :: "string \<Rightarrow> string \<Rightarrow> auth_error + unit" where
  "validate_issuer discovered returned =
     (if trim_end_char (CHR ''/'') discovered = trim_end_char (CHR ''/'') returned then Ok () else Err IssuerMismatch)"

definition supports_pkce_s256 :: "string list \<Rightarrow> bool" where
  "supports_pkce_s256 methods = list_ex (\<lambda>m. to_ascii_lowercase m = ''s256'') methods"

definition validate_cimd_url :: "string \<Rightarrow> auth_error + unit" where
  "validate_cimd_url url = (case split_once_str ''://'' url of
     None \<Rightarrow> Err MetadataInvalid
   | Some (scheme, rest) \<Rightarrow>
       if to_ascii_lowercase scheme \<noteq> ''https'' then Err MetadataInvalid
       else let path = (case split_once_char (CHR ''/'') rest of Some (_, p) \<Rightarrow> p | None \<Rightarrow> []) in
         if before_any {CHR ''?'', CHR 0x23} path = [] then Err MetadataInvalid else Ok ())"

definition should_fallback_to_dcr :: "string option \<Rightarrow> bool \<Rightarrow> bool" where
  "should_fallback_to_dcr endpoint failed \<longleftrightarrow> failed \<and> (case endpoint of Some e \<Rightarrow> e \<noteq> [] | None \<Rightarrow> False)"

definition dcr_request_body :: "string \<Rightarrow> json" where
  "dcr_request_body redirect = JObject [(''client_name'', JString ''native-launcher''), (''application_type'', JString ''native''),
     (''redirect_uris'', JArray [JString redirect]), (''token_endpoint_auth_method'', JString ''none'')]"

definition validate_token_endpoint :: "string \<Rightarrow> auth_error + unit" where
  "validate_token_endpoint url = (case split_once_str ''://'' url of
     None \<Rightarrow> Err MetadataInvalid
   | Some (scheme, rest) \<Rightarrow>
       let host = before_any authority_ends rest;
           loopback = starts_with host ''127.0.0.1'' \<or> starts_with host ''localhost'' \<or> starts_with host ''[::1]'';
           scheme = to_ascii_lowercase scheme
       in if scheme = ''https'' then Ok () else if scheme = ''http'' \<and> loopback then Ok () else Err MetadataInvalid)"

section \<open>PKCE\<close>

definition base64_table :: string where
  "base64_table = ''ABCDEFGHIJKLMNOPQRSTUVWXYZabcdefghijklmnopqrstuvwxyz0123456789-_''"

text \<open>The characters of a group of three bytes; the bits of \<open>n\<close> are read six at a time.\<close>

fun base64url :: "string \<Rightarrow> string" where
  "base64url [] = []"
| "base64url [a] = (let n = byte a * 65536 in map (\<lambda>k. base64_table ! (n div k mod 64)) [262144, 4096])"
| "base64url [a, b] = (let n = byte a * 65536 + byte b * 256 in map (\<lambda>k. base64_table ! (n div k mod 64)) [262144, 4096, 64])"
| "base64url (a # b # c # rest) =
     (let n = byte a * 65536 + byte b * 256 + byte c
      in map (\<lambda>k. base64_table ! (n div k mod 64)) [262144, 4096, 64, 1] @ base64url rest)"

definition code_challenge_s256 :: "(string \<Rightarrow> string) \<Rightarrow> string \<Rightarrow> string" where
  "code_challenge_s256 sha256 verifier = base64url (sha256 verifier)"

lemma base64_alphabet: "set (base64url s) \<subseteq> set base64_table"
proof -
  have "base64_table ! (n mod 64) \<in> set base64_table" for n by (rule nth_mem) (simp add: base64_table_def)
  then show ?thesis by (induction s rule: base64url.induct) (auto simp: Let_def)
qed

lemma base64_length: "length (base64url s) = (length s * 4 + 2) div 3"
  by (induction s rule: base64url.induct) (simp_all add: Let_def)

section \<open>The authorization flow\<close>

record auth_session =
  as_id :: string
  as_state :: string
  as_verifier :: string
  as_server :: string
  as_redirect :: string

record oauth_random =
  or_pid :: nat
  or_state :: string
  or_verifier :: string

definition begin_authorization :: "(string \<Rightarrow> string) \<Rightarrow> oauth_random \<Rightarrow> string \<Rightarrow> string \<Rightarrow> string \<Rightarrow> string list \<Rightarrow>
    auth_error + (string \<times> auth_session)" where
  "begin_authorization sha256 R endpoint client redirect scopes =
     (if \<not> starts_with redirect ''http://127.0.0.1'' \<and> \<not> starts_with redirect ''http://localhost'' then Err RedirectRejected
      else let state = base64url (or_state R); verifier = base64url (or_verifier R);
          url = endpoint @ ''?response_type=code&client_id='' @ client @ ''&redirect_uri='' @ redirect @ ''&state='' @ state
            @ ''&code_challenge='' @ code_challenge_s256 sha256 verifier @ ''&code_challenge_method=S256''
            @ (if scopes \<noteq> [] then ''&scope='' @ join_str ''%20'' scopes else [])
        in Ok (url, \<lparr>as_id = ''a-'' @ nat_str (or_pid R), as_state = state, as_verifier = verifier,
             as_server = endpoint, as_redirect = redirect\<rparr>))"

record oauth_callback =
  cb_code :: string
  cb_state :: string
  cb_iss :: "string option"

definition hex_value :: "char \<Rightarrow> nat option" where
  "hex_value c = (let b = byte c in
     if 48 \<le> b \<and> b \<le> 57 then Some (b - 48) else if 65 \<le> b \<and> b \<le> 70 then Some (b - 55)
     else if 97 \<le> b \<and> b \<le> 102 then Some (b - 87) else None)"

text \<open>\<open>u8::from_str_radix(hex, 16)\<close> of at most two characters.\<close>

definition parse_hex :: "string \<Rightarrow> nat option" where
  "parse_hex s = (let d = (case s of c # r \<Rightarrow> if c = CHR ''+'' \<and> r \<noteq> [] then r else s | [] \<Rightarrow> s) in
     case map hex_value d of [Some x] \<Rightarrow> Some x | [Some x, Some y] \<Rightarrow> Some (16 * x + y) | _ \<Rightarrow> None)"

function urldecode_bytes :: "string \<Rightarrow> string" where
  "urldecode_bytes [] = []"
| "urldecode_bytes (c # r) =
     (if c = CHR ''%'' \<and> r \<noteq> [] then (case parse_hex (take 2 r) of
          Some b \<Rightarrow> char_of b # urldecode_bytes (drop 2 r)
        | None \<Rightarrow> c # urldecode_bytes r)
      else (if c = CHR ''+'' then CHR '' '' else c) # urldecode_bytes r)"
  by pat_completeness auto
termination
  by (relation "measure length") auto

definition urldecode :: "string \<Rightarrow> string" where
  "urldecode s = utf8_lossy (urldecode_bytes s)"

record callback_fields =
  cf_code :: "string option"
  cf_state :: "string option"
  cf_iss :: "string option"

fun callback_pairs :: "string list \<Rightarrow> callback_fields \<Rightarrow> auth_error + callback_fields" where
  "callback_pairs [] f = Ok f"
| "callback_pairs (p # ps) f = (case split_once_char (CHR ''='') p of
     None \<Rightarrow> Err StateMismatch
   | Some (k, raw) \<Rightarrow> let v = urldecode raw in
       callback_pairs ps (if k = ''code'' then f\<lparr>cf_code := Some v\<rparr> else if k = ''state'' then f\<lparr>cf_state := Some v\<rparr>
         else if k = ''iss'' then f\<lparr>cf_iss := Some v\<rparr> else f))"

definition parse_callback :: "string \<Rightarrow> auth_error + oauth_callback" where
  "parse_callback query =
     (case callback_pairs (split_on (\<lambda>c. c = CHR ''&'') (trim_start_char (CHR ''?'') query))
         \<lparr>cf_code = None, cf_state = None, cf_iss = None\<rparr> of
        Err e \<Rightarrow> Err e
      | Ok f \<Rightarrow> (case (cf_code f, cf_state f) of
          (Some code, Some state) \<Rightarrow> Ok \<lparr>cb_code = code, cb_state = state, cb_iss = cf_iss f\<rparr>
        | _ \<Rightarrow> Err StateMismatch))"

definition validate_callback :: "auth_session \<Rightarrow> oauth_callback \<Rightarrow> string \<Rightarrow> auth_error + unit" where
  "validate_callback session cb expected =
     (if cb_state cb \<noteq> as_state session then Err StateMismatch
      else case (case cb_iss cb of Some iss \<Rightarrow> validate_issuer expected iss | None \<Rightarrow> Ok ()) of
          Err e \<Rightarrow> Err e
        | Ok _ \<Rightarrow> if cb_code cb = [] then Err AuthorizationDenied else Ok ())"

definition token_exchange_form :: "string \<Rightarrow> auth_session \<Rightarrow> string \<Rightarrow> (string \<times> string) list" where
  "token_exchange_form code session client = [(''grant_type'', ''authorization_code''), (''code'', code),
     (''redirect_uri'', as_redirect session), (''client_id'', client), (''code_verifier'', as_verifier session)]"

definition refresh_form :: "string \<Rightarrow> string \<Rightarrow> (string \<times> string) list" where
  "refresh_form token client = [(''grant_type'', ''refresh_token''), (''refresh_token'', token), (''client_id'', client)]"

section \<open>Credentials\<close>

record credential =
  cr_access :: string
  cr_refresh :: "string option"
  cr_issuer :: string
  cr_client :: string
  cr_expires :: "nat option"
  cr_scopes :: "string list"

record credential_key =
  ck_server :: string
  ck_origin :: string
  ck_issuer :: string
  ck_client :: string

record token_response =
  tr_access :: string
  tr_refresh :: "string option"
  tr_expires_in :: "nat option"
  tr_scope :: "string option"

definition credential_expired :: "credential \<Rightarrow> nat \<Rightarrow> bool" where
  "credential_expired c now \<longleftrightarrow> (case cr_expires c of Some e \<Rightarrow> e \<le> now | None \<Rightarrow> False)"

definition credential_storage_key :: "credential_key \<Rightarrow> string" where
  "credential_storage_key k = ''launcher-mcp/'' @ ck_server k @ '':'' @ ck_client k @ ''/'' @ ck_issuer k"

definition credential_from_token_response :: "nat \<Rightarrow> string \<Rightarrow> string \<Rightarrow> token_response \<Rightarrow> auth_error + credential" where
  "credential_from_token_response now issuer client resp =
     (if tr_access resp = [] then Err TokenExchangeFailed
      else Ok \<lparr>cr_access = tr_access resp, cr_refresh = tr_refresh resp, cr_issuer = issuer, cr_client = client,
        cr_expires = map_option (\<lambda>s. now + s) (tr_expires_in resp),
        cr_scopes = (case tr_scope resp of Some s \<Rightarrow> split_on (\<lambda>c. c = CHR '' '') s | None \<Rightarrow> [])\<rparr>)"

text \<open>The in-memory store: a map from storage keys.\<close>

type_synonym memory_store = "(string \<times> credential) list"

definition mem_load :: "credential_key \<Rightarrow> memory_store \<Rightarrow> credential option" where
  "mem_load k st = map_of st (credential_storage_key k)"

definition mem_save :: "credential_key \<Rightarrow> credential \<Rightarrow> memory_store \<Rightarrow> memory_store" where
  "mem_save k c st = (credential_storage_key k, c) # filter (\<lambda>(k', _). k' \<noteq> credential_storage_key k) st"

definition mem_delete :: "credential_key \<Rightarrow> memory_store \<Rightarrow> memory_store" where
  "mem_delete k st = filter (\<lambda>(k', _). k' \<noteq> credential_storage_key k) st"

section \<open>The provider of the header\<close>

type_synonym token_endpoint = "string \<Rightarrow> (string \<times> string) list \<Rightarrow> auth_error + token_response option"

definition refresh_credential :: "(credential_key \<Rightarrow> credential \<Rightarrow> 's \<Rightarrow> 's) \<Rightarrow> token_endpoint \<Rightarrow> nat \<Rightarrow> credential_key \<Rightarrow>
    string \<Rightarrow> credential \<Rightarrow> 's \<Rightarrow> (auth_error + credential) \<times> 's" where
  "refresh_credential save http now key endpoint c st =
     (if cr_issuer c \<noteq> ck_issuer key then (Err CredentialIssuerMismatch, st)
      else case cr_refresh c of
        None \<Rightarrow> (Err RefreshFailed, st)
      | Some token \<Rightarrow> (case validate_token_endpoint endpoint of
          Err e \<Rightarrow> (Err e, st)
        | Ok _ \<Rightarrow> (case http endpoint (refresh_form token (ck_client key)) of
            Err e \<Rightarrow> (Err e, st)
          | Ok None \<Rightarrow> (Err RefreshFailed, st)
          | Ok (Some resp) \<Rightarrow> (case credential_from_token_response now (ck_issuer key) (ck_client key) resp of
              Err e \<Rightarrow> (Err e, st)
            | Ok fresh \<Rightarrow>
                let fresh = (if cr_refresh fresh = None then fresh\<lparr>cr_refresh := cr_refresh c\<rparr> else fresh)
                in (Ok fresh, save key fresh st)))))"

definition header_for :: "credential \<Rightarrow> string" where
  "header_for c = ''Bearer '' @ cr_access c"

definition current_header :: "(credential_key \<Rightarrow> 's \<Rightarrow> credential option) \<Rightarrow> (credential_key \<Rightarrow> credential \<Rightarrow> 's \<Rightarrow> 's) \<Rightarrow>
    token_endpoint \<Rightarrow> nat \<Rightarrow> credential_key \<Rightarrow> string \<Rightarrow> 's \<Rightarrow> (auth_error + string option) \<times> 's" where
  "current_header load save http now key endpoint st = (case load key st of
     None \<Rightarrow> (Ok None, st)
   | Some c \<Rightarrow>
       if cr_issuer c \<noteq> ck_issuer key then (Err CredentialIssuerMismatch, st)
       else if credential_expired c now then (case refresh_credential save http now key endpoint c st of
           (Err e, st') \<Rightarrow> (Err e, st')
         | (Ok c', st') \<Rightarrow> (Ok (Some (header_for c')), st'))
       else (Ok (Some (header_for c)), st))"

definition on_unauthorized :: "(credential_key \<Rightarrow> 's \<Rightarrow> credential option) \<Rightarrow> (credential_key \<Rightarrow> credential \<Rightarrow> 's \<Rightarrow> 's) \<Rightarrow>
    token_endpoint \<Rightarrow> nat \<Rightarrow> credential_key \<Rightarrow> string \<Rightarrow> 's \<Rightarrow> (auth_error + string option) \<times> 's" where
  "on_unauthorized load save http now key endpoint st = (case load key st of
     None \<Rightarrow> (Ok None, st)
   | Some c \<Rightarrow>
       if cr_issuer c \<noteq> ck_issuer key then (Err CredentialIssuerMismatch, st)
       else (case refresh_credential save http now key endpoint c st of
           (Ok c', st') \<Rightarrow> (Ok (Some (header_for c')), st')
         | (Err e, st') \<Rightarrow> (if e = RefreshFailed \<or> e = InvalidCredential then (Ok None, st') else (Err e, st'))))"

definition accept_authorization_server :: "string \<Rightarrow> string \<Rightarrow> auth_error + unit" where
  "accept_authorization_server discovered issuer = validate_issuer discovered issuer"

section \<open>What a store promises\<close>

text \<open>The \<open>CredentialStore\<close> trait as the provider uses it: a saved credential is loaded again, and another
  storage key is left alone.\<close>

locale credential_store =
  fixes load :: "credential_key \<Rightarrow> 's \<Rightarrow> credential option" and save :: "credential_key \<Rightarrow> credential \<Rightarrow> 's \<Rightarrow> 's"
  assumes load_save: "load k (save k c st) = Some c"
    and load_other: "credential_storage_key k' \<noteq> credential_storage_key k \<Longrightarrow> load k' (save k c st) = load k' st"
begin

lemma refresh_Ok:
  assumes "refresh_credential save http now key endpoint c st = (Ok c', st')"
  shows "cr_issuer c = ck_issuer key" "cr_issuer c' = ck_issuer key" "cr_client c' = ck_client key" "cr_access c' \<noteq> []"
    "cr_refresh c \<noteq> None" "cr_refresh c' \<noteq> None" "load key st' = Some c'" "is_ok (validate_token_endpoint endpoint)"
  using assms
  by (auto simp: refresh_credential_def credential_from_token_response_def Let_def load_save
      split: if_splits option.splits sum.splits)

lemma refresh_Err: "refresh_credential save http now key endpoint c st = (Err e, st') \<Longrightarrow> st' = st"
  by (auto simp: refresh_credential_def Let_def split: if_splits option.splits sum.splits)

lemma refresh_other:
  "credential_storage_key k' \<noteq> credential_storage_key key \<Longrightarrow>
    load k' (snd (refresh_credential save http now key endpoint c st)) = load k' st"
  by (auto simp: refresh_credential_def Let_def load_other split: option.split sum.split)

text \<open>A header is the bearer token of the stored credential, which is bound to the issuer of the key.\<close>

lemma header_bound:
  assumes "current_header load save http now key endpoint st = (Ok (Some h), st')
      \<or> on_unauthorized load save http now key endpoint st = (Ok (Some h), st')"
  shows "\<exists>c. load key st' = Some c \<and> cr_issuer c = ck_issuer key \<and> h = header_for c"
  using assms refresh_Ok(2,7)
  by (fastforce simp: current_header_def on_unauthorized_def split: option.splits if_splits prod.splits sum.splits)

lemma no_header_no_change:
  assumes "current_header load save http now key endpoint st = (result, st')
      \<or> on_unauthorized load save http now key endpoint st = (result, st')"
    and "\<forall>h. result \<noteq> Ok (Some h)"
  shows "st' = st"
  using assms refresh_Err
  by (fastforce simp: current_header_def on_unauthorized_def split: option.splits if_splits prod.splits sum.splits)

text \<open>A fresh header is not of an expired credential, or it was refreshed right now.\<close>

lemma header_unexpired:
  assumes "current_header load save http now key endpoint st = (Ok (Some h), st)" "load key st = Some c"
  shows "\<not> credential_expired c now \<or> snd (refresh_credential save http now key endpoint c st) = st"
  using assms by (auto simp: current_header_def split: if_splits prod.splits sum.splits)

lemma others_untouched:
  assumes "credential_storage_key k' \<noteq> credential_storage_key key"
  shows "load k' (snd (current_header load save http now key endpoint st)) = load k' st"
    "load k' (snd (on_unauthorized load save http now key endpoint st)) = load k' st"
  using refresh_other [OF assms]
  by (auto simp: current_header_def on_unauthorized_def split: option.split prod.split sum.split)
    (metis snd_conv)+

lemma mismatch_refused:
  assumes "load key st = Some c" "cr_issuer c \<noteq> ck_issuer key"
  shows "current_header load save http now key endpoint st = (Err CredentialIssuerMismatch, st)"
    "on_unauthorized load save http now key endpoint st = (Err CredentialIssuerMismatch, st)"
  using assms by (simp_all add: current_header_def on_unauthorized_def)

end

lemma map_of_filter_key: "k' \<noteq> k \<Longrightarrow> map_of (filter (\<lambda>(x, _). x \<noteq> k) st) k' = map_of st k'"
  by (induction st) auto

interpretation memory: credential_store mem_load mem_save
  by unfold_locales (auto simp: mem_load_def mem_save_def map_of_filter_key)

section \<open>Callbacks\<close>

text \<open>A callback passes only with the state of its session, a code, and the expected issuer if it names one.\<close>

lemma validate_callback_Ok:
  "validate_callback session cb expected = Ok () \<longleftrightarrow> cb_state cb = as_state session \<and> cb_code cb \<noteq> []
    \<and> (\<forall>iss. cb_iss cb = Some iss \<longrightarrow> validate_issuer expected iss = Ok ())"
  by (auto simp: validate_callback_def validate_issuer_def split: option.splits)

lemma begin_authorization_Ok:
  assumes "begin_authorization sha256 R endpoint client redirect scopes = Ok (url, session)"
  shows "as_redirect session = redirect" "as_server session = endpoint" "set (as_state session) \<subseteq> set base64_table"
    "length (as_verifier session) = (length (or_verifier R) * 4 + 2) div 3"
  using assms base64_alphabet [of "or_state R"] base64_length by (auto simp: begin_authorization_def Let_def split: if_splits)

section \<open>Where the checks are weaker than their comments\<close>

text \<open>The storage key leaves out the resource origin: a credential of one origin is sent to another.\<close>

definition files_key :: "string \<Rightarrow> credential_key" where
  "files_key origin = \<lparr>ck_server = ''files'', ck_origin = origin, ck_issuer = ''https://as'', ck_client = ''app''\<rparr>"

definition files_credential :: credential where
  "files_credential = \<lparr>cr_access = ''t'', cr_refresh = None, cr_issuer = ''https://as'', cr_client = ''app'',
     cr_expires = None, cr_scopes = []\<rparr>"

lemma credential_crosses_origins:
  "fst (current_header mem_load mem_save http 0 (files_key ''https://b'') endpoint
      (mem_save (files_key ''https://a'') files_credential [])) = Ok (Some ''Bearer t'')"
  by (simp add: current_header_def mem_load_def mem_save_def files_key_def files_credential_def credential_storage_key_def
      credential_expired_def header_for_def)

text \<open>The loopback tests look at a prefix of the host, and every slash at the end of an issuer is dropped.\<close>

lemma loopback_is_a_prefix:
  "validate_token_endpoint ''http://127.0.0.1.example.com/token'' = Ok ()"
  "validate_token_endpoint ''http://localhost.example.com/token'' = Ok ()"
  "validate_issuer ''https://as'' ''https://as//'' = Ok ()"
  "validate_cimd_url ''https://example.com?next=/x'' = Ok ()"
  by code_simp+

text \<open>C20: Credentials stay with their issuer. Whatever the token endpoint answers, asking the provider for a
  header, at first or after a refusal, leaves the credentials of every other storage key alone; a header
  it gives is the bearer token of the credential then stored under its key, which is bound to the key's
  issuer; and when it gives none, or fails, the store is unchanged.\<close>

theorem credentials_stay_with_issuer:
  assumes "(result, st') \<in> {current_header mem_load mem_save http now key endpoint st,
      on_unauthorized mem_load mem_save http now key endpoint st}"
  shows "(\<forall>k. credential_storage_key k \<noteq> credential_storage_key key \<longrightarrow> mem_load k st' = mem_load k st)
    \<and> (case result of
         Ok (Some h) \<Rightarrow> \<exists>c. mem_load key st' = Some c \<and> cr_issuer c = ck_issuer key \<and> h = header_for c
       | _ \<Rightarrow> st' = st)"
proof -
  have "\<forall>k. credential_storage_key k \<noteq> credential_storage_key key \<longrightarrow> mem_load k st' = mem_load k st"
    using assms memory.others_untouched [of _ key] by (metis insertE singletonD snd_conv)
  moreover have "\<exists>c. mem_load key st' = Some c \<and> cr_issuer c = ck_issuer key \<and> h = header_for c" if "result = Ok (Some h)" for h
    using assms that memory.header_bound [of http now key endpoint st h st'] by auto
  moreover have "st' = st" if "\<forall>h. result \<noteq> Ok (Some h)"
    using assms that memory.no_header_no_change [of http now key endpoint st result st'] by auto
  ultimately show ?thesis by (auto split: sum.split option.split)
qed

definition expired_credential :: credential where
  "expired_credential = files_credential\<lparr>cr_refresh := Some ''r'', cr_expires := Some 5\<rparr>"

definition fresh_tokens :: token_endpoint where
  "fresh_tokens url form = Ok (Some \<lparr>tr_access = ''u'', tr_refresh = None, tr_expires_in = None, tr_scope = None\<rparr>)"

theorem credentials_stay_with_issuer_witness:
  "let (result, st') = current_header mem_load mem_save fresh_tokens 9 (files_key ''https://a'') ''https://as/token''
      (mem_save (files_key ''https://a'') expired_credential [])
   in result = Ok (Some ''Bearer u'') \<and> (\<exists>c. mem_load (files_key ''https://a'') st' = Some c \<and> cr_issuer c = ''https://as'')"
proof -
  let ?r = "current_header mem_load mem_save fresh_tokens 9 (files_key ''https://a'') ''https://as/token''
      (mem_save (files_key ''https://a'') expired_credential [])"
  have "fst ?r = Ok (Some ''Bearer u'')" by code_simp
  then obtain st' where r: "?r = (Ok (Some ''Bearer u''), st')" by (metis prod.collapse)
  have "ck_issuer (files_key ''https://a'') = ''https://as''" by (simp add: files_key_def)
  then show ?thesis
    using credentials_stay_with_issuer [of "Ok (Some ''Bearer u'')" st' fresh_tokens 9 "files_key ''https://a''" "''https://as/token''"
        "mem_save (files_key ''https://a'') expired_credential []"]
    unfolding r Let_def by auto
qed

end
