(* ===== verification/McpSession.thy ===== *)
theory McpSession
  imports Values "HOL-Library.AList"
begin

text \<open>
  Protocol sessions of \<open>launcher-mcp\<close>: the protocol profiles (\<open>compat.rs\<close>), the identity and the state
  of a session (\<open>protocol/session.rs\<close>) and the registry (\<open>protocol/session_manager.rs\<close>). The \<open>HashMap\<close>
  of the registry is an association list with distinct keys, its iteration order the list's; the
  counter \<open>SESSION_SEQ\<close> is a field of the registry. Clock readings are arguments.
\<close>

section \<open>Profiles, keys and states\<close>

datatype mcp_profile = V2025_06_18 | V2026_07_28

fun profile_str :: "mcp_profile \<Rightarrow> string" where
  "profile_str V2025_06_18 = ''2025-06-18''"
| "profile_str V2026_07_28 = ''2026-07-28''"

definition profile_parse :: "string \<Rightarrow> mcp_profile option" where
  "profile_parse s =
     (if str_trim s \<in> {''2025-06-18'', [], ''legacy''} then Some V2025_06_18
      else if str_trim s \<in> {''2026-07-28'', ''2026''} then Some V2026_07_28 else None)"

fun needs_handshake :: "mcp_profile \<Rightarrow> bool" where
  "needs_handshake V2025_06_18 = True"
| "needs_handshake V2026_07_28 = False"

record session_key =
  pk_namespace :: string
  pk_endpoint :: string
  pk_profile :: mcp_profile

definition mcp_session_key :: "string \<Rightarrow> mcp_profile \<Rightarrow> session_key" where
  "mcp_session_key server p = \<lparr>pk_namespace = ''mcp'', pk_endpoint = server, pk_profile = p\<rparr>"

definition session_storage_key :: "session_key \<Rightarrow> string" where
  "session_storage_key k = pk_namespace k @ ''/'' @ pk_endpoint k @ ''/'' @ profile_str (pk_profile k)"

datatype session_state = SessNew | SessInitializing | SessReady | SessInvalid | SessFailed | SessClosed

fun can_acquire_operation :: "session_state \<Rightarrow> bool" where
  "can_acquire_operation SessReady = True"
| "can_acquire_operation _ = False"

definition can_re_establish :: "session_state \<Rightarrow> bool" where
  "can_re_establish s \<longleftrightarrow> s \<in> {SessNew, SessInvalid, SessFailed}"

record protocol_session =
  ps_id :: "64 word"
  ps_runtime :: "64 word option"
  ps_key :: session_key
  ps_state :: session_state
  ps_created :: nat
  ps_activity :: nat

record session_record =
  rec_session :: protocol_session
  rec_active :: bool

datatype session_error = SessionNotFound | SessionKeyMismatch | SessionClosed | SessionBusy | SessionNotRecoverable

record session_manager =
  sm_sessions :: "(session_key \<times> session_record) list"
  sm_seq :: "64 word"

definition sm_new :: session_manager where
  "sm_new = \<lparr>sm_sessions = [], sm_seq = 0\<rparr>"

definition new_session :: "nat \<Rightarrow> session_key \<Rightarrow> 64 word option \<Rightarrow> 64 word \<Rightarrow> protocol_session" where
  "new_session now k rt i =
     \<lparr>ps_id = i, ps_runtime = rt, ps_key = k, ps_state = SessNew, ps_created = now, ps_activity = now\<rparr>"

section \<open>The registry\<close>

definition sm_get :: "session_key \<Rightarrow> session_manager \<Rightarrow> 64 word option" where
  "sm_get k m = (case map_of (sm_sessions m) k of
     Some r \<Rightarrow> if ps_state (rec_session r) \<noteq> SessClosed then Some (ps_id (rec_session r)) else None
   | None \<Rightarrow> None)"

definition has_id :: "64 word \<Rightarrow> session_record \<Rightarrow> bool" where
  "has_id i r \<longleftrightarrow> ps_id (rec_session r) = i"

definition sm_state :: "64 word \<Rightarrow> session_manager \<Rightarrow> session_state option" where
  "sm_state i m = map_option (\<lambda>r. ps_state (rec_session r)) (find (has_id i) (map snd (sm_sessions m)))"

definition sm_session :: "session_key \<Rightarrow> session_manager \<Rightarrow> protocol_session option" where
  "sm_session k m = map_option rec_session (map_of (sm_sessions m) k)"

text \<open>\<open>values_mut().find(..)\<close> with the change the caller makes to the record found.\<close>

fun change_first :: "('v \<Rightarrow> bool) \<Rightarrow> ('v \<Rightarrow> 'v) \<Rightarrow> ('k \<times> 'v) list \<Rightarrow> ('k \<times> 'v) list option" where
  "change_first P f [] = None"
| "change_first P f ((k, v) # xs) = (if P v then Some ((k, f v) # xs) else map_option ((#) (k, v)) (change_first P f xs))"

definition on_record :: "64 word \<Rightarrow> (session_record \<Rightarrow> session_record) \<Rightarrow> session_manager \<Rightarrow>
    (session_error + unit) \<times> session_manager" where
  "on_record i f m = (case change_first (has_id i) f (sm_sessions m) of
     None \<Rightarrow> (Err SessionNotFound, m)
   | Some ss \<Rightarrow> (Ok (), m\<lparr>sm_sessions := ss\<rparr>))"

definition set_state :: "session_state \<Rightarrow> session_record \<Rightarrow> session_record" where
  "set_state s r = r\<lparr>rec_session := (rec_session r)\<lparr>ps_state := s\<rparr>\<rparr>"

definition touch_record :: "nat \<Rightarrow> session_record \<Rightarrow> session_record" where
  "touch_record now r = r\<lparr>rec_session := (rec_session r)\<lparr>ps_activity := now\<rparr>\<rparr>"

definition establish :: "nat \<Rightarrow> session_key \<Rightarrow> 64 word option \<Rightarrow> session_manager \<Rightarrow>
    (session_error + 64 word) \<times> session_manager" where
  "establish now k rt m =
     (let fresh = (Ok (sm_seq m + 1),
            m\<lparr>sm_seq := sm_seq m + 1,
              sm_sessions := AList.update k \<lparr>rec_session = new_session now k rt (sm_seq m + 1), rec_active = False\<rparr> (sm_sessions m)\<rparr>)
      in case map_of (sm_sessions m) k of
        Some r \<Rightarrow> if ps_state (rec_session r) = SessReady \<and> \<not> rec_active r then (Ok (ps_id (rec_session r)), m) else fresh
      | None \<Rightarrow> fresh)"

definition mark_ready :: "nat \<Rightarrow> 64 word \<Rightarrow> session_manager \<Rightarrow> (session_error + unit) \<times> session_manager" where
  "mark_ready now i = on_record i (\<lambda>r. touch_record now (set_state SessReady r))"

definition mark_failed :: "64 word \<Rightarrow> session_manager \<Rightarrow> (session_error + unit) \<times> session_manager" where
  "mark_failed i = on_record i (set_state SessFailed)"

definition acquire_operation :: "nat \<Rightarrow> session_key \<Rightarrow> session_manager \<Rightarrow>
    (session_error + 64 word) \<times> session_manager" where
  "acquire_operation now k m = (case map_of (sm_sessions m) k of
     None \<Rightarrow> (Err SessionNotFound, m)
   | Some r \<Rightarrow>
       if ps_key (rec_session r) \<noteq> k then (Err SessionKeyMismatch, m)
       else case ps_state (rec_session r) of
         SessReady \<Rightarrow>
           if \<not> rec_active r
           then (Ok (ps_id (rec_session r)),
                 m\<lparr>sm_sessions := AList.update k (touch_record now (r\<lparr>rec_active := True\<rparr>)) (sm_sessions m)\<rparr>)
           else (Err SessionBusy, m)
       | SessClosed \<Rightarrow> (Err SessionClosed, m)
       | SessInvalid \<Rightarrow> (Err SessionNotRecoverable, m)
       | SessFailed \<Rightarrow> (Err SessionNotRecoverable, m)
       | _ \<Rightarrow> (Err SessionBusy, m))"

definition release_operation :: "nat \<Rightarrow> 64 word \<Rightarrow> session_manager \<Rightarrow> (session_error + unit) \<times> session_manager" where
  "release_operation now i = on_record i (\<lambda>r. touch_record now (r\<lparr>rec_active := False\<rparr>))"

definition invalidate :: "64 word \<Rightarrow> session_manager \<Rightarrow> (session_error + unit) \<times> session_manager" where
  "invalidate i = on_record i (\<lambda>r. (set_state SessInvalid r)\<lparr>rec_active := False\<rparr>)"

definition bound_open :: "64 word \<Rightarrow> session_record \<Rightarrow> bool" where
  "bound_open rt r \<longleftrightarrow> ps_runtime (rec_session r) = Some rt \<and> ps_state (rec_session r) \<noteq> SessClosed"

definition close_for_runtime :: "64 word \<Rightarrow> session_manager \<Rightarrow> 64 word list \<times> session_manager" where
  "close_for_runtime rt m =
     (map (\<lambda>(_, r). ps_id (rec_session r)) (filter (\<lambda>(_, r). bound_open rt r) (sm_sessions m)),
      m\<lparr>sm_sessions := map (\<lambda>(k, r). (k, if bound_open rt r then (set_state SessClosed r)\<lparr>rec_active := False\<rparr> else r))
         (sm_sessions m)\<rparr>)"

definition purge_closed :: "session_manager \<Rightarrow> session_manager" where
  "purge_closed m = m\<lparr>sm_sessions := filter (\<lambda>(_, r). ps_state (rec_session r) \<noteq> SessClosed) (sm_sessions m)\<rparr>"

definition validate_pair :: "session_manager \<Rightarrow> 64 word \<Rightarrow> session_key \<Rightarrow> session_error + unit" where
  "validate_pair m i k = (case sm_get k m of
     Some j \<Rightarrow> if j = i then Ok () else Err SessionKeyMismatch
   | None \<Rightarrow> Err SessionNotFound)"

section \<open>Calls\<close>

datatype session_call =
    Establish session_key "64 word option" | MarkReady "64 word" | MarkFailed "64 word" | Acquire session_key
  | Release "64 word" | Invalidate "64 word" | CloseRuntime "64 word" | PurgeClosed

fun session_step :: "nat \<times> session_call \<Rightarrow> session_manager \<Rightarrow> session_manager" where
  "session_step (now, Establish k rt) m = snd (establish now k rt m)"
| "session_step (now, MarkReady i) m = snd (mark_ready now i m)"
| "session_step (now, MarkFailed i) m = snd (mark_failed i m)"
| "session_step (now, Acquire k) m = snd (acquire_operation now k m)"
| "session_step (now, Release i) m = snd (release_operation now i m)"
| "session_step (now, Invalidate i) m = snd (invalidate i m)"
| "session_step (now, CloseRuntime rt) m = snd (close_for_runtime rt m)"
| "session_step (now, PurgeClosed) m = purge_closed m"

definition session_calls :: "(nat \<times> session_call) list \<Rightarrow> session_manager \<Rightarrow> session_manager" where
  "session_calls cs m = fold session_step cs m"

section \<open>The registry's invariant\<close>

text \<open>Every record under its own key, every id minted once, and no operation on a session that is new,
  invalid or closed.\<close>

definition record_ok :: "64 word \<Rightarrow> session_key \<times> session_record \<Rightarrow> bool" where
  "record_ok seq = (\<lambda>(k, r). ps_key (rec_session r) = k \<and> ps_id (rec_session r) \<le> seq
     \<and> (rec_active r \<longrightarrow> ps_state (rec_session r) \<in> {SessInitializing, SessReady, SessFailed}))"

definition sessions_inv :: "session_manager \<Rightarrow> bool" where
  "sessions_inv m \<longleftrightarrow> distinct (map fst (sm_sessions m)) \<and> distinct (map (\<lambda>(_, r). ps_id (rec_session r)) (sm_sessions m))
     \<and> list_all (record_ok (sm_seq m)) (sm_sessions m)"

lemma change_first_update:
  "change_first P f xs = Some ys \<Longrightarrow> \<exists>i < length xs. P (snd (xs ! i)) \<and> ys = xs[i := (fst (xs ! i), f (snd (xs ! i)))]"
proof (induction xs arbitrary: ys)
  case (Cons x xs)
  obtain k v where x: "x = (k, v)" by (cases x)
  show ?case
  proof (cases "P v")
    case True
    with Cons.prems x show ?thesis by (intro exI [of _ 0]) auto
  next
    case False
    with Cons.prems x obtain zs where zs: "change_first P f xs = Some zs" "ys = x # zs" by auto
    from Cons.IH [OF zs(1)] obtain i where i: "i < length xs" "P (snd (xs ! i))"
        "zs = xs[i := (fst (xs ! i), f (snd (xs ! i)))]" by blast
    show ?thesis by (rule exI [of _ "Suc i"]) (use i zs(2) in simp)
  qed
qed simp

definition record_id :: "session_key \<times> session_record \<Rightarrow> 64 word" where
  "record_id x = ps_id (rec_session (snd x))"

lemma sessions_inv_alt:
  "sessions_inv m \<longleftrightarrow> distinct (map fst (sm_sessions m)) \<and> distinct (map record_id (sm_sessions m))
     \<and> list_all (record_ok (sm_seq m)) (sm_sessions m)"
  by (simp add: sessions_inv_def record_id_def [abs_def] split_beta')

lemma list_all_update: "list_all P xs \<Longrightarrow> P x \<Longrightarrow> list_all P (xs[i := x])"
  by (auto simp: list_all_iff dest!: set_update_subset_insert [THEN subsetD])

lemma map_update_same: "i < length xs \<Longrightarrow> g x = g (xs ! i) \<Longrightarrow> map g (xs[i := x]) = map g xs"
  by (metis list_update_id map_update nth_map)

text \<open>The calls that change one record found by its id.\<close>

lemma on_record_inv:
  assumes "sessions_inv m" "\<And>r. ps_id (rec_session (f r)) = ps_id (rec_session r) \<and> ps_key (rec_session (f r)) = ps_key (rec_session r)"
    and "\<And>k r seq. record_ok seq (k, r) \<Longrightarrow> record_ok seq (k, f r)"
  shows "sessions_inv (snd (on_record i f m))"
proof (cases "change_first (has_id i) f (sm_sessions m)")
  case None
  with assms(1) show ?thesis by (simp add: on_record_def)
next
  case (Some ys)
  let ?xs = "sm_sessions m"
  obtain j where j: "j < length ?xs" "ys = ?xs[j := (fst (?xs ! j), f (snd (?xs ! j)))]"
    using change_first_update [OF Some] by blast
  have "map fst ys = map fst ?xs" "map record_id ys = map record_id ?xs"
    unfolding j(2) using j(1) assms(2) by (intro map_update_same; simp add: record_id_def)+
  moreover have "record_ok (sm_seq m) (?xs ! j)" using assms(1) j(1) by (simp add: sessions_inv_def list_all_length)
  then have "list_all (record_ok (sm_seq m)) ys"
    unfolding j(2) using assms(1,3) by (intro list_all_update) (auto simp: sessions_inv_def)
  ultimately show ?thesis using assms(1) Some by (simp add: on_record_def sessions_inv_alt)
qed

lemma record_ok_changes:
  "record_ok seq (k, r) \<Longrightarrow> record_ok seq (k, touch_record now (set_state SessReady r))"
  "record_ok seq (k, r) \<Longrightarrow> record_ok seq (k, set_state SessFailed r)"
  "record_ok seq (k, r) \<Longrightarrow> record_ok seq (k, touch_record now (r\<lparr>rec_active := False\<rparr>))"
  "record_ok seq (k, r) \<Longrightarrow> record_ok seq (k, (set_state s r)\<lparr>rec_active := False\<rparr>)"
  by (simp_all add: record_ok_def touch_record_def set_state_def)

lemma update_elements: "x \<in> set (AList.update k v xs) \<Longrightarrow> x = (k, v) \<or> (x \<in> set xs)"
  by (induction xs) (auto split: if_splits)

lemma update_ids:
  assumes "distinct (map fst xs)" "distinct (map g xs)" "\<And>x. x \<in> set xs \<Longrightarrow> fst x \<noteq> k \<Longrightarrow> g x \<noteq> g (k, v)"
  shows "distinct (map g (AList.update k v xs))"
  using assms
proof (induction xs)
  case (Cons x xs)
  obtain k' v' where x: "x = (k', v')" by (cases x)
  show ?case
  proof (cases "k' = k")
    case True
    have "g (k, v) \<noteq> g y" if y: "y \<in> set xs" for y
      using Cons.prems(1) Cons.prems(3) [of y] y True x by force
    then show ?thesis using Cons.prems(2) True x by auto
  next
    case False
    then have "g x \<notin> g ` set (AList.update k v xs)"
      using Cons.prems update_elements [of _ k v xs] x by fastforce
    with Cons False x show ?thesis by auto
  qed
qed simp

lemma update_list_all: "list_all P xs \<Longrightarrow> P (k, v) \<Longrightarrow> list_all P (AList.update k v xs)"
  by (auto simp: list_all_iff dest: update_elements)

lemma next_id:
  assumes "unat (sm_seq m) < 2 ^ 64 - 1" "x \<le> sm_seq m"
  shows "x \<le> sm_seq m + 1" "x \<noteq> sm_seq m + 1"
  using assms unat_plus_one [OF assms(1)] by (auto simp: word_le_nat_alt)

lemma sessions_inv_new: "sessions_inv sm_new"
  by (simp add: sessions_inv_def sm_new_def)

lemma establish_cases:
  "(\<exists>i. establish now k rt m = (Ok i, m))
    \<or> establish now k rt m = (Ok (sm_seq m + 1), m\<lparr>sm_seq := sm_seq m + 1,
        sm_sessions := AList.update k \<lparr>rec_session = new_session now k rt (sm_seq m + 1), rec_active = False\<rparr> (sm_sessions m)\<rparr>)"
  by (auto simp: establish_def Let_def split: option.split)

lemma sessions_inv_establish:
  assumes inv: "sessions_inv m" and seq: "unat (sm_seq m) < 2 ^ 64 - 1"
  shows "sessions_inv (snd (establish now k rt m))"
proof -
  let ?r = "\<lparr>rec_session = new_session now k rt (sm_seq m + 1), rec_active = False\<rparr>"
  have ok: "list_all (record_ok (sm_seq m + 1)) (sm_sessions m)"
    using inv next_id(1) [OF seq] by (auto simp: sessions_inv_def list_all_iff record_ok_def)
  have "record_id x \<noteq> record_id (k, ?r)" if "x \<in> set (sm_sessions m)" for x
  proof -
    have "record_id x \<le> sm_seq m" using inv that by (auto simp: sessions_inv_def list_all_iff record_ok_def record_id_def)
    with next_id(2) [OF seq] show ?thesis by (simp add: record_id_def new_session_def)
  qed
  with inv have "distinct (map record_id (AList.update k ?r (sm_sessions m)))"
    by (intro update_ids) (simp_all add: sessions_inv_alt)
  moreover have "record_ok (sm_seq m + 1) (k, ?r)" by (simp add: record_ok_def new_session_def)
  ultimately have "sessions_inv (m\<lparr>sm_seq := sm_seq m + 1, sm_sessions := AList.update k ?r (sm_sessions m)\<rparr>)"
    using inv update_list_all [OF ok] by (simp add: sessions_inv_alt distinct_update)
  with inv establish_cases [of now k rt m] show ?thesis by auto
qed

lemma acquire_Ok:
  "fst (acquire_operation now k m) = Ok i \<longleftrightarrow> (\<exists>r. map_of (sm_sessions m) k = Some r \<and> ps_key (rec_session r) = k
     \<and> ps_state (rec_session r) = SessReady \<and> \<not> rec_active r \<and> ps_id (rec_session r) = i)"
  by (auto simp: acquire_operation_def split: option.splits session_state.splits)

lemma acquire_cases:
  "snd (acquire_operation now k m) = m
    \<or> (\<exists>r. map_of (sm_sessions m) k = Some r \<and> ps_state (rec_session r) = SessReady \<and> \<not> rec_active r
        \<and> snd (acquire_operation now k m) = m\<lparr>sm_sessions := AList.update k (touch_record now (r\<lparr>rec_active := True\<rparr>)) (sm_sessions m)\<rparr>)"
  by (auto simp: acquire_operation_def split: option.split session_state.split)

lemma sessions_inv_acquire:
  assumes inv: "sessions_inv m"
  shows "sessions_inv (snd (acquire_operation now k m))"
proof -
  {
    fix r assume r: "map_of (sm_sessions m) k = Some r" "ps_state (rec_session r) = SessReady"
    let ?r = "touch_record now (r\<lparr>rec_active := True\<rparr>)"
    have mem: "(k, r) \<in> set (sm_sessions m)" using r(1) by (rule map_of_SomeD)
    have "record_id x \<noteq> record_id (k, ?r)" if "x \<in> set (sm_sessions m)" "fst x \<noteq> k" for x
    proof -
      have "record_id x \<noteq> record_id (k, r)"
        using inv mem that unfolding sessions_inv_alt distinct_map by (metis fst_conv inj_onD)
      then show ?thesis by (simp add: record_id_def touch_record_def)
    qed
    with inv have "distinct (map record_id (AList.update k ?r (sm_sessions m)))"
      by (intro update_ids) (simp_all add: sessions_inv_alt)
    moreover have "record_ok (sm_seq m) (k, ?r)"
      using inv mem r(2) by (auto simp: sessions_inv_def list_all_iff record_ok_def touch_record_def)
    ultimately have "sessions_inv (m\<lparr>sm_sessions := AList.update k ?r (sm_sessions m)\<rparr>)"
      using inv update_list_all [of "record_ok (sm_seq m)" _ k ?r] by (simp add: sessions_inv_alt distinct_update)
  }
  with inv acquire_cases [of now k m] show ?thesis by auto
qed

lemma sessions_inv_map:
  assumes "sessions_inv m" "\<And>k r. record_ok (sm_seq m) (k, r) \<Longrightarrow> record_ok (sm_seq m) (k, f r)"
    and "\<And>r. ps_id (rec_session (f r)) = ps_id (rec_session r)"
  shows "sessions_inv (m\<lparr>sm_sessions := map (\<lambda>(k, r). (k, f r)) (sm_sessions m)\<rparr>)"
  using assms by (auto simp: sessions_inv_alt list_all_iff comp_def split_beta' record_id_def [abs_def])

lemma sessions_inv_marks:
  assumes "sessions_inv m"
  shows "sessions_inv (snd (mark_ready now i m))" "sessions_inv (snd (mark_failed i m))"
    "sessions_inv (snd (release_operation now i m))" "sessions_inv (snd (invalidate i m))"
  unfolding mark_ready_def mark_failed_def release_operation_def invalidate_def
  by (rule on_record_inv [OF assms]; simp add: record_ok_def touch_record_def set_state_def)+

lemma sessions_inv_step:
  assumes "sessions_inv m" "unat (sm_seq m) < 2 ^ 64 - 1"
  shows "sessions_inv (session_step c m)"
proof (cases "(c, m)" rule: session_step.cases)
  case (7 now rt m)
  have "record_ok seq (k, if bound_open rt r then (set_state SessClosed r)\<lparr>rec_active := False\<rparr> else r)"
    if "record_ok seq (k, r)" for seq k r
    using that record_ok_changes(4) by simp
  with 7 assms sessions_inv_map [of m "\<lambda>r. if bound_open rt r then (set_state SessClosed r)\<lparr>rec_active := False\<rparr> else r"]
  show ?thesis by (simp add: close_for_runtime_def set_state_def)
next
  case (8 now m)
  with assms show ?thesis by (auto simp: sessions_inv_alt purge_closed_def distinct_map_filter list_all_iff)
qed (use assms in \<open>auto simp: sessions_inv_establish sessions_inv_acquire sessions_inv_marks\<close>)

lemma seq_step:
  assumes "unat (sm_seq m) < 2 ^ 64 - 1"
  shows "unat (sm_seq (session_step c m)) \<le> Suc (unat (sm_seq m))"
proof (cases "(c, m)" rule: session_step.cases)
  case (1 now k rt m)
  with assms show ?thesis using establish_cases [of now k rt m] unat_plus_one [of "sm_seq m"] by auto
next
  case (4 now k m)
  then show ?thesis using acquire_cases [of now k m] by auto
qed (auto simp: mark_ready_def mark_failed_def release_operation_def invalidate_def on_record_def close_for_runtime_def
      purge_closed_def split: option.split)

lemma session_calls_inv:
  assumes "sessions_inv m" "unat (sm_seq m) + length cs < 2 ^ 64"
  shows "sessions_inv (session_calls cs m) \<and> unat (sm_seq (session_calls cs m)) \<le> unat (sm_seq m) + length cs"
  using assms
proof (induction cs arbitrary: m)
  case (Cons c cs)
  then have s: "unat (sm_seq m) < 2 ^ 64 - 1" by simp
  note one = sessions_inv_step [OF Cons.prems(1) s, of c] seq_step [OF s, of c]
  with Cons.IH [of "session_step c m"] Cons.prems(2) show ?case by (simp add: session_calls_def)
qed (simp add: session_calls_def)

section \<open>One operation at a time\<close>

definition held_record :: "64 word \<Rightarrow> 64 word option \<Rightarrow> session_key \<times> session_record \<Rightarrow> bool" where
  "held_record i rt = (\<lambda>(_, r). ps_id (rec_session r) = i \<longrightarrow> rec_active r \<and> ps_runtime (rec_session r) = rt)"

definition held :: "64 word \<Rightarrow> 64 word option \<Rightarrow> session_manager \<Rightarrow> bool" where
  "held i rt m \<longleftrightarrow> list_all (held_record i rt) (sm_sessions m) \<and> i \<le> sm_seq m"

fun frees :: "64 word \<Rightarrow> 64 word option \<Rightarrow> session_call \<Rightarrow> bool" where
  "frees i rt (Release j) \<longleftrightarrow> j = i"
| "frees i rt (Invalidate j) \<longleftrightarrow> j = i"
| "frees i rt (CloseRuntime r) \<longleftrightarrow> rt = Some r"
| "frees i rt _ \<longleftrightarrow> False"

lemma held_on_record:
  assumes "held i rt m" "\<And>k r. ps_id (rec_session r) = j \<Longrightarrow> held_record i rt (k, r) \<Longrightarrow> held_record i rt (k, f r)"
  shows "held i rt (snd (on_record j f m))"
proof (cases "change_first (has_id j) f (sm_sessions m)")
  case None
  with assms(1) show ?thesis by (simp add: on_record_def)
next
  case (Some ys)
  let ?xs = "sm_sessions m"
  obtain n where n: "n < length ?xs" "has_id j (snd (?xs ! n))" "ys = ?xs[n := (fst (?xs ! n), f (snd (?xs ! n)))]"
    using change_first_update [OF Some] by blast
  have "held_record i rt (?xs ! n)" using assms(1) n(1) by (simp add: held_def list_all_length)
  then have "held_record i rt (fst (?xs ! n), f (snd (?xs ! n)))" using assms(2) n(2) by (simp add: has_id_def)
  with assms(1) Some n(3) show ?thesis by (simp add: on_record_def held_def list_all_update)
qed

lemma held_step:
  assumes "held i rt m" "\<not> frees i rt (snd c)" "unat (sm_seq m) < 2 ^ 64 - 1"
  shows "held i rt (session_step c m)"
proof (cases "(c, m)" rule: session_step.cases)
  case (1 now k r m)
  let ?new = "\<lparr>rec_session = new_session now k r (sm_seq m + 1), rec_active = False\<rparr>"
  have "i \<le> sm_seq m" "unat (sm_seq m) < 2 ^ 64 - 1" using assms(1,3) 1 by (simp_all add: held_def)
  then have "i \<le> sm_seq m + 1" "held_record i rt (k, ?new)"
    using next_id [of m i] by (auto simp: held_record_def new_session_def)
  with 1 assms(1) establish_cases [of now k r m] show ?thesis by (auto simp: held_def update_list_all)
next
  case (4 now k m)
  have "held_record i rt (k, touch_record now (r\<lparr>rec_active := True\<rparr>))" if "map_of (sm_sessions m) k = Some r" for r
  proof -
    have "(k, r) \<in> set (sm_sessions m)" using that by (rule map_of_SomeD)
    with 4 assms(1) show ?thesis by (auto simp: held_def list_all_iff held_record_def touch_record_def)
  qed
  with 4 assms(1) acquire_cases [of now k m] show ?thesis by (auto simp: held_def update_list_all)
next
  case (7 now r m)
  have "held_record i rt (case x of (k, q) \<Rightarrow> (k, if bound_open r q then (set_state SessClosed q)\<lparr>rec_active := False\<rparr> else q))"
    if "held_record i rt x" for x
    using that assms(2) 7 by (cases x) (auto simp: held_record_def bound_open_def set_state_def)
  with 7 assms(1) show ?thesis by (auto simp: held_def list_all_iff close_for_runtime_def)
next
  case (8 now m)
  with assms(1) show ?thesis by (auto simp: held_def list_all_iff purge_closed_def)
qed (use assms in \<open>auto simp: mark_ready_def mark_failed_def release_operation_def invalidate_def held_record_def
      touch_record_def set_state_def intro!: held_on_record\<close>)

lemma held_calls:
  assumes "held i rt m" "sessions_inv m" "list_all (\<lambda>c. \<not> frees i rt (snd c)) cs" "unat (sm_seq m) + length cs < 2 ^ 64"
  shows "held i rt (session_calls cs m)"
  using assms
proof (induction cs arbitrary: m)
  case (Cons c cs)
  then have s: "unat (sm_seq m) < 2 ^ 64 - 1" by simp
  note one = held_step [OF Cons.prems(1) _ s, of c] sessions_inv_step [OF Cons.prems(2) s, of c] seq_step [OF s, of c]
  with Cons.IH [of "session_step c m"] Cons.prems(3,4) show ?case by (simp add: session_calls_def)
qed (simp add: session_calls_def)

lemma held_acquire:
  assumes inv: "sessions_inv m" and ok: "fst (acquire_operation now k m) = Ok i"
    and s: "sm_session k m = Some s"
  shows "held i (ps_runtime s) (snd (acquire_operation now k m))"
proof -
  obtain r where r: "map_of (sm_sessions m) k = Some r" "ps_key (rec_session r) = k" "ps_state (rec_session r) = SessReady"
      "\<not> rec_active r" "ps_id (rec_session r) = i"
    using ok by (auto simp: acquire_Ok)
  let ?r = "touch_record now (r\<lparr>rec_active := True\<rparr>)"
  have mem: "(k, r) \<in> set (sm_sessions m)" using r(1) by (rule map_of_SomeD)
  have after: "snd (acquire_operation now k m) = m\<lparr>sm_sessions := AList.update k ?r (sm_sessions m)\<rparr>"
    using r by (simp add: acquire_operation_def)
  have "held_record i (ps_runtime s) x" if x: "x \<in> set (AList.update k ?r (sm_sessions m))" for x
  proof (cases "fst x = k")
    case True
    have "distinct (map fst (AList.update k ?r (sm_sessions m)))" using inv by (simp add: sessions_inv_alt distinct_update)
    then have "map_of (AList.update k ?r (sm_sessions m)) k = Some (snd x)" using x True by (metis map_of_is_SomeI prod.collapse)
    then have "snd x = ?r" by (simp add: update_conv)
    moreover have "ps_runtime s = ps_runtime (rec_session r)" using s r(1) by (auto simp: sm_session_def)
    ultimately show ?thesis by (simp add: held_record_def case_prod_beta touch_record_def)
  next
    case False
    then have "x \<in> set (sm_sessions m)" using update_elements [OF x] by auto
    then have "record_id x \<noteq> record_id (k, r)"
      using inv mem False unfolding sessions_inv_alt distinct_map by (metis fst_conv inj_onD)
    then show ?thesis using r(5) by (simp add: held_record_def case_prod_beta record_id_def)
  qed
  moreover have "i \<le> sm_seq m" using inv mem r(5) by (auto simp: sessions_inv_def list_all_iff record_ok_def)
  ultimately show ?thesis unfolding after by (simp add: held_def list_all_iff)
qed

lemma held_refuses: "held i rt m \<Longrightarrow> fst (acquire_operation now k m) \<noteq> Ok i"
proof
  assume h: "held i rt m" and "fst (acquire_operation now k m) = Ok i"
  then obtain r where r: "map_of (sm_sessions m) k = Some r" "\<not> rec_active r" "ps_id (rec_session r) = i"
    by (auto simp: acquire_Ok)
  have "(k, r) \<in> set (sm_sessions m)" using r(1) by (rule map_of_SomeD)
  with h r(2,3) show False by (auto simp: held_def list_all_iff held_record_def)
qed

text \<open>C40: A session runs one operation at a time. Take any calls on a new registry, then an operation
  acquired on a session, then any calls that neither release nor invalidate that session nor close its
  runtime. No key then acquires that session again, whatever was established, marked or purged in
  between; and no operation is active on a session that is new, invalid or closed.\<close>

theorem operations_are_exclusive:
  assumes "m = session_calls before_calls sm_new"
    and "fst (acquire_operation now k m) = Ok i" "sm_session k m = Some s"
    and "list_all (\<lambda>c. \<not> frees i (ps_runtime s) (snd c)) calls"
    and "length before_calls + length calls < 2 ^ 64 - 1"
  shows "fst (acquire_operation now' k' (session_calls calls (snd (acquire_operation now k m)))) \<noteq> Ok i
    \<and> sessions_inv (session_calls calls (snd (acquire_operation now k m)))"
proof -
  let ?m = "snd (acquire_operation now k m)"
  have m: "sessions_inv m" "unat (sm_seq m) \<le> length before_calls"
    using session_calls_inv [OF sessions_inv_new, of before_calls] assms(1,5) by (simp_all add: sm_new_def)
  have "sm_seq ?m = sm_seq m" using acquire_cases [of now k m] by auto
  with m(2) assms(5) have bound: "unat (sm_seq ?m) + length calls < 2 ^ 64" by simp
  have inv: "sessions_inv ?m" by (rule sessions_inv_acquire [OF m(1)])
  have "held i (ps_runtime s) (session_calls calls ?m)"
    by (rule held_calls [OF held_acquire [OF m(1) assms(2,3)] inv assms(4) bound])
  with held_refuses session_calls_inv [OF inv bound] show ?thesis by blast
qed

definition sample_session_key :: session_key where
  "sample_session_key = mcp_session_key ''files'' V2025_06_18"

definition sample_sessions :: session_manager where
  "sample_sessions = session_calls [(0, Establish sample_session_key (Some 7)), (1, MarkReady 1)] sm_new"

theorem operations_are_exclusive_witness:
  "fst (acquire_operation 4 sample_session_key (session_calls [(3, MarkReady 1)]
      (snd (acquire_operation 2 sample_session_key sample_sessions)))) \<noteq> Ok 1"
proof -
  have "fst (acquire_operation 2 sample_session_key sample_sessions) = Ok 1" by code_simp
  moreover have "sm_session sample_session_key sample_sessions =
      Some \<lparr>ps_id = 1, ps_runtime = Some 7, ps_key = sample_session_key, ps_state = SessReady, ps_created = 0, ps_activity = 1\<rparr>"
    by code_simp
  ultimately show ?thesis
    using operations_are_exclusive [OF sample_sessions_def, of 2 sample_session_key 1 _ "[(3, MarkReady 1)]"] by simp
qed

text \<open>The exclusion is of the session, not of the key: establishing a busy key replaces its session, and a
  second operation is acquired before the first is released.\<close>

lemma busy_session_is_replaced:
  "let m1 = snd (acquire_operation 2 sample_session_key sample_sessions);
       m2 = session_calls [(3, Establish sample_session_key (Some 7)), (4, MarkReady 2)] m1
   in fst (acquire_operation 2 sample_session_key sample_sessions) = Ok 1
      \<and> fst (acquire_operation 5 sample_session_key m2) = Ok 2 \<and> fst (release_operation 6 1 m2) = Err SessionNotFound"
  by code_simp

text \<open>A closed session is revived by a late success of its handshake.\<close>

lemma closed_session_is_revived:
  "let m = session_calls [(2, CloseRuntime 7), (3, MarkReady 1)] sample_sessions
   in fst (acquire_operation 4 sample_session_key m) = Ok 1"
  by code_simp

end
