(* ===== verification/RuntimeCore.thy ===== *)
theory RuntimeCore
  imports Bytes "HOL-Library.AList"
begin

text \<open>
  The process runtime (\<open>launcher-runtime\<close>): the bounded line reader of \<open>io.rs\<close>, the life cycle and the ids
  of \<open>lifecycle.rs\<close> and \<open>types.rs\<close>, and the registry of persistent runtimes of \<open>runtime_manager.rs\<close>. A
  reader is the list of what \<open>fill_buf\<close> will return: chunks of bytes, or an error. Instants and durations
  are in milliseconds, and clock readings are arguments.
\<close>

section \<open>Bounded lines\<close>

datatype 'e fill = Chunk string | Fault 'e

datatype line_outcome = LineRead string | LimitExceeded | LineEof

definition newline :: char where "newline = CHR 0x0A"

definition line_position :: "string \<Rightarrow> nat option" where
  "line_position s = (if newline \<in> set s then Some (length (takeWhile (\<lambda>c. c \<noteq> newline) s)) else None)"

text \<open>\<open>consume\<close>: a part of the buffer, or all of it.\<close>

fun reader_consume :: "nat \<Rightarrow> 'e fill list \<Rightarrow> 'e fill list" where
  "reader_consume n (Chunk s # r) = (if length s \<le> n then r else Chunk (drop n s) # r)"
| "reader_consume n r = r"

text \<open>The drain of an oversized line: \<open>n\<close> bytes, or fewer at the end of the stream.\<close>

fun reader_drain :: "nat \<Rightarrow> 'e fill list \<Rightarrow> ('e + unit) \<times> 'e fill list" where
  "reader_drain n [] = (Ok (), [])"
| "reader_drain n (Fault e # r) = (if n = 0 then (Ok (), Fault e # r) else (Err e, r))"
| "reader_drain n (Chunk s # r) =
     (if n = 0 \<or> s = [] then (Ok (), Chunk s # r)
      else if length s \<le> n then reader_drain (n - length s) r
      else (Ok (), Chunk (drop n s) # r))"

definition limit_and_skip :: "nat \<Rightarrow> 'e fill list \<Rightarrow> ('e + line_outcome) \<times> 'e fill list" where
  "limit_and_skip n r = (case reader_drain n r of
     (Err e, r') \<Rightarrow> (Err e, r')
   | (Ok _, r') \<Rightarrow> (Ok LimitExceeded, r'))"

text \<open>The loop, from its buffer and its flag; an empty slice is the end of the stream.\<close>

fun read_line_loop :: "nat \<Rightarrow> string \<Rightarrow> bool \<Rightarrow> 'e fill list \<Rightarrow> ('e + line_outcome) \<times> 'e fill list" where
  "read_line_loop cap buf oversized [] = (if oversized \<or> buf \<noteq> [] then limit_and_skip 0 [] else (Ok LineEof, []))"
| "read_line_loop cap buf oversized (Fault e # r) = (Err e, r)"
| "read_line_loop cap buf oversized (Chunk s # r) =
     (if s = [] then (if oversized \<or> buf \<noteq> [] then limit_and_skip 0 (Chunk s # r) else (Ok LineEof, Chunk s # r))
      else case line_position s of
        Some pos \<Rightarrow>
          if oversized \<or> pos + 1 > cap then limit_and_skip (pos + 1) (Chunk s # r)
          else (Ok (LineRead (utf8_lossy (buf @ take pos s))), reader_consume (pos + 1) (Chunk s # r))
      | None \<Rightarrow>
          let buf' = buf @ take (min (length s) (cap - length buf + 1)) s
          in if length buf' > cap then read_line_loop cap [] True r else read_line_loop cap buf' oversized r)"

definition read_bounded_line :: "nat \<Rightarrow> 'e fill list \<Rightarrow> ('e + line_outcome) \<times> 'e fill list" where
  "read_bounded_line cap r = read_line_loop cap [] False r"

section \<open>What a read leaves and returns\<close>

fun stream_bytes :: "'e fill list \<Rightarrow> string" where
  "stream_bytes [] = []"
| "stream_bytes (Chunk s # r) = s @ stream_bytes r"
| "stream_bytes (Fault e # r) = stream_bytes r"

text \<open>A reader that neither fails nor ends early.\<close>

fun healthy :: "'e fill list \<Rightarrow> bool" where
  "healthy [] = True"
| "healthy (Chunk s # r) = (s \<noteq> [] \<and> healthy r)"
| "healthy (Fault e # r) = False"

definition first_line :: "string \<Rightarrow> string" where
  "first_line s = takeWhile (\<lambda>c. c \<noteq> newline) s"

definition after_line :: "string \<Rightarrow> string" where
  "after_line s = tl (dropWhile (\<lambda>c. c \<noteq> newline) s)"

lemma drain_zero: "reader_drain 0 r = (Ok (), r)"
proof (cases r)
  case (Cons x xs)
  then show ?thesis by (cases x) auto
qed simp

lemma drain_within: "0 < n \<Longrightarrow> n \<le> length s \<Longrightarrow> reader_drain n (Chunk s # r) = (Ok (), reader_consume n (Chunk s # r))"
  by (auto simp: drain_zero)

lemma consume_bytes: "n \<le> length s \<Longrightarrow> stream_bytes (reader_consume n (Chunk s # r)) = drop n (s @ stream_bytes r)"
  by simp

lemma line_position_Some:
  "line_position s = Some pos \<Longrightarrow> pos < length s \<and> take pos s = first_line s \<and> drop (Suc pos) s = after_line s \<and> newline \<in> set s"
  by (induction s arbitrary: pos) (auto simp: line_position_def first_line_def after_line_def split: if_splits)

lemma first_line_append:
  "first_line (s @ t) = (if newline \<in> set s then first_line s else s @ first_line t)"
  "after_line (s @ t) = (if newline \<in> set s then after_line s @ t else after_line t)"
  by (induction s) (auto simp: first_line_def after_line_def)

text \<open>The state of the loop: what it has read of the line is \<open>pre\<close>; the buffer is \<open>pre\<close> until the line is
  oversized.\<close>

definition line_read :: "nat \<Rightarrow> string \<Rightarrow> string \<Rightarrow> ('e + line_outcome) \<times> 'e fill list \<Rightarrow> bool" where
  "line_read cap pre bytes result \<longleftrightarrow> (let line = pre @ first_line bytes in
     if newline \<in> set bytes
     then stream_bytes (snd result) = after_line bytes
        \<and> ((fst result = Ok (LineRead (utf8_lossy line)) \<and> length line < 2 * cap)
           \<or> (fst result = Ok LimitExceeded \<and> cap \<le> length line))
     else stream_bytes (snd result) = [] \<and> fst result = Ok (if line = [] then LineEof else LimitExceeded))"

lemma read_line_loop_reads:
  assumes "healthy r" "length buf \<le> cap" "if oversized then cap < length pre else buf = pre"
  shows "line_read cap pre (stream_bytes r) (read_line_loop cap buf oversized r)"
  using assms
proof (induction cap buf oversized r arbitrary: pre rule: read_line_loop.induct)
  case (1 cap buf oversized)
  then show ?case by (auto simp: line_read_def limit_and_skip_def first_line_def split: if_splits)
next
  case (3 cap buf oversized s r)
  have s: "s \<noteq> []" "healthy r" using "3.prems"(1) by simp_all
  show ?case
  proof (cases "line_position s")
    case None
    then have nl: "newline \<notin> set s" by (simp add: line_position_def split: if_splits)
    let ?buf = "buf @ take (min (length s) (cap - length buf + 1)) s"
    have later: "line_read cap pre (s @ stream_bytes r) res" if "line_read cap (pre @ s) (stream_bytes r) res" for res
      using that nl by (auto simp: line_read_def first_line_append Let_def split: if_splits)
    show ?thesis
    proof (cases "length ?buf > cap")
      case True
      have "cap < length (pre @ s)" using "3.prems"(3) True by (auto split: if_splits)
      with "3.IH"(1) [OF s(1) None refl True s(2), of "pre @ s"] later show ?thesis
        using s(1) None True by (simp add: Let_def)
    next
      case False
      then have fits: "length buf + length s \<le> cap" and all: "?buf = buf @ s" by (auto simp: min_def split: if_splits)
      have "if oversized then cap < length (pre @ s) else ?buf = pre @ s" using "3.prems"(3) all by auto
      with "3.IH"(2) [OF s(1) None refl False s(2), of "pre @ s"] fits
      have "line_read cap (pre @ s) (stream_bytes r) (read_line_loop cap (buf @ s) oversized r)" unfolding all by simp
      then show ?thesis using s(1) None False later unfolding all by (simp add: Let_def fits)
    qed
  next
    case (Some pos)
    note pos = line_position_Some [OF Some]
    have line: "first_line (s @ stream_bytes r) = take pos s" "after_line (s @ stream_bytes r) = drop (Suc pos) (s @ stream_bytes r)"
      using pos by (auto simp: first_line_append)
    have "pos < length s" using pos by blast
    then have len: "length (pre @ take pos s) = length pre + pos" by simp
    show ?thesis
    proof (cases "oversized \<or> pos + 1 > cap")
      case True
      have "cap \<le> length (pre @ take pos s)" using True "3.prems"(3) unfolding len by (auto split: if_splits)
      then show ?thesis
        using s(1) Some True pos line drain_within [of "pos + 1" s r] consume_bytes [of "pos + 1" s r]
        by (simp add: line_read_def limit_and_skip_def Let_def)
    next
      case False
      then have "buf = pre" "length (pre @ take pos s) < 2 * cap" using "3.prems"(2,3) unfolding len by auto
      then show ?thesis
        using s(1) Some False pos line consume_bytes [of "pos + 1" s r] by (simp add: line_read_def Let_def)
    qed
  qed
qed simp

text \<open>C39: A bounded line read stays in step with the stream. On a reader that does not fail, whatever its
  chunks, a read leaves the stream right after the next newline (or at its end) and returns that line,
  decoded, or a framing violation. A line shorter than the cap is always returned, a line of twice the
  cap or more never; a stream that ends without a newline is a framing violation, unless it is empty.\<close>

theorem bounded_read_stays_in_step:
  assumes "healthy r"
  shows "let bytes = stream_bytes r; line = first_line bytes; (result, r') = read_bounded_line cap r in
     if newline \<in> set bytes
     then stream_bytes r' = after_line bytes \<and> result \<in> {Ok (LineRead (utf8_lossy line)), Ok LimitExceeded}
       \<and> (length line < cap \<longrightarrow> result = Ok (LineRead (utf8_lossy line)))
       \<and> (2 * cap \<le> length line \<longrightarrow> result = Ok LimitExceeded)
     else stream_bytes r' = [] \<and> result = Ok (if bytes = [] then LineEof else LimitExceeded)"
proof -
  have "line_read cap [] (stream_bytes r) (read_bounded_line cap r)"
    unfolding read_bounded_line_def by (rule read_line_loop_reads) (use assms in simp_all)
  moreover have "newline \<notin> set b \<Longrightarrow> first_line b = b" for b by (induction b) (auto simp: first_line_def)
  ultimately show ?thesis by (auto simp: line_read_def Let_def case_prod_beta split: if_splits)
qed

theorem bounded_read_stays_in_step_witness:
  "fst (read_bounded_line 4 [Chunk ''ab'', Chunk (''c'' @ [newline]) :: string fill]) = Ok (LineRead ''abc'')"
proof -
  have "healthy [Chunk ''ab'', Chunk (''c'' @ [newline]) :: string fill]" by simp
  moreover have "first_line (''abc'' @ [newline]) = ''abc''" "newline \<in> set (''abc'' @ [newline])" "utf8_lossy ''abc'' = ''abc''" by code_simp+
  ultimately show ?thesis
    using bounded_read_stays_in_step [of "[Chunk ''ab'', Chunk (''c'' @ [newline]) :: string fill]" 4]
    by (simp add: Let_def case_prod_beta)
qed

text \<open>Between the cap and its double the chunks decide: the newline's own chunk is compared with the cap,
  what is buffered is not added.\<close>

lemma chunks_decide:
  "fst (read_bounded_line 4 [Chunk ''abcd'', Chunk (''efg'' @ [newline]) :: string fill]) = Ok (LineRead ''abcdefg'')"
  "fst (read_bounded_line 4 [Chunk (''abcdefg'' @ [newline]) :: string fill]) = Ok LimitExceeded"
  by code_simp+

section \<open>Persistent runtimes\<close>

datatype lifecycle_state = LcCreated | LcStarting | LcRunning | LcStopping | LcStopped | LcCrashed

definition is_alive :: "lifecycle_state \<Rightarrow> bool" where
  "is_alive s \<longleftrightarrow> s \<in> {LcStarting, LcRunning}"

definition mint_runtime :: "64 word \<Rightarrow> 64 word \<times> 64 word" where
  "mint_runtime seq = (seq + 1, seq + 1)"

datatype runtime_mode = ModeEphemeral | ModePersistent

record runtime_key =
  rk_namespace :: string
  rk_id :: string
  rk_profile :: "string option"

definition plugin_runtime_key :: "string \<Rightarrow> runtime_key" where
  "plugin_runtime_key i = \<lparr>rk_namespace = ''plugin'', rk_id = i, rk_profile = None\<rparr>"

definition mcp_runtime_key :: "string \<Rightarrow> string option \<Rightarrow> runtime_key" where
  "mcp_runtime_key i p = \<lparr>rk_namespace = ''mcp'', rk_id = i, rk_profile = p\<rparr>"

definition runtime_storage_key :: "runtime_key \<Rightarrow> string" where
  "runtime_storage_key k = rk_namespace k @ ''/'' @ rk_id k @ (case rk_profile k of Some p \<Rightarrow> ''/'' @ p | None \<Rightarrow> [])"

datatype restart_policy = RestartNever | RestartOnCrash

record runtime_policy =
  rp_idle_timeout :: "nat option"
  rp_restart :: restart_policy
  rp_max_restarts :: "32 word"
  rp_backoff :: "nat list"

definition default_runtime_policy :: runtime_policy where
  "default_runtime_policy = \<lparr>rp_idle_timeout = Some (30 * 60 * 1000), rp_restart = RestartOnCrash,
     rp_max_restarts = 3, rp_backoff = [100, 500, 2000]\<rparr>"

datatype runtime_error = RuntimeBusy | RestartBudgetExhausted | RestartBlocked | RuntimeNotFound

record 'v runtime_entry =
  re_value :: 'v
  re_mode :: runtime_mode
  re_activity :: nat
  re_busy :: bool
  re_restarts :: "32 word"

record 'v runtime_manager =
  rm_entries :: "(string \<times> 'v runtime_entry) list"
  rm_restarts :: "string \<Rightarrow> 32 word option"

definition rm_new :: "'v runtime_manager" where
  "rm_new = \<lparr>rm_entries = [], rm_restarts = Map.empty\<rparr>"

definition entry_busy :: "string \<Rightarrow> 'v runtime_manager \<Rightarrow> bool" where
  "entry_busy sk m = (case map_of (rm_entries m) sk of Some e \<Rightarrow> re_busy e | None \<Rightarrow> False)"

definition is_busy :: "runtime_key \<Rightarrow> 'v runtime_manager \<Rightarrow> bool" where
  "is_busy key m = entry_busy (runtime_storage_key key) m"

definition mark_busy :: "runtime_key \<Rightarrow> 'v runtime_manager \<Rightarrow> 'v runtime_manager" where
  "mark_busy key m = (case map_of (rm_entries m) (runtime_storage_key key) of
     Some e \<Rightarrow> m\<lparr>rm_entries := AList.update (runtime_storage_key key) (e\<lparr>re_busy := True\<rparr>) (rm_entries m)\<rparr>
   | None \<Rightarrow> m)"

text \<open>The guard is the storage key and the value; \<open>spawned\<close> is what the spawn returns when it is called,
  \<open>None\<close> for a failure.\<close>

definition use_runtime :: "nat \<Rightarrow> runtime_key \<Rightarrow> 'v option \<Rightarrow> 'v runtime_manager \<Rightarrow>
    (runtime_error + (string \<times> 'v)) \<times> 'v runtime_manager" where
  "use_runtime now key spawned m = (let sk = runtime_storage_key key in
     if entry_busy sk m then (Err RuntimeBusy, m)
     else case map_of (rm_entries m) sk of
       Some e \<Rightarrow> (Ok (sk, re_value e),
         m\<lparr>rm_entries := AList.update sk (e\<lparr>re_busy := True, re_activity := now\<rparr>) (rm_entries m)\<rparr>)
     | None \<Rightarrow> (case spawned of
         None \<Rightarrow> (Err RuntimeNotFound, m)
       | Some v \<Rightarrow> (Ok (sk, v), m\<lparr>rm_entries := AList.update sk
           \<lparr>re_value = v, re_mode = ModePersistent, re_activity = now, re_busy = True, re_restarts = 0\<rparr> (rm_entries m)\<rparr>)))"

text \<open>The drop of the guard.\<close>

definition drop_guard :: "nat \<Rightarrow> string \<Rightarrow> 'v runtime_manager \<Rightarrow> 'v runtime_manager" where
  "drop_guard now sk m = (case map_of (rm_entries m) sk of
     Some e \<Rightarrow> m\<lparr>rm_entries := AList.update sk (e\<lparr>re_busy := False, re_activity := now\<rparr>) (rm_entries m)\<rparr>
   | None \<Rightarrow> m)"

definition restart_count :: "string \<Rightarrow> 'v runtime_manager \<Rightarrow> 32 word" where
  "restart_count sk m = (case rm_restarts m sk of Some n \<Rightarrow> n | None \<Rightarrow> 0)"

definition on_crash :: "runtime_key \<Rightarrow> runtime_policy \<Rightarrow> 'v runtime_manager \<Rightarrow> (runtime_error + nat) \<times> 'v runtime_manager" where
  "on_crash key policy m0 =
     (let sk = runtime_storage_key key; m = m0\<lparr>rm_entries := AList.delete sk (rm_entries m0)\<rparr> in
      if rp_restart policy = RestartNever then (Err RestartBlocked, m)
      else let n = restart_count sk m + 1 in
        if n > rp_max_restarts policy then (Err RestartBudgetExhausted, m)
        else let slot = min (unat (n - 1)) (length (rp_backoff policy) - 1) in
          (Ok (if slot < length (rp_backoff policy) then rp_backoff policy ! slot else 100),
           m\<lparr>rm_restarts := (rm_restarts m)(sk \<mapsto> n)\<rparr>))"

definition idle_beyond :: "nat \<Rightarrow> nat \<Rightarrow> 'v runtime_entry \<Rightarrow> bool" where
  "idle_beyond now timeout e \<longleftrightarrow> \<not> re_busy e \<and> now - re_activity e > timeout"

definition sweep_idle :: "nat \<Rightarrow> runtime_policy \<Rightarrow> 'v runtime_manager \<Rightarrow> (string \<times> 'v) list \<times> 'v runtime_manager" where
  "sweep_idle now policy m = (case rp_idle_timeout policy of
     None \<Rightarrow> ([], m)
   | Some timeout \<Rightarrow>
       (map (\<lambda>(k, e). (k, re_value e)) (filter (\<lambda>(_, e). idle_beyond now timeout e) (rm_entries m)),
        m\<lparr>rm_entries := filter (\<lambda>(_, e). \<not> idle_beyond now timeout e) (rm_entries m)\<rparr>))"

definition release_runtime :: "runtime_key \<Rightarrow> 'v runtime_manager \<Rightarrow> 'v option \<times> 'v runtime_manager" where
  "release_runtime key m = (let sk = runtime_storage_key key in
     if entry_busy sk m then (None, m)
     else (map_option re_value (map_of (rm_entries m) sk), m\<lparr>rm_entries := AList.delete sk (rm_entries m)\<rparr>))"

definition shutdown_all :: "'v runtime_manager \<Rightarrow> (string \<times> 'v) list \<times> 'v runtime_manager" where
  "shutdown_all m = (map (\<lambda>(k, e). (k, re_value e)) (rm_entries m), m\<lparr>rm_entries := []\<rparr>)"

section \<open>Exclusion and the restart budget\<close>

lemma busy_refused: "is_busy key m \<Longrightarrow> use_runtime now key spawned m = (Err RuntimeBusy, m)"
  by (simp add: use_runtime_def is_busy_def Let_def)

lemma used_is_busy: "fst (use_runtime now key spawned m) = Ok g \<Longrightarrow> is_busy key (snd (use_runtime now key spawned m))"
  by (auto simp: use_runtime_def is_busy_def entry_busy_def Let_def update_conv split: option.splits if_splits)

lemma busy_not_released: "is_busy key m \<Longrightarrow> release_runtime key m = (None, m)"
  by (simp add: release_runtime_def is_busy_def Let_def)

lemma busy_not_swept:
  assumes "is_busy key m"
  shows "is_busy key (snd (sweep_idle now policy m))"
proof -
  have keep: "map_of (filter (\<lambda>(_, e). \<not> idle_beyond now t e) es) sk = Some e"
    if "map_of es sk = Some e" "re_busy e" for t es sk and e :: "'a runtime_entry"
    using that by (induction es) (auto simp: idle_beyond_def split: if_splits)
  obtain e where e: "map_of (rm_entries m) (runtime_storage_key key) = Some e" "re_busy e"
    using assms by (auto simp: is_busy_def entry_busy_def split: option.splits)
  show ?thesis
    using keep [OF e] e by (cases "rp_idle_timeout policy") (simp_all add: is_busy_def entry_busy_def sweep_idle_def)
qed

datatype runtime_call =
    RtUse nat runtime_key bool | RtDrop nat string | RtCrash runtime_key runtime_policy | RtSweep nat runtime_policy
  | RtRelease runtime_key | RtShutdown | RtMarkBusy runtime_key

text \<open>A call, and the storage key of the restart it was granted. The values are of no concern here.\<close>

fun runtime_step :: "runtime_call \<Rightarrow> unit runtime_manager \<Rightarrow> string option \<times> unit runtime_manager" where
  "runtime_step (RtUse now key ok) m = (None, snd (use_runtime now key (if ok then Some () else None) m))"
| "runtime_step (RtDrop now sk) m = (None, drop_guard now sk m)"
| "runtime_step (RtCrash key policy) m = (case on_crash key policy m of
     (Ok _, m') \<Rightarrow> (Some (runtime_storage_key key), m') | (Err _, m') \<Rightarrow> (None, m'))"
| "runtime_step (RtSweep now policy) m = (None, snd (sweep_idle now policy m))"
| "runtime_step (RtRelease key) m = (None, snd (release_runtime key m))"
| "runtime_step RtShutdown m = (None, snd (shutdown_all m))"
| "runtime_step (RtMarkBusy key) m = (None, mark_busy key m)"

fun granted_restarts :: "string \<Rightarrow> runtime_call list \<Rightarrow> unit runtime_manager \<Rightarrow> nat" where
  "granted_restarts sk [] m = 0"
| "granted_restarts sk (c # cs) m = (case runtime_step c m of
     (g, m') \<Rightarrow> (if g = Some sk then 1 else 0) + granted_restarts sk cs m')"

lemma crash_cases:
  "(\<exists>e. fst (on_crash key policy m) = Err e \<and> rm_restarts (snd (on_crash key policy m)) = rm_restarts m)
    \<or> (\<exists>d. fst (on_crash key policy m) = Ok d \<and> restart_count (runtime_storage_key key) m + 1 \<le> rp_max_restarts policy
        \<and> rm_restarts (snd (on_crash key policy m)) =
          (rm_restarts m)(runtime_storage_key key \<mapsto> restart_count (runtime_storage_key key) m + 1))"
  by (auto simp: on_crash_def Let_def restart_count_def not_less)

text \<open>Other calls than a crash leave the counts alone, so an eviction or a shutdown resets no budget.\<close>

lemma counts_kept: "\<forall>key policy. c \<noteq> RtCrash key policy \<Longrightarrow> rm_restarts (snd (runtime_step c m)) = rm_restarts m \<and> fst (runtime_step c m) = None"
  by (cases c) (auto simp: use_runtime_def drop_guard_def sweep_idle_def release_runtime_def shutdown_all_def mark_busy_def
      Let_def split: option.split)

lemma restart_budget:
  assumes "\<forall>key policy. RtCrash key policy \<in> set cs \<longrightarrow> runtime_storage_key key = sk \<longrightarrow> rp_max_restarts policy \<le> B"
    and "B \<noteq> - 1" "restart_count sk m \<le> B"
  shows "unat (restart_count sk m) + granted_restarts sk cs m \<le> unat B"
  using assms
proof (induction cs arbitrary: m)
  case Nil
  then show ?case by (simp add: word_le_nat_alt)
next
  case (Cons c cs)
  obtain g m' where step: "runtime_step c m = (g, m')" by (cases "runtime_step c m")
  have IH: "unat (restart_count sk m') + granted_restarts sk cs m' \<le> unat B" if "restart_count sk m' \<le> B"
    using Cons.IH [OF _ Cons.prems(2) that] Cons.prems(1) by simp
  show ?case
  proof (cases "g = Some sk")
    case True
    then obtain key policy where c: "c = RtCrash key policy" "runtime_storage_key key = sk"
      using step counts_kept [of c m] by (cases c) (auto split: prod.splits sum.splits)
    have grant: "restart_count sk m + 1 \<le> rp_max_restarts policy" "rm_restarts m' = (rm_restarts m)(sk \<mapsto> restart_count sk m + 1)"
      using crash_cases [of key policy m] step True c by (auto split: prod.splits sum.splits)
    have count: "restart_count sk m' = restart_count sk m + 1" using grant(2) by (simp add: restart_count_def)
    moreover have "rp_max_restarts policy \<le> B" using Cons.prems(1) c by simp
    ultimately have le: "restart_count sk m' \<le> B" using grant(1) by (metis order_trans)
    have "restart_count sk m \<noteq> - 1" using Cons.prems(2,3) by (metis word_order.extremum_unique)
    then have "unat (restart_count sk m') = Suc (unat (restart_count sk m))"
      unfolding count by (metis unat_incr word_order.not_eq_extremum)
    with IH [OF le] step True show ?thesis by simp
  next
    case False
    have "restart_count sk m' = restart_count sk m"
    proof (cases "\<exists>key policy. c = RtCrash key policy")
      case True
      then obtain key policy where c: "c = RtCrash key policy" by blast
      then show ?thesis
        using crash_cases [of key policy m] step False by (auto simp: restart_count_def split: prod.splits sum.splits)
    qed (use counts_kept [of c m] step in \<open>auto simp: restart_count_def\<close>)
    with IH Cons.prems(3) step False show ?thesis by simp
  qed
qed

text \<open>Two runtimes with different profiles share a storage key when an id contains a slash.\<close>

lemma runtime_keys_collide:
  "runtime_storage_key (mcp_runtime_key ''a/b'' None) = runtime_storage_key (mcp_runtime_key ''a'' (Some ''b''))"
  by code_simp

text \<open>C27: Restarts are bounded. Over any calls of a new registry, evictions, releases and shutdowns included,
  a storage key is granted at most as many restarts as the largest maximum its crashes are judged by.\<close>

theorem restarts_are_bounded:
  assumes "\<forall>key policy. RtCrash key policy \<in> set calls \<longrightarrow> runtime_storage_key key = sk \<longrightarrow> rp_max_restarts policy \<le> B"
    and "B \<noteq> - 1"
  shows "granted_restarts sk calls rm_new \<le> unat B"
  using restart_budget [OF assms, of rm_new] by (simp add: restart_count_def rm_new_def)

theorem restarts_are_bounded_witness:
  "granted_restarts ''plugin/p'' (replicate 3 (RtCrash (plugin_runtime_key ''p'') (default_runtime_policy\<lparr>rp_max_restarts := 1\<rparr>))) rm_new \<le> 1"
  using restarts_are_bounded [of "replicate 3 (RtCrash (plugin_runtime_key ''p'') (default_runtime_policy\<lparr>rp_max_restarts := 1\<rparr>))" "''plugin/p''" 1]
  by simp

end
