(* ===== verification/WfDurable.thy ===== *)
theory WfDurable
  imports WfEngine
begin

text \<open>
  The durable run store (\<open>launcher-workflow/src/durable.rs\<close>) and the diagnostics over it
  (\<open>diagnostics.rs\<close>). The table \<open>workflow_runs\<close> is the list of its rows, unique under
  \<open>run_id\<close>; a row keeps the columns as SQLite does, so the status is text and the id sets and
  variables are the JSON text the crate writes. Whether SQLite executes a statement is an
  argument of the operation; a refused statement changes nothing.
\<close>

datatype db_error = DbError

section \<open>Run status and checkpoints\<close>

datatype run_status = Running | Paused | AwaitingApproval | Finished | Failed

fun run_status_str :: "run_status \<Rightarrow> string" where
  "run_status_str Running = ''running''"
| "run_status_str Paused = ''paused''"
| "run_status_str AwaitingApproval = ''awaiting_approval''"
| "run_status_str Finished = ''finished''"
| "run_status_str Failed = ''failed''"

definition run_status_parse :: "string \<Rightarrow> run_status option" where
  "run_status_parse s =
     (if s = ''running'' then Some Running
      else if s = ''paused'' then Some Paused
      else if s = ''awaiting_approval'' then Some AwaitingApproval
      else if s = ''finished'' then Some Finished
      else if s = ''failed'' then Some Failed
      else None)"

lemma run_status_roundtrip [simp]: "run_status_parse (run_status_str st) = Some st"
  by (cases st) (simp_all add: run_status_parse_def)

lemma run_status_parse_str: "run_status_parse s = Some st \<Longrightarrow> run_status_str st = s"
  by (auto simp: run_status_parse_def split: if_splits)

record run_checkpoint =
  cp_run_id :: string
  cp_graph_id :: string
  cp_graph_version :: "64 word"
  cp_status :: run_status
  cp_finished :: "string list"
  cp_skipped :: "string list"
  cp_variables :: json
  cp_updated_at_ms :: int

section \<open>The table\<close>

record run_row =
  row_run_id :: string
  row_graph_id :: string
  row_graph_version :: "64 word"
  row_status :: string
  row_finished :: string
  row_skipped :: string
  row_variables :: string
  row_updated_at_ms :: int

text \<open>The values bound in the insert, and the row read back. \<open>u64 as i64\<close> and back keeps the
  64 bits of the version.\<close>

definition row_of_checkpoint :: "serde \<Rightarrow> run_checkpoint \<Rightarrow> run_row" where
  "row_of_checkpoint J cp =
     \<lparr>row_run_id = cp_run_id cp, row_graph_id = cp_graph_id cp,
      row_graph_version = cp_graph_version cp, row_status = run_status_str (cp_status cp),
      row_finished = ids_text J (cp_finished cp), row_skipped = ids_text J (cp_skipped cp),
      row_variables = json_text J (cp_variables cp), row_updated_at_ms = cp_updated_at_ms cp\<rparr>"

definition checkpoint_of_row :: "serde \<Rightarrow> run_row \<Rightarrow> run_checkpoint" where
  "checkpoint_of_row J r =
     \<lparr>cp_run_id = row_run_id r, cp_graph_id = row_graph_id r,
      cp_graph_version = row_graph_version r,
      cp_status = (case run_status_parse (row_status r) of Some s \<Rightarrow> s | None \<Rightarrow> Failed),
      cp_finished = (case ids_parse J (row_finished r) of Some xs \<Rightarrow> xs | None \<Rightarrow> []),
      cp_skipped = (case ids_parse J (row_skipped r) of Some xs \<Rightarrow> xs | None \<Rightarrow> []),
      cp_variables = (case json_parse J (row_variables r) of Some v \<Rightarrow> v | None \<Rightarrow> JNull),
      cp_updated_at_ms = row_updated_at_ms r\<rparr>"

definition rs_checkpoint :: "serde \<Rightarrow> bool \<Rightarrow> run_checkpoint \<Rightarrow> run_row list \<Rightarrow> (db_error + unit) \<times> run_row list" where
  "rs_checkpoint J db_ok cp rows =
     (if db_ok then (Ok (), upsert row_run_id (row_of_checkpoint J cp) rows)
      else (Err DbError, rows))"

definition rs_load :: "serde \<Rightarrow> bool \<Rightarrow> string \<Rightarrow> run_row list \<Rightarrow> db_error + run_checkpoint option" where
  "rs_load J db_ok run_id rows =
     (if db_ok then Ok (map_option (checkpoint_of_row J) (row_get row_run_id rows run_id))
      else Err DbError)"

definition rs_list_by_status :: "serde \<Rightarrow> bool \<Rightarrow> run_status \<Rightarrow> run_row list \<Rightarrow> db_error + run_checkpoint list" where
  "rs_list_by_status J db_ok st rows =
     (if db_ok
      then Ok (map (checkpoint_of_row J)
        (sort_key row_updated_at_ms (filter (\<lambda>r. row_status r = run_status_str st) rows)))
      else Err DbError)"

text \<open>The checkpoint a row of an insert stands for, when the JSON text reads back.\<close>

definition serde_reads_back :: "serde \<Rightarrow> run_checkpoint \<Rightarrow> bool" where
  "serde_reads_back J cp \<longleftrightarrow>
     ids_parse J (ids_text J (cp_finished cp)) = Some (cp_finished cp)
     \<and> ids_parse J (ids_text J (cp_skipped cp)) = Some (cp_skipped cp)
     \<and> json_parse J (json_text J (cp_variables cp)) = Some (cp_variables cp)"

lemma checkpoint_row_roundtrip:
  "serde_reads_back J cp \<Longrightarrow> checkpoint_of_row J (row_of_checkpoint J cp) = cp"
  by (simp add: serde_reads_back_def checkpoint_of_row_def row_of_checkpoint_def)

lemma row_of_checkpoint_run_id [simp]: "row_run_id (row_of_checkpoint J cp) = cp_run_id cp"
  by (simp add: row_of_checkpoint_def)

lemma load_checkpoint:
  "rs_load J True k (snd (rs_checkpoint J True cp rows)) =
    Ok (if k = cp_run_id cp then Some (checkpoint_of_row J (row_of_checkpoint J cp))
        else map_option (checkpoint_of_row J) (row_get row_run_id rows k))"
  by (simp add: rs_load_def rs_checkpoint_def rows.get_put)

lemma distinct_rs_checkpoint:
  "distinct (map row_run_id rows) \<Longrightarrow>
    distinct (map row_run_id (snd (rs_checkpoint J ok cp rows)))"
  by (simp add: rs_checkpoint_def distinct_upsert)

section \<open>Diagnostics\<close>

record run_diagnostic =
  rd_run_id :: string
  rd_graph_id :: string
  rd_graph_version :: "64 word"
  rd_status :: run_status
  rd_finished_count :: nat
  rd_skipped_count :: nat
  rd_updated_at_ms :: int

definition diagnostic_of :: "run_checkpoint \<Rightarrow> run_diagnostic" where
  "diagnostic_of cp =
     \<lparr>rd_run_id = cp_run_id cp, rd_graph_id = cp_graph_id cp,
      rd_graph_version = cp_graph_version cp, rd_status = cp_status cp,
      rd_finished_count = length (cp_finished cp), rd_skipped_count = length (cp_skipped cp),
      rd_updated_at_ms = cp_updated_at_ms cp\<rparr>"

text \<open>The loop over the five statuses: each list query can fail and ends the snapshot.\<close>

fun list_all_statuses :: "serde \<Rightarrow> (run_status \<Rightarrow> bool) \<Rightarrow> run_status list \<Rightarrow> run_row list \<Rightarrow>
    db_error + run_checkpoint list" where
  "list_all_statuses J db_ok [] rows = Ok []"
| "list_all_statuses J db_ok (s # ss) rows =
     (case rs_list_by_status J (db_ok s) s rows of
        Inl e \<Rightarrow> Err e
      | Inr cps \<Rightarrow> (case list_all_statuses J db_ok ss rows of
          Inl e \<Rightarrow> Err e
        | Inr rest \<Rightarrow> Ok (cps @ rest)))"

definition diag_snapshot :: "serde \<Rightarrow> (run_status \<Rightarrow> bool) \<Rightarrow> run_status option \<Rightarrow> run_row list \<Rightarrow>
    db_error + run_diagnostic list" where
  "diag_snapshot J db_ok st rows =
     (case (case st of
         Some s \<Rightarrow> rs_list_by_status J (db_ok s) s rows
       | None \<Rightarrow> (case list_all_statuses J db_ok [Running, Paused, AwaitingApproval, Finished, Failed] rows of
           Inl e \<Rightarrow> Err e
         | Inr all \<Rightarrow> Ok (sort_key cp_run_id all))) of
       Inl e \<Rightarrow> Err e
     | Inr runs \<Rightarrow> Ok (map diagnostic_of runs))"

lemma cp_run_id_of_row [simp]: "cp_run_id (checkpoint_of_row J r) = row_run_id r"
  by (simp add: checkpoint_of_row_def)

lemma list_by_status_ids:
  "rs_list_by_status J True s rows = Ok cps \<Longrightarrow>
    cp_run_id ` set cps = row_run_id ` {r \<in> set rows. row_status r = run_status_str s}"
  by (auto simp: rs_list_by_status_def image_image)

lemma list_all_statuses_ids:
  "list_all_statuses J (\<lambda>_. True) ss rows = Ok cps \<Longrightarrow>
    cp_run_id ` set cps = row_run_id ` {r \<in> set rows. row_status r \<in> run_status_str ` set ss}"
proof (induction ss arbitrary: cps)
  case (Cons s ss)
  then obtain as bs where as: "rs_list_by_status J True s rows = Ok as"
    and bs: "list_all_statuses J (\<lambda>_. True) ss rows = Ok bs" and cps: "cps = as @ bs"
    by (auto split: sum.splits)
  have "{r \<in> set rows. row_status r \<in> run_status_str ` set (s # ss)} =
    {r \<in> set rows. row_status r = run_status_str s} \<union> {r \<in> set rows. row_status r \<in> run_status_str ` set ss}"
    by auto
  with list_by_status_ids [OF as] Cons.IH [OF bs] show ?case by (simp add: cps image_Un)
qed simp

lemma list_all_statuses_ok: "is_ok (list_all_statuses J (\<lambda>_. True) ss rows)"
  by (induction ss) (auto simp: rs_list_by_status_def is_ok_iff)

end
