(* ===== verification/WfApproval.thy ===== *)
theory WfApproval
  imports WfDurable
begin

text \<open>
  Durable approval requests (\<open>launcher-workflow/src/approval.rs\<close>). The table \<open>approvals\<close>
  is the list of its rows in row order, unique under \<open>approval_id\<close>. Every operation takes the
  clock reading it binds and whether SQLite executes its statement. The operations are gathered in
  a step relation for the properties about whole histories.
\<close>

section \<open>Records\<close>

datatype approval_status = ApPending | ApApproved | ApRejected

fun approval_status_str :: "approval_status \<Rightarrow> string" where
  "approval_status_str ApPending = ''pending''"
| "approval_status_str ApApproved = ''approved''"
| "approval_status_str ApRejected = ''rejected''"

definition approval_status_parse :: "string \<Rightarrow> approval_status" where
  "approval_status_parse s =
     (if s = ''approved'' then ApApproved
      else if s = ''rejected'' then ApRejected
      else ApPending)"

lemma approval_status_roundtrip [simp]: "approval_status_parse (approval_status_str s) = s"
  by (cases s) (simp_all add: approval_status_parse_def)

record approval_record =
  ar_approval_id :: string
  ar_run_id :: string
  ar_node_id :: string
  ar_action_ref :: string
  ar_status :: approval_status

record approval_row =
  ap_id :: string
  ap_run :: string
  ap_node :: string
  ap_action :: string
  ap_status :: string
  ap_updated :: int
  ap_expires :: "int option"

section \<open>Operations\<close>

text \<open>An \<open>UPDATE ... WHERE\<close>: rewrite the rows the clause selects, return how many.\<close>

definition update_where :: "('r \<Rightarrow> bool) \<Rightarrow> ('r \<Rightarrow> 'r) \<Rightarrow> 'r list \<Rightarrow> nat \<times> 'r list" where
  "update_where P f rows = (length (filter P rows), map (\<lambda>r. if P r then f r else r) rows)"

definition ap_expire_before :: "bool \<Rightarrow> int \<Rightarrow> approval_row list \<Rightarrow> (db_error + nat) \<times> approval_row list" where
  "ap_expire_before db_ok now rows =
     (if \<not> db_ok then (Err DbError, rows)
      else let (n, rows') = update_where
          (\<lambda>r. ap_status r = ''pending'' \<and> (case ap_expires r of Some t \<Rightarrow> t < now | None \<Rightarrow> False))
          (\<lambda>r. r\<lparr>ap_status := ''rejected'', ap_updated := now\<rparr>) rows
        in (Ok n, rows'))"

definition ap_cancel :: "bool \<Rightarrow> int \<Rightarrow> string \<Rightarrow> approval_row list \<Rightarrow> (db_error + bool) \<times> approval_row list" where
  "ap_cancel db_ok now aid rows =
     (if \<not> db_ok then (Err DbError, rows)
      else let (n, rows') = update_where (\<lambda>r. ap_id r = aid \<and> ap_status r = ''pending'')
          (\<lambda>r. r\<lparr>ap_status := ''rejected'', ap_updated := now\<rparr>) rows
        in (Ok (n > 0), rows'))"

definition insert_or_ignore :: "('r \<Rightarrow> 'k) \<Rightarrow> 'r \<Rightarrow> 'r list \<Rightarrow> 'r list" where
  "insert_or_ignore key r rows = (if key r \<in> key ` set rows then rows else rows @ [r])"

definition ap_request :: "bool \<Rightarrow> int \<Rightarrow> string \<Rightarrow> string \<Rightarrow> string \<Rightarrow> string \<Rightarrow> approval_row list \<Rightarrow>
    (db_error + unit) \<times> approval_row list" where
  "ap_request db_ok now aid run node action rows =
     (if \<not> db_ok then (Err DbError, rows)
      else (Ok (), insert_or_ignore ap_id
        \<lparr>ap_id = aid, ap_run = run, ap_node = node, ap_action = action,
         ap_status = ''pending'', ap_updated = now, ap_expires = None\<rparr> rows))"

definition ap_request_with_expiry :: "bool \<Rightarrow> int \<Rightarrow> string \<Rightarrow> string \<Rightarrow> string \<Rightarrow> string \<Rightarrow> int \<Rightarrow>
    approval_row list \<Rightarrow> (db_error + unit) \<times> approval_row list" where
  "ap_request_with_expiry db_ok now aid run node action expires rows =
     (if \<not> db_ok then (Err DbError, rows)
      else (Ok (), insert_or_ignore ap_id
        \<lparr>ap_id = aid, ap_run = run, ap_node = node, ap_action = action,
         ap_status = ''pending'', ap_updated = now, ap_expires = Some expires\<rparr> rows))"

definition ap_decide :: "bool \<Rightarrow> int \<Rightarrow> string \<Rightarrow> bool \<Rightarrow> approval_row list \<Rightarrow>
    (db_error + bool) \<times> approval_row list" where
  "ap_decide db_ok now aid approved rows =
     (if \<not> db_ok then (Err DbError, rows)
      else let (n, rows') = update_where (\<lambda>r. ap_id r = aid \<and> ap_status r = ''pending'')
          (\<lambda>r. r\<lparr>ap_status := approval_status_str (if approved then ApApproved else ApRejected),
                 ap_updated := now\<rparr>) rows
        in (Ok (n > 0), rows'))"

text \<open>\<open>decision_for\<close> turns every query error into \<open>None\<close>.\<close>

definition ap_decision_for :: "bool \<Rightarrow> string \<Rightarrow> string \<Rightarrow> approval_row list \<Rightarrow> approval_status option" where
  "ap_decision_for db_ok run node rows =
     (if \<not> db_ok then None
      else map_option (\<lambda>r. approval_status_parse (ap_status r))
        (find (\<lambda>r. ap_run r = run \<and> ap_node r = node) rows))"

definition ap_pending :: "bool \<Rightarrow> approval_row list \<Rightarrow> db_error + approval_record list" where
  "ap_pending db_ok rows =
     (if \<not> db_ok then Err DbError
      else Ok (map (\<lambda>r. \<lparr>ar_approval_id = ap_id r, ar_run_id = ap_run r, ar_node_id = ap_node r,
                         ar_action_ref = ap_action r, ar_status = ApPending\<rparr>)
        (sort_key ap_updated (filter (\<lambda>r. ap_status r = ''pending'') rows))))"

section \<open>Histories\<close>

datatype approval_op =
    OpExpire int
  | OpCancel string int
  | OpRequest string string string string int
  | OpRequestExpiry string string string string int int
  | OpDecide string bool int

fun ap_apply :: "approval_op \<Rightarrow> bool \<Rightarrow> approval_row list \<Rightarrow> approval_row list" where
  "ap_apply (OpExpire now) ok rows = snd (ap_expire_before ok now rows)"
| "ap_apply (OpCancel aid now) ok rows = snd (ap_cancel ok now aid rows)"
| "ap_apply (OpRequest aid run node act now) ok rows = snd (ap_request ok now aid run node act rows)"
| "ap_apply (OpRequestExpiry aid run node act ex now) ok rows =
     snd (ap_request_with_expiry ok now aid run node act ex rows)"
| "ap_apply (OpDecide aid b now) ok rows = snd (ap_decide ok now aid b rows)"

text \<open>One call of the store by the scheduler, the UI or the expiry timer.\<close>

inductive ap_step :: "approval_row list \<Rightarrow> approval_op \<Rightarrow> approval_row list \<Rightarrow> bool" where
  ap_step: "ap_step rows opn (ap_apply opn ok rows)"

inductive ap_history :: "approval_row list \<Rightarrow> approval_op list \<Rightarrow> approval_row list \<Rightarrow> bool" where
  ap_done: "ap_history rows [] rows"
| ap_more: "ap_step rows opn rows' \<Longrightarrow> ap_history rows' ops rows'' \<Longrightarrow> ap_history rows (opn # ops) rows''"

inductive_cases ap_stepE: "ap_step rows opn rows'"
inductive_cases ap_history_ConsE: "ap_history rows (opn # ops) rows'"
inductive_simps ap_history_Nil: "ap_history rows [] rows'"

definition ap_wf :: "approval_row list \<Rightarrow> bool" where
  "ap_wf rows \<longleftrightarrow> distinct (map ap_id rows)"

definition ap_status_of :: "string \<Rightarrow> approval_row list \<Rightarrow> string option" where
  "ap_status_of aid rows = map_option ap_status (row_get ap_id rows aid)"

lemma map_ap_id_update [simp]:
  "(\<And>r. ap_id (f r) = ap_id r) \<Longrightarrow> map ap_id (snd (update_where P f rows)) = map ap_id rows"
  by (auto simp: update_where_def)

lemma row_get_update_where:
  "(\<And>r. ap_id (f r) = ap_id r) \<Longrightarrow> row_get ap_id (snd (update_where P f rows)) aid =
    map_option (\<lambda>r. if P r then f r else r) (row_get ap_id rows aid)"
  by (induction rows) (auto simp: update_where_def row_get_def)

lemma row_get_insert_or_ignore:
  "row_get ap_id (insert_or_ignore ap_id r rows) aid =
    (case row_get ap_id rows aid of Some q \<Rightarrow> Some q | None \<Rightarrow> if aid = ap_id r then Some r else None)"
proof (cases "row_get ap_id rows aid")
  case None
  then have "aid \<notin> ap_id ` set rows" by (auto simp: row_get_def find_None_iff)
  with None show ?thesis by (auto simp: insert_or_ignore_def row_get_def find_append)
next
  case (Some q)
  then show ?thesis by (auto simp: insert_or_ignore_def row_get_def find_append)
qed

lemmas ap_op_defs = ap_expire_before_def ap_cancel_def ap_request_def ap_request_with_expiry_def
  ap_decide_def case_prod_beta Let_def

lemma ap_wf_apply: "ap_wf rows \<Longrightarrow> ap_wf (ap_apply opn ok rows)"
  by (cases opn) (auto simp: ap_wf_def ap_op_defs insert_or_ignore_def)

text \<open>A decided row keeps its status; a pending one can only become approved through
  \<open>decide(.., true)\<close> on its id.\<close>

lemma ap_apply_decided:
  "ap_status_of aid rows = Some s \<Longrightarrow> s \<noteq> ''pending'' \<Longrightarrow> ap_status_of aid (ap_apply opn ok rows) = Some s"
  by (cases opn) (auto simp: ap_status_of_def ap_op_defs row_get_update_where row_get_insert_or_ignore)

lemma ap_apply_approved:
  "ap_status_of aid (ap_apply opn ok rows) = Some ''approved'' \<Longrightarrow>
    ap_status_of aid rows = Some ''approved'' \<or> (\<exists>now. opn = OpDecide aid True now \<and> ap_status_of aid rows = Some ''pending'')"
  by (cases opn)
    (auto simp: ap_status_of_def ap_op_defs row_get_update_where row_get_insert_or_ignore
      split: if_splits option.splits dest: row_get_key)

lemma ap_history_decided:
  "ap_history rows ops rows' \<Longrightarrow> ap_status_of aid rows = Some s \<Longrightarrow> s \<noteq> ''pending'' \<Longrightarrow>
    ap_status_of aid rows' = Some s"
  by (induction rule: ap_history.induct) (auto elim!: ap_stepE simp: ap_apply_decided)

lemma ap_history_approved:
  "ap_history rows ops rows' \<Longrightarrow> ap_status_of aid rows' = Some ''approved'' \<Longrightarrow>
    ap_status_of aid rows = Some ''approved'' \<or> (\<exists>now. OpDecide aid True now \<in> set ops)"
proof (induction rule: ap_history.induct)
  case (ap_more rows opn rows' ops rows'')
  then show ?case by (auto elim!: ap_stepE dest: ap_apply_approved)
qed simp

lemma ap_history_wf: "ap_history rows ops rows' \<Longrightarrow> ap_wf rows \<Longrightarrow> ap_wf rows'"
  by (induction rule: ap_history.induct) (auto elim!: ap_stepE simp: ap_wf_apply)

section \<open>Decisions\<close>

lemma decision_approvedD:
  "ap_decision_for ok run node rows = Some ApApproved \<Longrightarrow>
    \<exists>r \<in> set rows. ap_run r = run \<and> ap_node r = node \<and> ap_status r = ''approved''"
  by (auto simp: ap_decision_for_def approval_status_parse_def split: if_splits dest!: find_SomeD)

lemma request_keeps_rows: "set rows \<subseteq> set (snd (ap_request ok now aid run node act rows))"
  by (auto simp: ap_request_def insert_or_ignore_def)

lemma request_adds_pending:
  "r \<in> set (snd (ap_request ok now aid run node act rows)) \<Longrightarrow> r \<in> set rows \<or> ap_status r = ''pending''"
  by (auto simp: ap_request_def insert_or_ignore_def split: if_splits)

section \<open>Approved rows\<close>

lemma ap_apply_keeps_approved:
  "r \<in> set rows \<Longrightarrow> ap_status r = ''approved'' \<Longrightarrow> r \<in> set (ap_apply opn ok rows)"
  by (cases opn) (force simp: ap_op_defs update_where_def insert_or_ignore_def)+

lemma ap_apply_new_approved:
  assumes "r \<in> set (ap_apply opn ok rows)" "ap_status r = ''approved''"
  shows "(\<exists>q \<in> set rows. ap_id q = ap_id r \<and> ap_status q = ''approved'') \<or> (\<exists>now. opn = OpDecide (ap_id r) True now)"
  using assms
  by (cases opn) (auto simp: ap_op_defs update_where_def insert_or_ignore_def split: if_splits)

lemma ap_history_keeps_approved:
  "ap_history rows ops rows' \<Longrightarrow> r \<in> set rows \<Longrightarrow> ap_status r = ''approved'' \<Longrightarrow> r \<in> set rows'"
  by (induction rule: ap_history.induct) (auto elim!: ap_stepE simp: ap_apply_keeps_approved)

lemma ap_history_new_approved:
  "ap_history rows ops rows' \<Longrightarrow> r \<in> set rows' \<Longrightarrow> ap_status r = ''approved'' \<Longrightarrow>
    (\<exists>q \<in> set rows. ap_id q = ap_id r \<and> ap_status q = ''approved'') \<or> (\<exists>now. OpDecide (ap_id r) True now \<in> set ops)"
proof (induction rule: ap_history.induct)
  case (ap_more rows opn rows' ops rows'')
  from ap_more.hyps(1) obtain ok where rows': "rows' = ap_apply opn ok rows" by (rule ap_stepE)
  from ap_more.IH ap_more.prems consider
      q where "q \<in> set rows'" "ap_id q = ap_id r" "ap_status q = ''approved''"
    | now where "OpDecide (ap_id r) True now \<in> set ops"
    by blast
  then show ?case
  proof cases
    case 1
    with ap_apply_new_approved [of q opn ok rows] rows' show ?thesis by auto
  qed auto
qed auto

lemma ap_history_append:
  "ap_history a ops b \<Longrightarrow> ap_history b ops' c \<Longrightarrow> ap_history a (ops @ ops') c"
  by (induction rule: ap_history.induct) (auto intro: ap_history.intros)

lemma ap_history_fold: "ap_history rows ops (fold (\<lambda>opn. ap_apply opn True) ops rows)"
  by (induction ops arbitrary: rows) (auto intro: ap_history.intros ap_step.intros)

lemma ap_history_one: "ap_history rows [opn] (ap_apply opn ok rows)"
  by (auto intro: ap_history.intros ap_step.intros)

end
