(* ===== verification/WfTriggers.thy ===== *)
theory WfTriggers
  imports WfApproval
begin

text \<open>
  The durable trigger queue (\<open>launcher-workflow/src/triggers.rs\<close>) and the four trigger sources
  (\<open>trigger_sources.rs\<close>). The table is its rows with the \<open>AUTOINCREMENT\<close> counter; a dequeue
  takes the unconsumed row of least id and marks it. The interface a consumer relies on is the
  locale \<open>fifo_queue\<close>: seen through the unconsumed events, the table is a plain list queue.
\<close>

section \<open>The interface\<close>

text \<open>Dequeue until empty, at most \<open>n\<close> times.\<close>

fun drain :: "('q \<Rightarrow> ('b \<times> 'q) option) \<Rightarrow> nat \<Rightarrow> 'q \<Rightarrow> 'b list \<times> 'q" where
  "drain dq 0 q = ([], q)"
| "drain dq (Suc n) q = (case dq q of None \<Rightarrow> ([], q)
     | Some (y, q') \<Rightarrow> (case drain dq n q' of (ys, q'') \<Rightarrow> (y # ys, q'')))"

locale fifo_queue =
  fixes enq :: "'a \<Rightarrow> 'q \<Rightarrow> 'q"
    and deq :: "'q \<Rightarrow> ('b \<times> 'q) option"
    and items :: "'q \<Rightarrow> 'b list"
    and view :: "'q \<Rightarrow> 'a \<Rightarrow> 'b"
    and inv :: "'q \<Rightarrow> bool"
  assumes inv_enq: "inv q \<Longrightarrow> inv (enq x q)"
    and items_enq: "inv q \<Longrightarrow> items (enq x q) = items q @ [view q x]"
    and deq_empty: "inv q \<Longrightarrow> items q = [] \<Longrightarrow> deq q = None"
    and deq_items: "inv q \<Longrightarrow> items q = y # ys \<Longrightarrow> \<exists>q'. deq q = Some (y, q') \<and> items q' = ys \<and> inv q'"
begin

lemma drain_items: "inv q \<Longrightarrow> length (items q) \<le> n \<Longrightarrow> \<exists>q'. drain deq n q = (items q, q') \<and> items q' = [] \<and> inv q'"
proof (induction n arbitrary: q)
  case 0
  then show ?case by auto
next
  case (Suc n)
  show ?case
  proof (cases "items q")
    case Nil
    with Suc.prems show ?thesis by (auto simp: deq_empty)
  next
    case (Cons y ys)
    with Suc.prems obtain q' where q': "deq q = Some (y, q')" "items q' = ys" "inv q'"
      using deq_items by blast
    with Suc.prems Cons have "length (items q') \<le> n" by simp
    with Suc.IH [OF q'(3)] q' Cons show ?thesis by auto
  qed
qed

lemma length_items_enqs: "inv q \<Longrightarrow>
    inv (fold enq xs q) \<and> length (items (fold enq xs q)) = length (items q) + length xs"
  by (induction xs arbitrary: q) (auto simp: inv_enq items_enq)

end

section \<open>The table\<close>

datatype trigger_kind = Hotkey | Plugin | Schedule | AiMcp

fun trigger_kind_str :: "trigger_kind \<Rightarrow> string" where
  "trigger_kind_str Hotkey = ''hotkey''"
| "trigger_kind_str Plugin = ''plugin''"
| "trigger_kind_str Schedule = ''schedule''"
| "trigger_kind_str AiMcp = ''ai_mcp''"

definition trigger_kind_parse :: "string \<Rightarrow> trigger_kind option" where
  "trigger_kind_parse s =
     (if s = ''hotkey'' then Some Hotkey
      else if s = ''plugin'' then Some Plugin
      else if s = ''schedule'' then Some Schedule
      else if s = ''ai_mcp'' then Some AiMcp
      else None)"

lemma trigger_kind_roundtrip [simp]: "trigger_kind_parse (trigger_kind_str k) = Some k"
  by (cases k) (simp_all add: trigger_kind_parse_def)

record trigger_event =
  te_id :: int
  te_kind :: trigger_kind
  te_workflow_id :: string
  te_input :: json
  te_queued_at_ms :: int

record trigger_row =
  tr_id :: int
  tr_kind :: string
  tr_workflow_id :: string
  tr_input :: string
  tr_queued_at_ms :: int
  tr_consumed :: bool

record trigger_queue =
  tq_rows :: "trigger_row list"
  tq_seq :: int

definition tq_empty :: trigger_queue where
  "tq_empty = \<lparr>tq_rows = [], tq_seq = 0\<rparr>"

definition tq_enqueue :: "serde \<Rightarrow> bool \<Rightarrow> int \<Rightarrow> trigger_kind \<Rightarrow> string \<Rightarrow> json \<Rightarrow> trigger_queue \<Rightarrow>
    (db_error + int) \<times> trigger_queue" where
  "tq_enqueue J db_ok now kind wid input q =
     (if \<not> db_ok then (Err DbError, q)
      else let i = tq_seq q + 1 in
        (Ok i, \<lparr>tq_rows = tq_rows q @ [\<lparr>tr_id = i, tr_kind = trigger_kind_str kind,
            tr_workflow_id = wid, tr_input = json_text J input, tr_queued_at_ms = now,
            tr_consumed = False\<rparr>], tq_seq = i\<rparr>))"

text \<open>\<open>ORDER BY id LIMIT 1\<close> over the unconsumed rows.\<close>

definition tq_first :: "trigger_row list \<Rightarrow> trigger_row option" where
  "tq_first rows = (case sort_key tr_id (filter (\<lambda>r. \<not> tr_consumed r) rows) of
     [] \<Rightarrow> None | r # _ \<Rightarrow> Some r)"

definition tq_event :: "serde \<Rightarrow> trigger_row \<Rightarrow> trigger_event" where
  "tq_event J r =
     \<lparr>te_id = tr_id r,
      te_kind = (case trigger_kind_parse (tr_kind r) of Some k \<Rightarrow> k | None \<Rightarrow> Plugin),
      te_workflow_id = tr_workflow_id r,
      te_input = (case json_parse J (tr_input r) of Some v \<Rightarrow> v | None \<Rightarrow> JNull),
      te_queued_at_ms = tr_queued_at_ms r\<rparr>"

text \<open>The select and the update of a dequeue can fail one by one; a failed update leaves the row
  unconsumed.\<close>

definition tq_dequeue :: "serde \<Rightarrow> bool \<Rightarrow> bool \<Rightarrow> trigger_queue \<Rightarrow>
    (db_error + trigger_event option) \<times> trigger_queue" where
  "tq_dequeue J select_ok update_ok q =
     (if \<not> select_ok then (Err DbError, q)
      else case tq_first (tq_rows q) of
        None \<Rightarrow> (Ok None, q)
      | Some r \<Rightarrow>
          if \<not> update_ok then (Err DbError, q)
          else (Ok (Some (tq_event J r)),
            q\<lparr>tq_rows := snd (update_where (\<lambda>x. tr_id x = tr_id r)
                (\<lambda>x. x\<lparr>tr_consumed := True\<rparr>) (tq_rows q))\<rparr>))"

definition tq_pending :: "bool \<Rightarrow> trigger_queue \<Rightarrow> db_error + int" where
  "tq_pending db_ok q =
     (if db_ok then Ok (int (length (filter (\<lambda>r. \<not> tr_consumed r) (tq_rows q)))) else Err DbError)"

section \<open>The sources\<close>

definition enqueue_hotkey :: "serde \<Rightarrow> bool \<Rightarrow> int \<Rightarrow> string \<Rightarrow> json \<Rightarrow> trigger_queue \<Rightarrow>
    (db_error + int) \<times> trigger_queue" where
  "enqueue_hotkey J ok now wid input q = tq_enqueue J ok now Hotkey wid input q"

text \<open>\<open>input["_plugin_source"] = ..\<close>: \<open>serde_json\<close>'s index assignment turns a null into an object
  and panics (\<open>None\<close>) on any other value that is not an object.\<close>

definition enqueue_plugin :: "serde \<Rightarrow> bool \<Rightarrow> int \<Rightarrow> string \<Rightarrow> string \<Rightarrow> json \<Rightarrow> trigger_queue \<Rightarrow>
    ((db_error + int) \<times> trigger_queue) option" where
  "enqueue_plugin J ok now wid plugin input q =
     (case input of
        JObject m \<Rightarrow> Some (tq_enqueue J ok now Plugin wid
          (JObject (upsert fst (''_plugin_source'', JString plugin) m)) q)
      | JNull \<Rightarrow> Some (tq_enqueue J ok now Plugin wid
          (JObject [(''_plugin_source'', JString plugin)]) q)
      | _ \<Rightarrow> None)"

definition enqueue_schedule :: "serde \<Rightarrow> bool \<Rightarrow> int \<Rightarrow> string \<Rightarrow> json \<Rightarrow> trigger_queue \<Rightarrow>
    (db_error + int) \<times> trigger_queue" where
  "enqueue_schedule J ok now wid input q = tq_enqueue J ok now Schedule wid input q"

definition enqueue_ai_mcp :: "serde \<Rightarrow> bool \<Rightarrow> int \<Rightarrow> string \<Rightarrow> json \<Rightarrow> trigger_queue \<Rightarrow>
    (db_error + int) \<times> trigger_queue" where
  "enqueue_ai_mcp J ok now wid input q = tq_enqueue J ok now AiMcp wid input q"

section \<open>The table is a queue\<close>

text \<open>Ids grow along the rows and the counter is the largest of them.\<close>

definition tq_inv :: "trigger_queue \<Rightarrow> bool" where
  "tq_inv q \<longleftrightarrow> sorted_wrt (<) (map tr_id (tq_rows q)) \<and> (\<forall>r \<in> set (tq_rows q). tr_id r \<le> tq_seq q)"

definition tq_waiting :: "trigger_queue \<Rightarrow> trigger_row list" where
  "tq_waiting q = filter (\<lambda>r. \<not> tr_consumed r) (tq_rows q)"

lemma sorted_ids_filter: "sorted_wrt (<) (map f xs) \<Longrightarrow> sorted_wrt (<) (map f (filter P xs))" for f :: "'a \<Rightarrow> int"
  by (induction xs) auto

lemma sorted_wrt_less_sorted: "sorted_wrt (<) xs \<Longrightarrow> sorted xs" for xs :: "int list"
  by (induction xs) auto

lemma tq_first_waiting:
  assumes "tq_inv q"
  shows "tq_first (tq_rows q) = (case tq_waiting q of [] \<Rightarrow> None | r # _ \<Rightarrow> Some r)"
proof -
  have "sorted (map tr_id (filter (\<lambda>r. \<not> tr_consumed r) (tq_rows q)))"
    using assms by (intro sorted_wrt_less_sorted sorted_ids_filter) (simp add: tq_inv_def)
  then show ?thesis by (simp add: tq_first_def tq_waiting_def sorted_sort_id sort_key_id_if_sorted)
qed

lemma tq_inv_enqueue: "tq_inv q \<Longrightarrow> tq_inv (snd (tq_enqueue J ok now k wid input q))"
  by (auto simp: tq_inv_def tq_enqueue_def Let_def sorted_wrt_append intro: zle_add1_eq_le [THEN iffD2])

lemma ids_consume [simp]:
  "map tr_id (snd (update_where P (\<lambda>x. x\<lparr>tr_consumed := True\<rparr>) rows)) = map tr_id rows"
  by (auto simp: update_where_def)

lemma tq_inv_ids: "map tr_id (tq_rows q') = map tr_id (tq_rows q) \<Longrightarrow> tq_seq q' = tq_seq q \<Longrightarrow> tq_inv q' = tq_inv q"
proof -
  assume ids: "map tr_id (tq_rows q') = map tr_id (tq_rows q)" and sq: "tq_seq q' = tq_seq q"
  have "tq_inv x \<longleftrightarrow> sorted_wrt (<) (map tr_id (tq_rows x)) \<and> (\<forall>i \<in> set (map tr_id (tq_rows x)). i \<le> tq_seq x)" for x
    by (simp add: tq_inv_def)
  with ids sq show ?thesis by (simp only:)
qed

lemma tq_inv_dequeue: "tq_inv (snd (tq_dequeue J a b q)) = tq_inv q"
  by (cases "tq_first (tq_rows q)") (auto simp: tq_dequeue_def intro!: tq_inv_ids)

lemma consume_waiting:
  assumes "sorted_wrt (<) (map tr_id rows)" "filter (\<lambda>r. \<not> tr_consumed r) rows = r # rest"
  shows "filter (\<lambda>r. \<not> tr_consumed r)
    (snd (update_where (\<lambda>x. tr_id x = tr_id r) (\<lambda>x. x\<lparr>tr_consumed := True\<rparr>) rows)) = rest"
proof -
  have "distinct (map tr_id rows)" using assms(1) by (auto simp: strict_sorted_iff)
  have "filter (\<lambda>r. \<not> tr_consumed r) (snd (update_where (\<lambda>x. tr_id x = tr_id r) (\<lambda>x. x\<lparr>tr_consumed := True\<rparr>) rows))
    = filter (\<lambda>x. \<not> tr_consumed x \<and> tr_id x \<noteq> tr_id r) rows"
    by (induction rows) (auto simp: update_where_def)
  also have "\<dots> = filter (\<lambda>x. tr_id x \<noteq> tr_id r) (filter (\<lambda>r. \<not> tr_consumed r) rows)"
    by (simp add: conj_commute)
  also have "\<dots> = rest"
  proof -
    have "sorted_wrt (<) (map tr_id (r # rest))"
      using assms by (metis sorted_ids_filter)
    then have "\<forall>x \<in> set rest. tr_id x \<noteq> tr_id r" by auto
    with assms(2) show ?thesis by (simp add: filter_id_conv)
  qed
  finally show ?thesis .
qed

definition tq_enq :: "serde \<Rightarrow> trigger_kind \<times> string \<times> json \<times> int \<Rightarrow> trigger_queue \<Rightarrow> trigger_queue" where
  "tq_enq J x q = (case x of (k, wid, input, now) \<Rightarrow> snd (tq_enqueue J True now k wid input q))"

definition tq_deq :: "serde \<Rightarrow> trigger_queue \<Rightarrow> (trigger_event \<times> trigger_queue) option" where
  "tq_deq J q = (case tq_dequeue J True True q of (Inr (Some e), q') \<Rightarrow> Some (e, q') | _ \<Rightarrow> None)"

definition tq_view :: "serde \<Rightarrow> trigger_queue \<Rightarrow> trigger_kind \<times> string \<times> json \<times> int \<Rightarrow> trigger_event" where
  "tq_view J q x = (case x of (k, wid, input, now) \<Rightarrow>
     \<lparr>te_id = tq_seq q + 1, te_kind = k, te_workflow_id = wid,
      te_input = (case json_parse J (json_text J input) of Some v \<Rightarrow> v | None \<Rightarrow> JNull),
      te_queued_at_ms = now\<rparr>)"

interpretation tq: fifo_queue "tq_enq J" "tq_deq J" "\<lambda>q. map (tq_event J) (tq_waiting q)" "tq_view J" tq_inv
  for J
proof (unfold_locales, goal_cases)
  case (1 q x)
  then show ?case by (auto simp: tq_enq_def tq_inv_enqueue split: prod.splits)
next
  case (2 q x)
  then show ?case
    by (auto simp: tq_enq_def tq_enqueue_def tq_waiting_def tq_view_def tq_event_def Let_def split: prod.splits)
next
  case (3 q)
  then show ?case by (simp add: tq_deq_def tq_dequeue_def tq_first_waiting)
next
  case (4 q y ys)
  then obtain r rest where r: "tq_waiting q = r # rest" "y = tq_event J r" "ys = map (tq_event J) rest"
    by auto
  have sorted: "sorted_wrt (<) (map tr_id (tq_rows q))" using 4 by (simp add: tq_inv_def)
  have "tq_inv (snd (tq_dequeue J True True q))" using 4 by (simp add: tq_inv_dequeue)
  with r consume_waiting [OF sorted] 4 show ?case
    by (auto simp: tq_deq_def tq_dequeue_def tq_first_waiting tq_waiting_def)
qed

text \<open>Enqueue a list of events and drain.\<close>

lemma items_enqs:
  "tq_inv q \<Longrightarrow> \<exists>evs. map (tq_event J) (tq_waiting (fold (tq_enq J) xs q)) = map (tq_event J) (tq_waiting q) @ evs
    \<and> map te_workflow_id evs = map (\<lambda>(k, wid, input, now). wid) xs
    \<and> map te_kind evs = map (\<lambda>(k, wid, input, now). k) xs"
proof (induction xs arbitrary: q)
  case (Cons x xs)
  let ?q = "tq_enq J x q"
  have "tq_inv ?q" using Cons.prems by (rule tq.inv_enq)
  from Cons.IH [OF this] obtain evs where evs:
    "map (tq_event J) (tq_waiting (fold (tq_enq J) xs ?q)) = map (tq_event J) (tq_waiting ?q) @ evs"
    "map te_workflow_id evs = map (\<lambda>(k, wid, input, now). wid) xs"
    "map te_kind evs = map (\<lambda>(k, wid, input, now). k) xs"
    by blast
  then show ?case
    using tq.items_enq [OF Cons.prems, of J x]
    by (intro exI [of _ "tq_view J q x # evs"]) (auto simp: tq_view_def split: prod.splits)
qed simp

lemma tq_fifo:
  assumes "tq_inv q" and "n \<ge> length (tq_waiting q) + length xs"
  shows "\<exists>q' evs. drain (tq_deq J) n (fold (tq_enq J) xs q) = (map (tq_event J) (tq_waiting q) @ evs, q')
    \<and> map te_workflow_id evs = map (\<lambda>(k, wid, input, now). wid) xs
    \<and> map te_kind evs = map (\<lambda>(k, wid, input, now). k) xs
    \<and> tq_waiting q' = [] \<and> tq_inv q'"
proof -
  obtain evs where evs:
    "map (tq_event J) (tq_waiting (fold (tq_enq J) xs q)) = map (tq_event J) (tq_waiting q) @ evs"
    "map te_workflow_id evs = map (\<lambda>(k, wid, input, now). wid) xs"
    "map te_kind evs = map (\<lambda>(k, wid, input, now). k) xs"
    using items_enqs [OF assms(1)] by blast
  have l: "tq_inv (fold (tq_enq J) xs q)" "length (map (tq_event J) (tq_waiting (fold (tq_enq J) xs q))) \<le> n"
    using tq.length_items_enqs [OF assms(1), of J xs] assms(2) by simp_all
  from tq.drain_items [OF l] evs show ?thesis by auto
qed

end
