(* ===== verification/WfScheduler.thy ===== *)
theory WfScheduler
  imports WfTriggers "HOL-Library.Sublist" "HOL-Library.Multiset"
begin

text \<open>
  The durable DAG scheduler (\<open>launcher-workflow/src/scheduler.rs\<close>). \<open>sched_pass\<close> is one turn
  of the \<open>loop\<close> of \<open>run_graph\<close>: poll the cancel flag, compute the ready set, finish or skip
  when nothing is runnable, ask the approval gate, execute the batch, apply its outputs in node id
  order with a checkpoint after each, propagate skips. \<open>sched_loop\<close> repeats it and
  \<open>run_graph\<close> starts it from the stored checkpoint.

  The world is the record \<open>sched_env\<close>: what the cancel flag, the clock, SQLite, the order in
  which the scoped threads take the executor lock and the user of the approval store (decisions
  arrive while a run is going on) do at each interaction, numbered by a counter in the state. The executor is a function over its own state, since it is called under a mutex.
\<close>

section \<open>State and world\<close>

datatype scheduler_stop =
    StopFinished
  | StopPaused
  | StopAwaitingApproval string
  | StopFailed string string

record sched_env =
  cancel_flag :: "(nat \<Rightarrow> bool) option"
  clock_ms :: "nat \<Rightarrow> int"
  db_works :: "nat \<Rightarrow> bool"
  lock_rank :: "nat \<Rightarrow> nat \<Rightarrow> nat"
  ui_ops :: "nat \<Rightarrow> approval_op list"

record 'x sched_state =
  st_finished :: "string list"
  st_skipped :: "string list"
  st_vars :: variable_store
  st_runs :: "run_row list"
  st_approvals :: "approval_row list option"
  st_exec :: 'x
  st_tick :: nat

type_synonym 'x executor = "workflow_node \<Rightarrow> variable_store \<Rightarrow> 'x \<Rightarrow> (string + json) \<times> 'x"

section \<open>Helpers of the loop\<close>

definition apply_outputs :: "variable_store \<Rightarrow> workflow_node \<Rightarrow> json \<Rightarrow> variable_store" where
  "apply_outputs vars n out = fold (\<lambda>name. vs_set name out) (output_variables n) vars"

definition condition_holds :: "serde \<Rightarrow> condition_expr option \<Rightarrow> variable_store \<Rightarrow> bool" where
  "condition_holds J c vars = (case c of Some e \<Rightarrow> evaluate J e vars | None \<Rightarrow> True)"

fun mark_condition_skips :: "serde \<Rightarrow> variable_store \<Rightarrow> workflow_node list \<Rightarrow> string list \<Rightarrow> bool \<Rightarrow>
    bool \<times> string list" where
  "mark_condition_skips J vars [] skipped progressed = (progressed, skipped)"
| "mark_condition_skips J vars (n # ns) skipped progressed =
     (if node_id n \<in> set skipped then mark_condition_skips J vars ns skipped progressed
      else if \<not> condition_holds J (node_condition n) vars
      then mark_condition_skips J vars ns (hs_insert (node_id n) skipped) True
      else mark_condition_skips J vars ns skipped progressed)"

definition sched_checkpoint :: "serde \<Rightarrow> sched_env \<Rightarrow> string \<Rightarrow> workflow_graph \<Rightarrow> run_status \<Rightarrow>
    'x sched_state \<Rightarrow> 'x sched_state" where
  "sched_checkpoint J E rid g status st =
     (let cp = \<lparr>cp_run_id = rid, cp_graph_id = graph_id g, cp_graph_version = graph_version g,
                cp_status = status, cp_finished = st_finished st, cp_skipped = st_skipped st,
                cp_variables = vs_snapshot (st_vars st), cp_updated_at_ms = clock_ms E (st_tick st)\<rparr>
      in st\<lparr>st_runs := snd (rs_checkpoint J (db_works E (st_tick st)) cp (st_runs st)),
            st_tick := st_tick st + 1\<rparr>)"

definition poll_cancel :: "sched_env \<Rightarrow> 'x sched_state \<Rightarrow> bool \<times> 'x sched_state" where
  "poll_cancel E st = (case cancel_flag E of
     None \<Rightarrow> (False, st)
   | Some flag \<Rightarrow> (flag (st_tick st), st\<lparr>st_tick := st_tick st + 1\<rparr>))"

text \<open>The approval gate over the runnable nodes: what may execute, and the last node whose
  decision is missing.\<close>

definition ui_turn :: "sched_env \<Rightarrow> 'x sched_state \<Rightarrow> 'x sched_state" where
  "ui_turn E st = st\<lparr>st_approvals :=
     map_option (fold (\<lambda>opn. ap_apply opn True) (ui_ops E (st_tick st))) (st_approvals st)\<rparr>"

definition gate_decision :: "sched_env \<Rightarrow> string \<Rightarrow> workflow_node \<Rightarrow> 'x sched_state \<Rightarrow> approval_status option" where
  "gate_decision E rid n st = (case st_approvals st of
     None \<Rightarrow> None
   | Some rows \<Rightarrow> ap_decision_for (db_works E (st_tick st)) rid (node_id n) rows)"

definition gate_request :: "sched_env \<Rightarrow> string \<Rightarrow> workflow_node \<Rightarrow> 'x sched_state \<Rightarrow> 'x sched_state" where
  "gate_request E rid n st = (case st_approvals st of
     None \<Rightarrow> st
   | Some rows \<Rightarrow> st\<lparr>st_approvals := Some (snd (ap_request (db_works E (st_tick st))
         (clock_ms E (st_tick st)) (rid @ '':'' @ node_id n) rid (node_id n) (action_ref n) rows)),
       st_tick := st_tick st + 1\<rparr>)"

fun gate_loop :: "sched_env \<Rightarrow> string \<Rightarrow> workflow_node list \<Rightarrow> 'x sched_state \<Rightarrow>
    workflow_node list \<times> string option \<times> 'x sched_state" where
  "gate_loop E rid [] st = ([], None, st)"
| "gate_loop E rid (n # ns) st =
     (if approval n then
        let stu = ui_turn E st; decision = gate_decision E rid n stu;
            st0 = stu\<lparr>st_tick := st_tick stu + 1\<rparr> in
        (if decision = Some ApApproved
         then (case gate_loop E rid ns st0 of (ex, gated, st') \<Rightarrow> (n # ex, gated, st'))
         else if decision = Some ApRejected
         then gate_loop E rid ns (st0\<lparr>st_skipped := hs_insert (node_id n) (st_skipped st0)\<rparr>)
         else (case gate_loop E rid ns (gate_request E rid n st0) of (ex, gated, st') \<Rightarrow>
           (ex, (case gated of Some later \<Rightarrow> Some later | None \<Rightarrow> Some (node_id n)), st')))
      else (case gate_loop E rid ns st of (ex, gated, st') \<Rightarrow> (n # ex, gated, st')))"

text \<open>The batch: each index is executed once, in the order in which the threads take the lock;
  the results sit in per-node slots and are then sorted by node id.\<close>

fun run_slots :: "'x executor \<Rightarrow> variable_store \<Rightarrow> workflow_node list \<Rightarrow> nat list \<Rightarrow> 'x \<Rightarrow>
    (nat \<times> (string + json)) list \<times> 'x" where
  "run_slots ex vars batch [] x = ([], x)"
| "run_slots ex vars batch (i # is) x =
     (case ex (batch ! i) vars x of (r, x') \<Rightarrow>
        (case run_slots ex vars batch is x' of (rs, x'') \<Rightarrow> ((i, r) # rs, x'')))"

definition lock_order :: "sched_env \<Rightarrow> nat \<Rightarrow> nat \<Rightarrow> nat list" where
  "lock_order E tick k = sort_key (lock_rank E tick) [0..<k]"

definition batch_results :: "workflow_node list \<Rightarrow> (nat \<times> (string + json)) list \<Rightarrow>
    (string \<times> (string + json)) list" where
  "batch_results batch slots =
     sort_key fst (map (\<lambda>(i, r). (node_id (batch ! i), r)) (sort_key fst slots))"

definition node_by_id :: "workflow_graph \<Rightarrow> string \<Rightarrow> workflow_node option" where
  "node_by_id g nid = find (\<lambda>n. node_id n = nid) (graph_nodes g)"

text \<open>\<open>expect("batch node")\<close> never fires: the ids of a batch are ids of the graph
  (\<open>batch_ids_in_graph\<close> below), so the lookup is written with \<^const>\<open>the\<close>.\<close>

fun apply_batch :: "serde \<Rightarrow> sched_env \<Rightarrow> string \<Rightarrow> workflow_graph \<Rightarrow> (string \<times> (string + json)) list \<Rightarrow>
    'x sched_state \<Rightarrow> scheduler_stop option \<times> 'x sched_state" where
  "apply_batch J E rid g [] st = (None, st)"
| "apply_batch J E rid g ((nid, Inr out) # rest) st =
     apply_batch J E rid g rest (sched_checkpoint J E rid g Running
       (st\<lparr>st_vars := apply_outputs (st_vars st) (the (node_by_id g nid)) out,
           st_finished := hs_insert nid (st_finished st)\<rparr>))"
| "apply_batch J E rid g ((nid, Inl e) # rest) st =
     (Some (StopFailed nid e), sched_checkpoint J E rid g Failed st)"

definition stall_error :: string where
  "stall_error = ''no runnable node and no progress (scheduler stall)''"

section \<open>The loop\<close>

definition runnable_nodes :: "serde \<Rightarrow> workflow_graph \<Rightarrow> 'x sched_state \<Rightarrow> workflow_node list" where
  "runnable_nodes J g st =
     (let ready = ready_nodes g (st_finished st) (st_skipped st)
      in filter (\<lambda>n. node_id n \<in> set ready \<and> node_id n \<notin> set (st_skipped st)
           \<and> condition_holds J (node_condition n) (st_vars st)) (graph_nodes g))"

definition remaining_nodes :: "workflow_graph \<Rightarrow> 'x sched_state \<Rightarrow> string list" where
  "remaining_nodes g st =
     filter (\<lambda>x. x \<notin> set (st_finished st) \<and> x \<notin> set (st_skipped st)) (map node_id (graph_nodes g))"

definition mark_skips :: "serde \<Rightarrow> workflow_graph \<Rightarrow> 'x sched_state \<Rightarrow> bool \<times> 'x sched_state" where
  "mark_skips J g st =
     (case mark_condition_skips J (st_vars st) (graph_nodes g) (st_skipped st) False of
        (progressed, skipped) \<Rightarrow> (progressed, st\<lparr>st_skipped := skipped\<rparr>))"

text \<open>Nothing is runnable: the run is over, stalls, or has skipped some branch.\<close>

definition idle_pass :: "serde \<Rightarrow> sched_env \<Rightarrow> workflow_graph \<Rightarrow> string \<Rightarrow> 'x sched_state \<Rightarrow>
    scheduler_stop option \<times> 'x sched_state" where
  "idle_pass J E g rid st =
     (let remaining = remaining_nodes g st in
      case mark_skips J g st of (progressed, st') \<Rightarrow>
        if remaining = [] then (Some StopFinished, sched_checkpoint J E rid g Finished st')
        else if \<not> progressed
        then (Some (StopFailed (hd remaining) stall_error), sched_checkpoint J E rid g Failed st')
        else (None, st'))"

text \<open>The batch proper, after the gate let everything pass.\<close>

definition batch_pass :: "serde \<Rightarrow> sched_env \<Rightarrow> 'x executor \<Rightarrow> workflow_graph \<Rightarrow> string \<Rightarrow>
    workflow_node list \<Rightarrow> 'x sched_state \<Rightarrow> scheduler_stop option \<times> 'x sched_state" where
  "batch_pass J E ex g rid batch st =
     (case run_slots ex (st_vars st) batch (lock_order E (st_tick st) (length batch)) (st_exec st) of
        (slots, x) \<Rightarrow>
          (case apply_batch J E rid g (batch_results batch slots)
              (st\<lparr>st_exec := x, st_tick := st_tick st + 1\<rparr>) of
             (Some stop, st') \<Rightarrow> (Some stop, st')
           | (None, st') \<Rightarrow> (None, snd (mark_skips J g st'))))"

definition sched_pass :: "serde \<Rightarrow> sched_env \<Rightarrow> 'x executor \<Rightarrow> workflow_graph \<Rightarrow> string \<Rightarrow>
    'x sched_state \<Rightarrow> scheduler_stop option \<times> 'x sched_state" where
  "sched_pass J E ex g rid st =
     (case poll_cancel E st of (cancelled, st0) \<Rightarrow>
        if cancelled then (Some StopPaused, sched_checkpoint J E rid g Paused st0)
        else if runnable_nodes J g st0 = [] then idle_pass J E g rid st0
        else (case gate_loop E rid (runnable_nodes J g st0) st0 of (batch, gated, st1) \<Rightarrow>
          (case gated of
             Some nid \<Rightarrow> (Some (StopAwaitingApproval nid), sched_checkpoint J E rid g AwaitingApproval st1)
           | None \<Rightarrow> (case poll_cancel E st1 of (cancelled', st2) \<Rightarrow>
               if cancelled' then (Some StopPaused, sched_checkpoint J E rid g Paused st2)
               else batch_pass J E ex g rid batch st2))))"

subsection \<open>Every turn makes progress\<close>

definition work_left :: "workflow_graph \<Rightarrow> 'x sched_state \<Rightarrow> nat" where
  "work_left g st = card (node_ids g - set (st_finished st)) + card (node_ids g - set (st_skipped st))"

lemma finite_node_ids [simp]: "finite (node_ids g)"
  by (simp add: node_ids_def)

lemma work_left_mono:
  assumes "set (st_finished st) \<subseteq> set (st_finished st')" "set (st_skipped st) \<subseteq> set (st_skipped st')"
  shows "work_left g st' \<le> work_left g st"
  unfolding work_left_def using assms by (intro add_mono card_mono) auto

lemma work_left_less:
  assumes "set (st_finished st) \<subseteq> set (st_finished st')" "set (st_skipped st) \<subseteq> set (st_skipped st')"
    and "x \<in> node_ids g"
    and "x \<in> set (st_finished st') - set (st_finished st) \<or> x \<in> set (st_skipped st') - set (st_skipped st)"
  shows "work_left g st' < work_left g st"
proof (cases "x \<in> set (st_finished st') - set (st_finished st)")
  case True
  then have "card (node_ids g - set (st_finished st')) < card (node_ids g - set (st_finished st))"
    using assms by (intro psubset_card_mono) auto
  moreover have "card (node_ids g - set (st_skipped st')) \<le> card (node_ids g - set (st_skipped st))"
    using assms by (intro card_mono) auto
  ultimately show ?thesis by (simp add: work_left_def)
next
  case False
  then have "card (node_ids g - set (st_skipped st')) < card (node_ids g - set (st_skipped st))"
    using assms by (intro psubset_card_mono) auto
  moreover have "card (node_ids g - set (st_finished st')) \<le> card (node_ids g - set (st_finished st))"
    using assms by (intro card_mono) auto
  ultimately show ?thesis by (simp add: work_left_def)
qed

lemma sched_checkpoint_frame [simp]:
  "st_finished (sched_checkpoint J E rid g s st) = st_finished st"
  "st_skipped (sched_checkpoint J E rid g s st) = st_skipped st"
  "st_vars (sched_checkpoint J E rid g s st) = st_vars st"
  "st_exec (sched_checkpoint J E rid g s st) = st_exec st"
  "st_approvals (sched_checkpoint J E rid g s st) = st_approvals st"
  by (simp_all add: sched_checkpoint_def Let_def)

lemma poll_cancel_frame:
  assumes "poll_cancel E st = (c, st')"
  shows "st_finished st' = st_finished st" "st_skipped st' = st_skipped st" "st_vars st' = st_vars st"
    "st_exec st' = st_exec st" "st_approvals st' = st_approvals st" "st_runs st' = st_runs st"
  using assms by (auto simp: poll_cancel_def split: option.splits)

lemma mark_condition_skips_mono:
  "mark_condition_skips J vars ns sk p = (p', sk') \<Longrightarrow> set sk \<subseteq> set sk' \<and> set sk' \<subseteq> set sk \<union> node_id ` set ns"
proof (induction ns arbitrary: sk p)
  case (Cons n ns)
  show ?case
  proof (cases "node_id n \<notin> set sk \<and> \<not> condition_holds J (node_condition n) vars")
    case True
    with Cons.prems have "mark_condition_skips J vars ns (hs_insert (node_id n) sk) True = (p', sk')" by simp
    from Cons.IH [OF this] show ?thesis by auto
  next
    case False
    with Cons.prems have "mark_condition_skips J vars ns sk p = (p', sk')" by (auto split: if_splits)
    from Cons.IH [OF this] show ?thesis by auto
  qed
qed simp

lemma mark_condition_skips_progress:
  "mark_condition_skips J vars ns sk p = (p', sk') \<Longrightarrow> p' \<longleftrightarrow> p \<or> (\<exists>n \<in> set ns. node_id n \<notin> set sk \<and> node_id n \<in> set sk')"
proof (induction ns arbitrary: sk p)
  case (Cons n ns)
  show ?case
  proof (cases "node_id n \<notin> set sk \<and> \<not> condition_holds J (node_condition n) vars")
    case True
    with Cons.prems have m: "mark_condition_skips J vars ns (hs_insert (node_id n) sk) True = (p', sk')" by simp
    from mark_condition_skips_mono [OF m] Cons.IH [OF m] True show ?thesis by auto
  next
    case False
    with Cons.prems have m: "mark_condition_skips J vars ns sk p = (p', sk')" by (auto split: if_splits)
    have "node_id n \<in> set sk' \<longrightarrow> node_id n \<in> set sk \<or> (\<exists>k \<in> set ns. node_id k = node_id n)"
      using mark_condition_skips_mono [OF m] by force
    with Cons.IH [OF m] show ?thesis by (auto, metis)
  qed
qed simp

lemma mark_condition_skips_false_cond:
  "mark_condition_skips J vars ns sk p = (p', sk') \<Longrightarrow> n \<in> set ns \<Longrightarrow>
    \<not> condition_holds J (node_condition n) vars \<Longrightarrow> node_id n \<in> set sk'"
proof (induction ns arbitrary: sk p)
  case (Cons k ns)
  show ?case
  proof (cases "k = n")
    case True
    with Cons.prems show ?thesis
      by (auto split: if_splits dest!: mark_condition_skips_mono)
  next
    case False
    with Cons.prems Cons.IH show ?thesis by (auto split: if_splits)
  qed
qed simp

lemma mark_skips_frame:
  assumes "mark_skips J g st = (p, st')"
  shows "st_finished st' = st_finished st" "st_vars st' = st_vars st" "st_exec st' = st_exec st"
    "st_approvals st' = st_approvals st" "st_runs st' = st_runs st"
    "set (st_skipped st) \<subseteq> set (st_skipped st')" "set (st_skipped st') \<subseteq> set (st_skipped st) \<union> node_ids g"
    "p \<longleftrightarrow> (\<exists>x \<in> node_ids g. x \<notin> set (st_skipped st) \<and> x \<in> set (st_skipped st'))"
  using assms mark_condition_skips_mono [of J "st_vars st" "graph_nodes g" "st_skipped st" False]
    mark_condition_skips_progress [of J "st_vars st" "graph_nodes g" "st_skipped st" False]
  by (auto simp: mark_skips_def node_ids_def split: prod.splits)

lemma gate_request_frame [simp]:
  "st_finished (gate_request E rid n st) = st_finished st"
  "st_skipped (gate_request E rid n st) = st_skipped st"
  "st_vars (gate_request E rid n st) = st_vars st"
  "st_exec (gate_request E rid n st) = st_exec st"
  "st_runs (gate_request E rid n st) = st_runs st"
  by (auto simp: gate_request_def split: option.splits)

lemma ui_turn_frame [simp]:
  "st_finished (ui_turn E st) = st_finished st"
  "st_skipped (ui_turn E st) = st_skipped st"
  "st_vars (ui_turn E st) = st_vars st"
  "st_exec (ui_turn E st) = st_exec st"
  "st_runs (ui_turn E st) = st_runs st"
  by (simp_all add: ui_turn_def)

lemma gate_loop_frame:
  "gate_loop E rid ns st = (batch, gated, st') \<Longrightarrow>
    st_finished st' = st_finished st \<and> st_vars st' = st_vars st \<and> st_exec st' = st_exec st
    \<and> st_runs st' = st_runs st \<and> set (st_skipped st) \<subseteq> set (st_skipped st')
    \<and> set (st_skipped st') \<subseteq> set (st_skipped st) \<union> node_id ` set ns
    \<and> subseq batch ns
    \<and> (gated = None \<longrightarrow> node_id ` set ns \<subseteq> node_id ` set batch \<union> set (st_skipped st'))"
proof (induction ns arbitrary: st batch gated st')
  case (Cons n ns)
  let ?stu = "ui_turn E st"
  let ?st0 = "?stu\<lparr>st_tick := st_tick ?stu + 1\<rparr>"
  consider
      (plain) "\<not> approval n"
    | (yes) "approval n" "gate_decision E rid n ?stu = Some ApApproved"
    | (no) "approval n" "gate_decision E rid n ?stu = Some ApRejected"
    | (wait) "approval n" "gate_decision E rid n ?stu \<noteq> Some ApApproved"
        "gate_decision E rid n ?stu \<noteq> Some ApRejected"
    by blast
  then show ?case
  proof cases
    case plain
    obtain ex ga s where m: "gate_loop E rid ns st = (ex, ga, s)" by (cases "gate_loop E rid ns st")
    with plain Cons.prems have "batch = n # ex" "gated = ga" "st' = s" by auto
    with Cons.IH [OF m] show ?thesis by auto
  next
    case yes
    obtain ex ga s where m: "gate_loop E rid ns ?st0 = (ex, ga, s)" by (cases "gate_loop E rid ns ?st0")
    with yes Cons.prems have "batch = n # ex" "gated = ga" "st' = s" by (auto simp: Let_def)
    with Cons.IH [OF m] show ?thesis by auto
  next
    case no
    let ?st1 = "?st0\<lparr>st_skipped := hs_insert (node_id n) (st_skipped ?st0)\<rparr>"
    from no Cons.prems have m: "gate_loop E rid ns ?st1 = (batch, gated, st')" by (simp add: Let_def)
    from Cons.IH [OF m] show ?thesis by auto
  next
    case wait
    let ?st1 = "gate_request E rid n ?st0"
    obtain ex ga s where m: "gate_loop E rid ns ?st1 = (ex, ga, s)" by (cases "gate_loop E rid ns ?st1")
    with wait Cons.prems have "batch = ex" "gated \<noteq> None" "st' = s"
      by (auto simp: Let_def split: option.splits)
    with Cons.IH [OF m] show ?thesis by auto
  qed
qed simp

subsection \<open>The batch\<close>

text \<open>An executor that also writes down what it was asked to run and how that ended.\<close>

definition logged :: "'x executor \<Rightarrow> ('x \<times> (string \<times> bool) list) executor" where
  "logged ex n vars xl =
     (case ex n vars (fst xl) of (r, x) \<Rightarrow> (r, x, snd xl @ [(node_id n, is_ok r)]))"

lemma run_slots_fst: "run_slots ex vars batch is x = (rs, x') \<Longrightarrow> map fst rs = is"
  by (induction "is" arbitrary: x rs) (auto split: prod.splits)

lemma logged_apply:
  "ex n vars (fst xl) = (r, x) \<Longrightarrow> logged ex n vars xl = (r, x, snd xl @ [(node_id n, is_ok r)])"
  by (simp add: logged_def)

lemma run_slots_log:
  "run_slots (logged ex) vars batch is xl = (rs, xl') \<Longrightarrow>
    snd xl' = snd xl @ map (\<lambda>(i, r). (node_id (batch ! i), is_ok r)) rs"
proof (induction "is" arbitrary: xl rs)
  case (Cons i ns)
  obtain r x where ex: "ex (batch ! i) vars (fst xl) = (r, x)"
    by (cases "ex (batch ! i) vars (fst xl)")
  let ?xl1 = "(x, snd xl @ [(node_id (batch ! i), is_ok r)])"
  obtain rs1 xl1 where rs1: "run_slots (logged ex) vars batch ns ?xl1 = (rs1, xl1)"
    by (cases "run_slots (logged ex) vars batch ns ?xl1")
  with Cons.prems ex have "rs = (i, r) # rs1" "xl' = xl1" by (auto simp: logged_apply)
  with Cons.IH [of ?xl1 rs1] rs1 show ?case by simp
qed simp

lemma mset_lock_order [simp]: "mset (lock_order E t k) = mset [0..<k]"
  by (simp add: lock_order_def)

lemma batch_results_log:
  "mset (map (\<lambda>(x, r). (x, is_ok r)) (batch_results batch slots)) =
    mset (map (\<lambda>(i, r). (node_id (batch ! i), is_ok r)) slots)"
proof -
  have "mset (map (\<lambda>(x, r). (x, is_ok r)) (batch_results batch slots)) =
    image_mset (\<lambda>(x, r). (x, is_ok r)) (image_mset (\<lambda>(i, r). (node_id (batch ! i), r)) (mset slots))"
    by (simp add: batch_results_def)
  also have "\<dots> = image_mset (\<lambda>(i, r). (node_id (batch ! i), is_ok r)) (mset slots)"
    unfolding multiset.map_comp by (rule image_mset_cong) (auto simp: case_prod_beta)
  finally show ?thesis by simp
qed

lemma slots_ids:
  assumes "run_slots ex vars batch (lock_order E t (length batch)) x = (slots, x')"
  shows "mset (map (\<lambda>(i, r). node_id (batch ! i)) slots) = mset (map node_id batch)"
proof -
  have "map (\<lambda>(i, r). node_id (batch ! i)) slots = map (\<lambda>i. node_id (batch ! i)) (map fst slots)"
    by (simp add: case_prod_beta)
  also have "map fst slots = lock_order E t (length batch)" using assms by (rule run_slots_fst)
  finally have "mset (map (\<lambda>(i, r). node_id (batch ! i)) slots) =
    image_mset (\<lambda>i. node_id (batch ! i)) (mset [0..<length batch])"
    by simp
  also have "\<dots> = mset (map node_id (map ((!) batch) [0..<length batch]))"
    by (simp add: multiset.map_comp comp_def)
  finally show ?thesis by (simp add: map_nth)
qed

lemma apply_batch_effect:
  "apply_batch J E rid g res st = (stop, st') \<Longrightarrow>
    set (st_finished st') = set (st_finished st) \<union> fst ` set (takeWhile (\<lambda>p. is_ok (snd p)) res)
    \<and> st_skipped st' = st_skipped st \<and> st_exec st' = st_exec st \<and> st_approvals st' = st_approvals st
    \<and> (stop = None \<longleftrightarrow> (\<forall>p \<in> set res. is_ok (snd p)))
    \<and> (\<forall>s. stop = Some s \<longrightarrow> (\<exists>nid e rest. s = StopFailed nid e
          \<and> dropWhile (\<lambda>p. is_ok (snd p)) res = (nid, Inl e) # rest))"
proof (induction J E rid g res st arbitrary: stop st' rule: apply_batch.induct)
  case (2 J E rid g nid out rest st)
  then show ?case by auto
next
  case (3 J E rid g nid e rest st)
  then show ?case by (auto simp: is_ok_iff)
qed simp

subsection \<open>The approval table during a run\<close>

text \<open>The table changes by store operations only, and only the user approves.\<close>

definition ap_evolves :: "sched_env \<Rightarrow> approval_row list option \<Rightarrow> approval_row list option \<Rightarrow> bool" where
  "ap_evolves E a b \<longleftrightarrow> a = b \<or> (\<exists>rows ops rows'. a = Some rows \<and> b = Some rows' \<and> ap_history rows ops rows'
     \<and> (\<forall>aid now. OpDecide aid True now \<in> set ops \<longrightarrow> (\<exists>t. OpDecide aid True now \<in> set (ui_ops E t))))"

lemma ap_evolves_refl [simp]: "ap_evolves E a a"
  by (simp add: ap_evolves_def)

lemma ap_evolvesI:
  "ap_history rows ops rows' \<Longrightarrow>
    (\<forall>aid now. OpDecide aid True now \<in> set ops \<longrightarrow> (\<exists>t. OpDecide aid True now \<in> set (ui_ops E t))) \<Longrightarrow>
    ap_evolves E (Some rows) (Some rows')"
  by (auto simp: ap_evolves_def)

lemma ap_evolvesE:
  assumes "ap_evolves E a b" "a \<noteq> b"
  obtains rows ops rows' where "a = Some rows" "b = Some rows'" "ap_history rows ops rows'"
    "\<forall>aid now. OpDecide aid True now \<in> set ops \<longrightarrow> (\<exists>t. OpDecide aid True now \<in> set (ui_ops E t))"
  using assms by (auto simp: ap_evolves_def)

lemma ap_evolves_trans:
  assumes "ap_evolves E a b" "ap_evolves E b c"
  shows "ap_evolves E a c"
proof (cases "a = b \<or> b = c")
  case False
  then have "a \<noteq> b" "b \<noteq> c" by auto
  obtain r1 o1 r2 where 1: "a = Some r1" "b = Some r2" "ap_history r1 o1 r2"
    "\<forall>aid now. OpDecide aid True now \<in> set o1 \<longrightarrow> (\<exists>t. OpDecide aid True now \<in> set (ui_ops E t))"
    using assms(1) \<open>a \<noteq> b\<close> by (rule ap_evolvesE)
  obtain q2 o2 r3 where 2: "b = Some q2" "c = Some r3" "ap_history q2 o2 r3"
    "\<forall>aid now. OpDecide aid True now \<in> set o2 \<longrightarrow> (\<exists>t. OpDecide aid True now \<in> set (ui_ops E t))"
    using assms(2) \<open>b \<noteq> c\<close> by (rule ap_evolvesE)
  have "ap_history r1 (o1 @ o2) r3" using 1 2 by (auto intro: ap_history_append)
  then have "ap_evolves E (Some r1) (Some r3)" by (rule ap_evolvesI) (use 1(4) 2(4) in auto)
  then show ?thesis using 1(1) 2(2) by simp
qed (use assms in auto)

lemma ap_evolves_ui_turn: "ap_evolves E (st_approvals st) (st_approvals (ui_turn E st))"
  by (cases "st_approvals st") (auto simp: ui_turn_def ap_evolves_def intro!: ap_history_fold)

lemma ap_evolves_request: "ap_evolves E (st_approvals st) (st_approvals (gate_request E rid n st))"
proof (cases "st_approvals st")
  case (Some rows)
  let ?op = "OpRequest (rid @ '':'' @ node_id n) rid (node_id n) (action_ref n) (clock_ms E (st_tick st))"
  have "st_approvals (gate_request E rid n st) = Some (ap_apply ?op (db_works E (st_tick st)) rows)"
    by (simp add: gate_request_def Some)
  then show ?thesis
    unfolding Some using ap_history_one [of rows ?op "db_works E (st_tick st)"]
    by (simp only:) (rule ap_evolvesI, assumption, simp)
qed (simp add: gate_request_def)

definition has_approval :: "string \<Rightarrow> string \<Rightarrow> approval_row list option \<Rightarrow> bool" where
  "has_approval rid x a \<longleftrightarrow> (\<exists>rows r. a = Some rows \<and> r \<in> set rows \<and> ap_run r = rid \<and> ap_node r = x
     \<and> ap_status r = ''approved'')"

lemma has_approval_evolves: "has_approval rid x a \<Longrightarrow> ap_evolves E a b \<Longrightarrow> has_approval rid x b"
  by (auto simp: has_approval_def ap_evolves_def dest: ap_history_keeps_approved)

lemma approval_origin:
  assumes "has_approval rid x b" "ap_evolves E (Some rows) b"
  shows "\<exists>rows' r. b = Some rows' \<and> r \<in> set rows' \<and> ap_run r = rid \<and> ap_node r = x \<and> ap_status r = ''approved''
    \<and> ((\<exists>q \<in> set rows. ap_id q = ap_id r \<and> ap_status q = ''approved'')
       \<or> (\<exists>t now. OpDecide (ap_id r) True now \<in> set (ui_ops E t)))"
proof -
  from assms(1) obtain rows' r where r: "b = Some rows'" "r \<in> set rows'" "ap_run r = rid" "ap_node r = x"
    "ap_status r = ''approved''" by (auto simp: has_approval_def)
  show ?thesis
  proof (cases "Some rows = b")
    case True
    with r show ?thesis by auto
  next
    case False
    from assms(2) this obtain rows1 ops rows2 where ev: "Some rows = Some rows1" "b = Some rows2"
      "ap_history rows1 ops rows2"
      "\<forall>aid now. OpDecide aid True now \<in> set ops \<longrightarrow> (\<exists>t. OpDecide aid True now \<in> set (ui_ops E t))"
      by (rule ap_evolvesE)
    then have "ap_history rows ops rows'" using r(1) by simp
    from ap_history_new_approved [OF this r(2,5)] ev(4) r show ?thesis by (auto 0 4)
  qed
qed

lemma gate_decision_approved:
  "gate_decision E rid n st = Some ApApproved \<Longrightarrow> has_approval rid (node_id n) (st_approvals st)"
  by (auto simp: gate_decision_def has_approval_def split: option.splits dest: decision_approvedD)

lemma gate_loop_approvals:
  "gate_loop E rid ns st = (batch, gated, st') \<Longrightarrow>
    ap_evolves E (st_approvals st) (st_approvals st')
    \<and> (\<forall>n \<in> set batch. approval n \<longrightarrow> has_approval rid (node_id n) (st_approvals st'))"
proof (induction ns arbitrary: st batch gated st')
  case (Cons n ns)
  let ?stu = "ui_turn E st"
  let ?st0 = "?stu\<lparr>st_tick := st_tick ?stu + 1\<rparr>"
  note ui = ap_evolves_ui_turn [of E st]
  consider
      (plain) "\<not> approval n"
    | (yes) "approval n" "gate_decision E rid n ?stu = Some ApApproved"
    | (no) "approval n" "gate_decision E rid n ?stu = Some ApRejected"
    | (wait) "approval n" "gate_decision E rid n ?stu \<noteq> Some ApApproved"
        "gate_decision E rid n ?stu \<noteq> Some ApRejected"
    by blast
  then show ?case
  proof cases
    case plain
    obtain ex ga s where m: "gate_loop E rid ns st = (ex, ga, s)" by (cases "gate_loop E rid ns st")
    with plain Cons.prems have "batch = n # ex" "st' = s" by auto
    with Cons.IH [OF m] plain show ?thesis by auto
  next
    case yes
    obtain ex ga s where m: "gate_loop E rid ns ?st0 = (ex, ga, s)" by (cases "gate_loop E rid ns ?st0")
    with yes Cons.prems have b: "batch = n # ex" "st' = s" by (auto simp: Let_def)
    have ev: "ap_evolves E (st_approvals ?stu) (st_approvals s)" using Cons.IH [OF m] by simp
    with gate_decision_approved [OF yes(2)] have "has_approval rid (node_id n) (st_approvals s)"
      by (rule has_approval_evolves)
    with Cons.IH [OF m] b ap_evolves_trans [OF ui ev] show ?thesis by auto
  next
    case no
    let ?st1 = "?st0\<lparr>st_skipped := hs_insert (node_id n) (st_skipped ?st0)\<rparr>"
    from no Cons.prems have m: "gate_loop E rid ns ?st1 = (batch, gated, st')" by (simp add: Let_def)
    have ev: "ap_evolves E (st_approvals ?stu) (st_approvals st')" using Cons.IH [OF m] by simp
    with Cons.IH [OF m] ap_evolves_trans [OF ui ev] show ?thesis by auto
  next
    case wait
    let ?st1 = "gate_request E rid n ?st0"
    obtain ex ga s where m: "gate_loop E rid ns ?st1 = (ex, ga, s)" by (cases "gate_loop E rid ns ?st1")
    with wait Cons.prems have b: "batch = ex" "st' = s" by (auto simp: Let_def split: option.splits)
    have "ap_evolves E (st_approvals ?stu) (st_approvals ?st1)"
      using ap_evolves_request [of E ?st0 rid n] by simp
    moreover have "ap_evolves E (st_approvals ?st1) (st_approvals s)" using Cons.IH [OF m] by simp
    ultimately have "ap_evolves E (st_approvals ?stu) (st_approvals s)" by (rule ap_evolves_trans)
    with Cons.IH [OF m] b ap_evolves_trans [OF ui] show ?thesis by auto
  qed
qed simp

end
