(* ===== verification/WfRun.thy ===== *)
theory WfRun
  imports WfScheduler
begin

text \<open>
  The run of a graph (\<open>run_graph\<close> of \<open>launcher-workflow/src/scheduler.rs\<close>): the start from the
  stored checkpoint, the loop over \<open>sched_pass\<close>, and what whole runs promise: the loop ends,
  a validated graph never stalls, no step runs twice or before its predecessors, gated steps run
  only after an approval, and the store always holds the sets of the last turn.
\<close>

section \<open>What one turn executes\<close>

lemma subseq_set_mono: "subseq xs ys \<Longrightarrow> set xs \<subseteq> set ys"
  by (induction rule: list_emb.induct) auto

lemma distinct_subseq: "subseq xs ys \<Longrightarrow> distinct ys \<Longrightarrow> distinct xs"
proof (induction rule: list_emb.induct)
  case (list_emb_Cons2 x y xs ys)
  then show ?case using subseq_set_mono [of xs ys] by auto
qed auto

lemma runnable_nodesD:
  assumes "n \<in> set (runnable_nodes J g st)"
  shows "n \<in> set (graph_nodes g)" "node_ready g (st_finished st) (st_skipped st) n"
    "condition_holds J (node_condition n) (st_vars st)"
proof -
  from assms have n: "n \<in> set (graph_nodes g)"
      "node_id n \<in> set (ready_nodes g (st_finished st) (st_skipped st))"
    and c: "condition_holds J (node_condition n) (st_vars st)"
    by (auto simp: runnable_nodes_def Let_def)
  then obtain k where "node_id k = node_id n" "node_ready g (st_finished st) (st_skipped st) k"
    by (auto simp: set_ready_nodes)
  then have "node_ready g (st_finished st) (st_skipped st) n"
    by (simp add: node_ready_def Let_def split: if_splits)
  with n c show "n \<in> set (graph_nodes g)" "node_ready g (st_finished st) (st_skipped st) n"
    "condition_holds J (node_condition n) (st_vars st)" by auto
qed

lemma takeWhile_before_failure:
  fixes nid :: "'a::linorder"
  assumes "sorted (map fst res)" "dropWhile P res = (nid, e) # rest" "(x, r) \<in> set res" "x < nid"
  shows "x \<in> fst ` set (takeWhile P res)"
proof -
  have res: "res = takeWhile P res @ (nid, e) # rest"
    using takeWhile_dropWhile_id [of P res] assms(2) by simp
  have "sorted (map fst (takeWhile P res @ (nid, e) # rest))" using assms(1) res by simp
  then have "\<forall>y \<in> set rest. nid \<le> fst y" by (auto simp: sorted_append)
  moreover have "(x, r) \<in> set (takeWhile P res @ (nid, e) # rest)" using assms(3) res by simp
  ultimately show ?thesis using assms(4) by force
qed

lemma batch_pass_effect:
  assumes "batch_pass J E (logged ex) g rid batch st = (stop, st')"
  obtains new where
    "snd (st_exec st') = snd (st_exec st) @ new"
    "mset (map fst new) = mset (map node_id batch)"
    "st_approvals st' = st_approvals st"
    "set (st_finished st) \<subseteq> set (st_finished st')"
    "set (st_finished st') \<subseteq> set (st_finished st) \<union> {x. (x, True) \<in> set new}"
    "set (st_skipped st) \<subseteq> set (st_skipped st')"
    "set (st_skipped st') \<subseteq> set (st_skipped st) \<union> node_ids g"
    "stop = None \<Longrightarrow> fst ` set new \<subseteq> set (st_finished st') \<and> (\<forall>p \<in> set new. snd p)"
    "stop = None \<or> (\<exists>nid e. stop = Some (StopFailed nid e) \<and> (nid, False) \<in> set new
      \<and> (\<forall>x. (x, True) \<in> set new \<longrightarrow> x < nid \<longrightarrow> x \<in> set (st_finished st')))"
proof -
  obtain slots xl where slots:
      "run_slots (logged ex) (st_vars st) batch (lock_order E (st_tick st) (length batch)) (st_exec st) = (slots, xl)"
    by (cases "run_slots (logged ex) (st_vars st) batch (lock_order E (st_tick st) (length batch)) (st_exec st)")
  let ?R = "batch_results batch slots"
  let ?st = "st\<lparr>st_exec := xl, st_tick := st_tick st + 1\<rparr>"
  let ?new = "map (\<lambda>(i, r). (node_id (batch ! i), is_ok r)) slots"
  obtain s2 st2 where ab: "apply_batch J E rid g ?R ?st = (s2, st2)" by (cases "apply_batch J E rid g ?R ?st")
  note eff = apply_batch_effect [OF ab]
  have log: "snd xl = snd (st_exec st) @ ?new" by (rule run_slots_log [OF slots])
  have fsts: "map fst ?new = map (\<lambda>(i, r). node_id (batch ! i)) slots" by (simp add: case_prod_beta comp_def)
  have ids: "mset (map fst ?new) = mset (map node_id batch)"
    unfolding fsts by (rule slots_ids [OF slots])
  have R: "set ?new = (\<lambda>(x, r). (x, is_ok r)) ` set ?R"
    using mset_eq_setD [OF batch_results_log [of batch slots]] by simp
  have srt: "sorted (map fst ?R)" by (simp add: batch_results_def)
  have "batch_pass J E (logged ex) g rid batch st =
    (case s2 of Some s \<Rightarrow> (Some s, st2) | None \<Rightarrow> (None, snd (mark_skips J g st2)))"
    unfolding batch_pass_def slots prod.case ab by (simp split: option.split)
  with assms have "st' = st2 \<or> st' = snd (mark_skips J g st2)" and stop: "stop = s2"
    by (cases s2; simp)+
  then have st': "st_exec st' = st_exec st2" "st_finished st' = st_finished st2" "st_approvals st' = st_approvals st2"
    and sk: "set (st_skipped st2) \<subseteq> set (st_skipped st')" "set (st_skipped st') \<subseteq> set (st_skipped st2) \<union> node_ids g"
    using mark_skips_frame [of J g st2 "fst (mark_skips J g st2)" "snd (mark_skips J g st2)"]
    by auto
  have took: "fst ` set (takeWhile (\<lambda>p. is_ok (snd p)) ?R) \<subseteq> {x. (x, True) \<in> set ?new}"
    unfolding R by (force dest: set_takeWhileD)
  show thesis
  proof (rule that [of ?new])
    show "snd (st_exec st') = snd (st_exec st) @ ?new" using log st' eff by simp
    show "set (st_finished st') \<subseteq> set (st_finished st) \<union> {x. (x, True) \<in> set ?new}"
      using st' eff took by auto
    show "fst ` set ?new \<subseteq> set (st_finished st') \<and> (\<forall>p \<in> set ?new. snd p)" if "stop = None"
    proof -
      from that stop eff have ok: "\<forall>p \<in> set ?R. is_ok (snd p)" by simp
      then have "takeWhile (\<lambda>p. is_ok (snd p)) ?R = ?R" by (simp add: takeWhile_eq_all_conv)
      with eff st' have "set (st_finished st') = set (st_finished st) \<union> fst ` set ?R" by simp
      with ok show ?thesis unfolding R by force
    qed
    show "stop = None \<or> (\<exists>nid e. stop = Some (StopFailed nid e) \<and> (nid, False) \<in> set ?new
      \<and> (\<forall>x. (x, True) \<in> set ?new \<longrightarrow> x < nid \<longrightarrow> x \<in> set (st_finished st')))"
    proof (cases stop)
      case (Some s)
      with stop eff obtain nid e rest where s: "s = StopFailed nid e"
        and dw: "dropWhile (\<lambda>p. is_ok (snd p)) ?R = (nid, Inl e) # rest" by blast
      have "x \<in> set (st_finished st')" if "(x, True) \<in> set ?new" "x < nid" for x
      proof -
        from that(1) obtain r where "(x, r) \<in> set ?R" unfolding R by auto
        from takeWhile_before_failure [OF srt dw this that(2)] show ?thesis using eff st' by simp
      qed
      moreover have "(nid, Inl e) \<in> set ?R" by (rule set_dropWhileD [of _ "\<lambda>p. is_ok (snd p)"]) (simp add: dw)
      then have "(nid, False) \<in> set ?new" unfolding R by (force simp: is_ok_iff)
      ultimately show ?thesis using Some s by blast
    qed simp
  qed (use ids st' eff sk in auto)
qed

text \<open>One turn of the loop, seen from outside: what it executed, and what became of the sets.\<close>

definition idle_stop :: "scheduler_stop option \<Rightarrow> bool" where
  "idle_stop s = (case s of None \<Rightarrow> False | Some (StopFailed _ e) \<Rightarrow> e = stall_error | Some _ \<Rightarrow> True)"

lemma gated_batch_ids:
  assumes "gate_loop E rid (runnable_nodes J g st) st = (batch, gated, st1)" "n \<in> set batch"
  shows "n \<in> set (graph_nodes g)" "node_ready g (st_finished st) (st_skipped st) n"
    "condition_holds J (node_condition n) (st_vars st)"
proof -
  have "subseq batch (runnable_nodes J g st)" using gate_loop_frame [OF assms(1)] by simp
  then have "n \<in> set (runnable_nodes J g st)" using assms(2) subseq_set_mono by blast
  from runnable_nodesD [OF this] show "n \<in> set (graph_nodes g)"
    "node_ready g (st_finished st) (st_skipped st) n"
    "condition_holds J (node_condition n) (st_vars st)" by auto
qed

lemma gated_batch_distinct:
  assumes "gate_loop E rid (runnable_nodes J g st) st = (batch, gated, st1)"
    and "distinct (map node_id (graph_nodes g))"
  shows "distinct (map node_id batch)"
proof -
  have "subseq batch (runnable_nodes J g st)" using gate_loop_frame [OF assms(1)] by simp
  moreover have "subseq (runnable_nodes J g st) (graph_nodes g)"
    unfolding runnable_nodes_def Let_def by (rule subseq_filter_left)
  ultimately have "subseq (map node_id batch) (map node_id (graph_nodes g))"
    by (meson subseq_map subseq_order.order_trans)
  then show ?thesis using assms(2) by (rule distinct_subseq)
qed

lemma gated_frame:
  assumes gl: "gate_loop E rid (runnable_nodes J g st) st = (batch, gated, st1)"
  shows "st_finished st1 = st_finished st" "st_exec st1 = st_exec st" "st_vars st1 = st_vars st"
    "st_runs st1 = st_runs st" "set (st_skipped st) \<subseteq> set (st_skipped st1)"
    "set (st_skipped st1) \<subseteq> set (st_skipped st) \<union> node_ids g"
    "ap_evolves E (st_approvals st) (st_approvals st1)"
proof -
  have "node_id ` set (runnable_nodes J g st) \<subseteq> node_ids g"
    by (auto simp: node_ids_def dest: runnable_nodesD)
  moreover have "set (st_skipped st1) \<subseteq> set (st_skipped st) \<union> node_id ` set (runnable_nodes J g st)"
    using gate_loop_frame [OF gl] by simp
  ultimately show "set (st_skipped st1) \<subseteq> set (st_skipped st) \<union> node_ids g" by blast
qed (use gate_loop_frame [OF gl] gate_loop_approvals [OF gl] in simp_all)

text \<open>The ways through one turn.\<close>

lemma sched_pass_cases:
  assumes "sched_pass J E ex g rid st = (stop, st')"
  obtains c st0 where "poll_cancel E st = (c, st0)" "stop = Some StopPaused"
      "st' = sched_checkpoint J E rid g Paused st0"
  | c st0 where "poll_cancel E st = (c, st0)" "runnable_nodes J g st0 = []"
      "idle_pass J E g rid st0 = (stop, st')"
  | c st0 batch nid st1 where "poll_cancel E st = (c, st0)" "runnable_nodes J g st0 \<noteq> []"
      "gate_loop E rid (runnable_nodes J g st0) st0 = (batch, Some nid, st1)"
      "stop = Some (StopAwaitingApproval nid)" "st' = sched_checkpoint J E rid g AwaitingApproval st1"
  | c st0 batch st1 c' st2 where "poll_cancel E st = (c, st0)" "runnable_nodes J g st0 \<noteq> []"
      "gate_loop E rid (runnable_nodes J g st0) st0 = (batch, None, st1)"
      "poll_cancel E st1 = (c', st2)" "stop = Some StopPaused" "st' = sched_checkpoint J E rid g Paused st2"
  | c st0 batch st1 c' st2 where "poll_cancel E st = (c, st0)" "runnable_nodes J g st0 \<noteq> []"
      "gate_loop E rid (runnable_nodes J g st0) st0 = (batch, None, st1)"
      "poll_cancel E st1 = (c', st2)" "batch_pass J E ex g rid batch st2 = (stop, st')"
proof -
  obtain c st0 where pc: "poll_cancel E st = (c, st0)" by (cases "poll_cancel E st")
  obtain batch gated st1 where gl: "gate_loop E rid (runnable_nodes J g st0) st0 = (batch, gated, st1)"
    by (cases "gate_loop E rid (runnable_nodes J g st0) st0")
  obtain c' st2 where pc': "poll_cancel E st1 = (c', st2)" by (cases "poll_cancel E st1")
  note eq = assms [unfolded sched_pass_def pc prod.case gl pc']
  show thesis
  proof (cases c)
    case True
    with eq that(1) [OF pc] show thesis by simp
  next
    case False
    note c = this
    show thesis
    proof (cases "runnable_nodes J g st0 = []")
      case True
      with eq c that(2) [OF pc] show thesis by simp
    next
      case r: False
      show thesis
      proof (cases gated)
        case (Some nid)
        with eq c r that(3) [OF pc r] gl show thesis by simp
      next
        case None
        with eq c r that(4,5) [OF pc r] gl pc' show thesis by (cases c') simp_all
      qed
    qed
  qed
qed

text \<open>The batch seen from the start of its turn.\<close>

lemma batch_turn:
  assumes gl: "gate_loop E rid (runnable_nodes J g st) st = (batch, None, st1)"
    and ids: "mset (map fst new) = mset (map node_id batch)"
  shows "\<forall>x \<in> fst ` set new. \<exists>n \<in> set (graph_nodes g). node_id n = x
      \<and> node_ready g (st_finished st) (st_skipped st) n \<and> condition_holds J (node_condition n) (st_vars st)
      \<and> (approval n \<longrightarrow> has_approval rid x (st_approvals st1))"
    and "distinct (map node_id (graph_nodes g)) \<Longrightarrow> distinct (map fst new)"
proof -
  have "fst ` set new = node_id ` set batch" using mset_eq_setD [OF ids] by simp
  moreover have "\<forall>k \<in> set batch. \<exists>n \<in> set (graph_nodes g). node_id n = node_id k
      \<and> node_ready g (st_finished st) (st_skipped st) n \<and> condition_holds J (node_condition n) (st_vars st)
      \<and> (approval n \<longrightarrow> has_approval rid (node_id k) (st_approvals st1))"
    using gated_batch_ids [OF gl] gate_loop_approvals [OF gl] by blast
  ultimately show "\<forall>x \<in> fst ` set new. \<exists>n \<in> set (graph_nodes g). node_id n = x
      \<and> node_ready g (st_finished st) (st_skipped st) n \<and> condition_holds J (node_condition n) (st_vars st)
      \<and> (approval n \<longrightarrow> has_approval rid x (st_approvals st1))" by simp
  show "distinct (map fst new)" if "distinct (map node_id (graph_nodes g))"
    using gated_batch_distinct [OF gl that] ids mset_eq_imp_distinct_iff by blast
qed

lemma sched_pass_effect:
  assumes "sched_pass J E (logged ex) g rid st = (stop, st')"
  obtains new where
    "snd (st_exec st') = snd (st_exec st) @ new"
    "\<forall>x \<in> fst ` set new. \<exists>n \<in> set (graph_nodes g). node_id n = x
       \<and> node_ready g (st_finished st) (st_skipped st) n \<and> condition_holds J (node_condition n) (st_vars st)
       \<and> (approval n \<longrightarrow> has_approval rid x (st_approvals st'))"
    "distinct (map node_id (graph_nodes g)) \<Longrightarrow> distinct (map fst new)"
    "ap_evolves E (st_approvals st) (st_approvals st')"
    "set (st_finished st) \<subseteq> set (st_finished st')"
    "set (st_finished st') \<subseteq> set (st_finished st) \<union> {x. (x, True) \<in> set new}"
    "set (st_skipped st) \<subseteq> set (st_skipped st')"
    "set (st_skipped st') \<subseteq> set (st_skipped st) \<union> node_ids g"
    "stop = None \<Longrightarrow> fst ` set new \<subseteq> set (st_finished st') \<and> (\<forall>p \<in> set new. snd p)"
    "new = [] \<or> stop = None \<or> (\<exists>nid e. stop = Some (StopFailed nid e) \<and> (nid, False) \<in> set new
      \<and> (\<forall>x. (x, True) \<in> set new \<longrightarrow> x < nid \<longrightarrow> x \<in> set (st_finished st')))"
  using assms
proof (cases rule: sched_pass_cases)
  case (1 c st0)
  then show thesis using poll_cancel_frame [OF 1(1)] by (intro that [of "[]"]) auto
next
  case (2 c st0)
  obtain p st3 where ms: "mark_skips J g st0 = (p, st3)" by (cases "mark_skips J g st0")
  from 2 show thesis
    using mark_skips_frame [OF ms] poll_cancel_frame [OF 2(1)]
    by (intro that [of "[]"]) (auto simp: idle_pass_def ms Let_def split: if_splits)
next
  case (3 c st0 batch nid st1)
  then show thesis using poll_cancel_frame [OF 3(1)] gated_frame [OF 3(3)]
    by (intro that [of "[]"]) simp_all
next
  case (4 c st0 batch st1 c' st2)
  then show thesis
    using poll_cancel_frame [OF 4(1)] gated_frame [OF 4(3)] poll_cancel_frame [OF 4(4)]
    by (intro that [of "[]"]) simp_all
next
  case (5 c st0 batch st1 c' st2)
  note f = poll_cancel_frame [OF 5(1)] gated_frame [OF 5(3)] poll_cancel_frame [OF 5(4)]
  have sk: "set (st_skipped st) \<subseteq> set (st_skipped st2)" "set (st_skipped st2) \<subseteq> set (st_skipped st) \<union> node_ids g"
    using f(2,11,12,15) by simp_all
  have fin: "st_finished st2 = st_finished st" using f(1,7,14) by simp
  from 5(5) show thesis
  proof (cases rule: batch_pass_effect)
    case (1 new)
    show thesis
    proof (rule that [of new])
      show "\<forall>x \<in> fst ` set new. \<exists>n \<in> set (graph_nodes g). node_id n = x
        \<and> node_ready g (st_finished st) (st_skipped st) n \<and> condition_holds J (node_condition n) (st_vars st)
        \<and> (approval n \<longrightarrow> has_approval rid x (st_approvals st'))"
        using batch_turn(1) [OF 5(3) 1(2)] 1(3) f by simp
      show "distinct (map fst new)" if "distinct (map node_id (graph_nodes g))"
        by (rule batch_turn(2) [OF 5(3) 1(2) that])
      show "set (st_skipped st) \<subseteq> set (st_skipped st')" "set (st_skipped st') \<subseteq> set (st_skipped st) \<union> node_ids g"
        using 1(6,7) sk by blast+
      show "snd (st_exec st') = snd (st_exec st) @ new" using 1(1) f(4,8,17) by simp
      show "ap_evolves E (st_approvals st) (st_approvals st')" using 1(3) f(5,13,18) by simp
      show "set (st_finished st) \<subseteq> set (st_finished st')"
        "set (st_finished st') \<subseteq> set (st_finished st) \<union> {x. (x, True) \<in> set new}"
        using 1(4,5) fin by simp_all
    qed (use 1(8,9) in auto)
  qed
qed

section \<open>The loop ends\<close>

lemma batch_pass_finishes:
  assumes "batch_pass J E ex g rid batch st = (None, st')"
  shows "node_id ` set batch \<subseteq> set (st_finished st')" "set (st_finished st) \<subseteq> set (st_finished st')"
    "set (st_skipped st) \<subseteq> set (st_skipped st')"
proof -
  obtain slots x where slots:
      "run_slots ex (st_vars st) batch (lock_order E (st_tick st) (length batch)) (st_exec st) = (slots, x)"
    by (cases "run_slots ex (st_vars st) batch (lock_order E (st_tick st) (length batch)) (st_exec st)")
  let ?R = "batch_results batch slots"
  let ?st = "st\<lparr>st_exec := x, st_tick := st_tick st + 1\<rparr>"
  obtain s2 st2 where ab: "apply_batch J E rid g ?R ?st = (s2, st2)" by (cases "apply_batch J E rid g ?R ?st")
  have st': "s2 = None" "st' = snd (mark_skips J g st2)"
    using assms unfolding batch_pass_def slots prod.case ab by (auto split: option.splits)
  have ok: "takeWhile (\<lambda>p. is_ok (snd p)) ?R = ?R"
    using apply_batch_effect [OF ab] st'(1) by (simp add: takeWhile_eq_all_conv)
  have "fst ` set ?R = (\<lambda>(i, r). node_id (batch ! i)) ` set slots"
    by (simp add: batch_results_def image_image case_prod_beta)
  also have "\<dots> = node_id ` set batch" using mset_eq_setD [OF slots_ids [OF slots]] by simp
  finally have "set (st_finished st2) = set (st_finished st) \<union> node_id ` set batch"
    and "st_skipped st2 = st_skipped st"
    using apply_batch_effect [OF ab] ok by simp_all
  then show "node_id ` set batch \<subseteq> set (st_finished st')" "set (st_finished st) \<subseteq> set (st_finished st')"
    "set (st_skipped st) \<subseteq> set (st_skipped st')"
    using mark_skips_frame [of J g st2 "fst (mark_skips J g st2)" st'] st'(2) by auto
qed

lemma sched_pass_progress:
  assumes "sched_pass J E ex g rid st = (None, st')"
  shows "work_left g st' < work_left g st"
  using assms
proof (cases rule: sched_pass_cases)
  case (2 c st0)
  obtain p st3 where ms: "mark_skips J g st0 = (p, st3)" by (cases "mark_skips J g st0")
  from 2(3) have p: "p" "st' = st3" by (auto simp: idle_pass_def ms Let_def split: if_splits)
  then obtain y where "y \<in> node_ids g" "y \<notin> set (st_skipped st0)" "y \<in> set (st_skipped st3)"
    using mark_skips_frame(8) [OF ms] by auto
  then show ?thesis
    using mark_skips_frame(1,6) [OF ms] poll_cancel_frame [OF 2(1)] p by (intro work_left_less [where x = y]) auto
next
  case (5 c st0 batch st1 c' st2)
  note f = poll_cancel_frame [OF 5(1)] gated_frame [OF 5(3)] poll_cancel_frame [OF 5(4)]
  have sk: "set (st_skipped st) \<subseteq> set (st_skipped st2)" "st_skipped st2 = st_skipped st1"
    using f(2,11,15) by simp_all
  have fin: "st_finished st2 = st_finished st" using f(1,7,14) by simp
  note bp = batch_pass_finishes [OF 5(5)]
  from 5(2) obtain n where n: "n \<in> set (runnable_nodes J g st0)" by (cases "runnable_nodes J g st0") auto
  note rn = runnable_nodesD [OF n]
  have nid: "node_id n \<in> node_ids g" using rn(1) by (simp add: node_ids_def)
  have new: "node_id n \<notin> set (st_finished st)" "node_id n \<notin> set (st_skipped st)"
    using node_ready_not_done [OF rn(2)] f(1,2) by simp_all
  have "node_id ` set (runnable_nodes J g st0) \<subseteq> node_id ` set batch \<union> set (st_skipped st1)"
    using gate_loop_frame [OF 5(3)] by simp
  then have "node_id n \<in> node_id ` set batch \<union> set (st_skipped st1)" using n by auto
  moreover have "set (st_skipped st1) \<subseteq> set (st_skipped st')" using bp(3) sk(2) by simp
  ultimately have "node_id n \<in> set (st_finished st') \<or> node_id n \<in> set (st_skipped st')"
    using bp(1) by blast
  then have "node_id n \<in> set (st_finished st') - set (st_finished st)
      \<or> node_id n \<in> set (st_skipped st') - set (st_skipped st)"
    using new by blast
  moreover have "set (st_finished st) \<subseteq> set (st_finished st')" "set (st_skipped st) \<subseteq> set (st_skipped st')"
    using bp(2,3) sk fin by auto
  ultimately show ?thesis using nid by (intro work_left_less)
qed simp_all

text \<open>The \<open>loop\<close> of \<open>run_graph\<close>: it ends because a turn that goes on has finished or skipped a
  node it had not before.\<close>

function sched_loop :: "serde \<Rightarrow> sched_env \<Rightarrow> 'x executor \<Rightarrow> workflow_graph \<Rightarrow> string \<Rightarrow>
    'x sched_state \<Rightarrow> scheduler_stop \<times> 'x sched_state" where
  "sched_loop J E ex g rid st = (case sched_pass J E ex g rid st of
     (Some stop, st') \<Rightarrow> (stop, st')
   | (None, st') \<Rightarrow> sched_loop J E ex g rid st')"
  by pat_completeness auto
termination
  by (relation "measure (\<lambda>(J, E, ex, g, rid, st). work_left g st)") (auto simp: sched_pass_progress)

declare sched_loop.simps [simp del]

text \<open>What the run takes over from its stored checkpoint: finished ids, skipped ids, variables.\<close>

definition resume :: "serde \<Rightarrow> bool \<Rightarrow> workflow_graph \<Rightarrow> string \<Rightarrow> run_row list \<Rightarrow>
    string list \<times> string list \<times> variable_store" where
  "resume J db_ok g rid runs = (case rs_load J db_ok rid runs of
     Inr (Some cp) \<Rightarrow>
       (if cp_graph_id cp = graph_id g \<and> cp_graph_version cp = graph_version g
        then (hs_from_list (cp_finished cp), hs_from_list (cp_skipped cp),
          (case cp_variables cp of JObject m \<Rightarrow> fold (\<lambda>(k, v). vs_set k v) m vs_empty | _ \<Rightarrow> vs_empty))
        else ([], [], vs_empty))
   | _ \<Rightarrow> ([], [], vs_empty))"

definition start_state :: "serde \<Rightarrow> sched_env \<Rightarrow> workflow_graph \<Rightarrow> string \<Rightarrow> run_row list \<Rightarrow>
    approval_row list option \<Rightarrow> 'x \<Rightarrow> 'x sched_state" where
  "start_state J E g rid runs approvals x = (case resume J (db_works E 0) g rid runs of (fin, sk, vars) \<Rightarrow>
     \<lparr>st_finished = fin, st_skipped = sk, st_vars = vars, st_runs = runs,
      st_approvals = approvals, st_exec = x, st_tick = 1\<rparr>)"

definition run_graph :: "serde \<Rightarrow> sched_env \<Rightarrow> 'x executor \<Rightarrow> workflow_graph \<Rightarrow> string \<Rightarrow> run_row list \<Rightarrow>
    approval_row list option \<Rightarrow> 'x \<Rightarrow> scheduler_stop \<times> 'x sched_state" where
  "run_graph J E ex g rid runs approvals x =
     sched_loop J E ex g rid (start_state J E g rid runs approvals x)"

text \<open>Loop rule: an invariant of the turns that go on, and what the last turn makes of it.\<close>

lemma sched_loop_rule:
  assumes "sched_loop J E ex g rid st = (stop, st')" "I st"
    and "\<And>s s'. I s \<Longrightarrow> sched_pass J E ex g rid s = (None, s') \<Longrightarrow> I s'"
    and "\<And>s s'. I s \<Longrightarrow> sched_pass J E ex g rid s = (Some stop, s') \<Longrightarrow> Q s'"
  shows "Q st'"
  using assms(1,2)
proof (induction "work_left g st" arbitrary: st rule: less_induct)
  case less
  obtain s1 st1 where p: "sched_pass J E ex g rid st = (s1, st1)" by (cases "sched_pass J E ex g rid st")
  show ?case
  proof (cases s1)
    case None
    with p less.prems(1) have "sched_loop J E ex g rid st1 = (stop, st')"
      by (subst (asm) sched_loop.simps) simp
    with less.hyps [OF sched_pass_progress] assms(3) [OF less.prems(2)] p None show ?thesis by simp
  next
    case (Some s)
    with p less.prems(1) have "s = stop" "st1 = st'" by (subst (asm) sched_loop.simps, simp)+
    with assms(4) [OF less.prems(2)] p Some show ?thesis by simp
  qed
qed

section \<open>What a run executes\<close>

text \<open>Facts about the log of a run that started with the finished set \<open>F\<close> and the approvals
  \<open>A\<close>: at most once, nothing that was finished already, predecessors first, approved when gated.\<close>

definition run_facts :: "sched_env \<Rightarrow> string \<Rightarrow> workflow_graph \<Rightarrow> string set \<Rightarrow> approval_row list option \<Rightarrow>
    ('x \<times> (string \<times> bool) list) sched_state \<Rightarrow> bool" where
  "run_facts E rid g F A st \<longleftrightarrow>
     distinct (map fst (snd (st_exec st)))
     \<and> fst ` set (snd (st_exec st)) \<subseteq> node_ids g - F
     \<and> F \<subseteq> set (st_finished st)
     \<and> set (st_finished st) \<subseteq> F \<union> {x. (x, True) \<in> set (snd (st_exec st))}
     \<and> (\<forall>i < length (snd (st_exec st)). preds g (fst (snd (st_exec st) ! i))
          \<subseteq> F \<union> {y. (y, True) \<in> set (take i (snd (st_exec st)))} \<union> set (st_skipped st))
     \<and> ap_evolves E A (st_approvals st)
     \<and> (\<forall>n \<in> set (graph_nodes g). node_id n \<in> fst ` set (snd (st_exec st)) \<longrightarrow> approval n \<longrightarrow>
          has_approval rid (node_id n) (st_approvals st))"

definition all_recorded :: "('x \<times> (string \<times> bool) list) sched_state \<Rightarrow> bool" where
  "all_recorded st \<longleftrightarrow> fst ` set (snd (st_exec st)) \<subseteq> set (st_finished st)"

lemma order_append:
  assumes was: "\<forall>i < length old. P (fst (old ! i)) \<subseteq> F \<union> {y. (y, True) \<in> set (take i old)} \<union> S"
    and new: "\<forall>x \<in> fst ` set added. P x \<subseteq> F \<union> {y. (y, True) \<in> set old} \<union> S"
    and "S \<subseteq> S'"
  shows "\<forall>i < length (old @ added). P (fst ((old @ added) ! i))
    \<subseteq> F \<union> {y. (y, True) \<in> set (take i (old @ added))} \<union> S'"
proof (intro allI impI)
  fix i assume i: "i < length (old @ added)"
  show "P (fst ((old @ added) ! i)) \<subseteq> F \<union> {y. (y, True) \<in> set (take i (old @ added))} \<union> S'"
  proof (cases "i < length old")
    case True
    with was have "P (fst (old ! i)) \<subseteq> F \<union> {y. (y, True) \<in> set (take i old)} \<union> S" by blast
    with True assms(3) show ?thesis by (auto simp: nth_append)
  next
    case False
    with i have "fst (added ! (i - length old)) \<in> fst ` set added" by simp
    with new have "P (fst (added ! (i - length old))) \<subseteq> F \<union> {y. (y, True) \<in> set old} \<union> S" by blast
    with False assms(3) show ?thesis by (auto simp: nth_append)
  qed
qed

lemma run_facts_pass:
  assumes facts: "run_facts E rid g F A st" and rec: "all_recorded st"
    and dist: "distinct (map node_id (graph_nodes g))"
    and pass: "sched_pass J E (logged ex) g rid st = (stop, st')"
  shows "run_facts E rid g F A st'" "stop = None \<Longrightarrow> all_recorded st'"
proof -
  let ?log = "snd (st_exec st)"
  from pass have "run_facts E rid g F A st' \<and> (stop = None \<longrightarrow> all_recorded st')"
  proof (cases rule: sched_pass_effect)
    case (1 new)
    have ready: "x \<in> node_ids g \<and> x \<notin> set (st_finished st) \<and> preds g x \<subseteq> set (st_finished st) \<union> set (st_skipped st)"
      if "x \<in> fst ` set new" for x
    proof -
      from 1(2) that obtain n where n: "n \<in> set (graph_nodes g)" "node_id n = x"
        "node_ready g (st_finished st) (st_skipped st) n" by blast
      then show ?thesis
        using node_ready_not_done [OF n(3)] node_ready_preds [OF n(3)] by (auto simp: node_ids_def)
    qed
    have nf: "fst ` set new \<inter> set (st_finished st) = {}" "fst ` set new \<subseteq> node_ids g" using ready by blast+
    have "F \<subseteq> set (st_finished st)" "fst ` set ?log \<subseteq> set (st_finished st)"
      using rec facts by (simp_all add: all_recorded_def run_facts_def)
    with nf have fresh: "fst ` set new \<inter> fst ` set ?log = {}" "fst ` set new \<subseteq> node_ids g - F" by blast+
    have fin: "set (st_finished st) \<subseteq> F \<union> {x. (x, True) \<in> set ?log}" using facts by (simp add: run_facts_def)
    have "\<forall>x \<in> fst ` set new. preds g x \<subseteq> F \<union> {y. (y, True) \<in> set ?log} \<union> set (st_skipped st)"
      using ready fin by blast
    then have order: "\<forall>i < length (?log @ new). preds g (fst ((?log @ new) ! i))
        \<subseteq> F \<union> {y. (y, True) \<in> set (take i (?log @ new))} \<union> set (st_skipped st')"
      using facts 1(7) by (intro order_append) (simp_all add: run_facts_def)
    have ev: "ap_evolves E A (st_approvals st')"
      using facts 1(4) by (auto simp: run_facts_def intro: ap_evolves_trans)
    have appr: "has_approval rid (node_id n) (st_approvals st')"
      if n: "n \<in> set (graph_nodes g)" "node_id n \<in> fst ` set (?log @ new)" "approval n" for n
    proof (cases "node_id n \<in> fst ` set ?log")
      case True
      with facts n have "has_approval rid (node_id n) (st_approvals st)" by (auto simp: run_facts_def)
      then show ?thesis using 1(4) by (rule has_approval_evolves)
    next
      case False
      with n have "node_id n \<in> fst ` set new" by auto
      with 1(2) obtain k where k: "k \<in> set (graph_nodes g)" "node_id k = node_id n"
        "approval k \<longrightarrow> has_approval rid (node_id n) (st_approvals st')" by blast
      with dist n(1) have "k = n" by (auto simp: distinct_map dest: inj_onD)
      with k n(3) show ?thesis by simp
    qed
    have "distinct (map fst (?log @ new))" using facts 1(3) [OF dist] fresh(1) by (auto simp: run_facts_def)
    moreover have "fst ` set (?log @ new) \<subseteq> node_ids g - F"
      using facts fresh(2) by (auto simp: run_facts_def)
    moreover have "F \<subseteq> set (st_finished st')" using facts 1(5) by (auto simp: run_facts_def)
    moreover have "set (st_finished st') \<subseteq> F \<union> {x. (x, True) \<in> set (?log @ new)}" using fin 1(6) by auto
    ultimately have "run_facts E rid g F A st'"
      unfolding run_facts_def 1(1) using order ev appr by blast
    moreover have "all_recorded st'" if "stop = None"
      using rec 1(5) 1(9) [OF that] unfolding all_recorded_def 1(1) by auto
    ultimately show ?thesis by blast
  qed
  then show "run_facts E rid g F A st'" "stop = None \<Longrightarrow> all_recorded st'" by auto
qed

lemma start_state_frame [simp]:
  "st_runs (start_state J E g rid runs A x) = runs"
  "st_approvals (start_state J E g rid runs A x) = A"
  "st_exec (start_state J E g rid runs A x) = x"
  "st_finished (start_state J E g rid runs A x) = fst (resume J (db_works E 0) g rid runs)"
  "st_skipped (start_state J E g rid runs A x) = fst (snd (resume J (db_works E 0) g rid runs))"
  "st_vars (start_state J E g rid runs A x) = snd (snd (resume J (db_works E 0) g rid runs))"
  by (simp_all add: start_state_def case_prod_beta)

lemma run_graph_facts:
  assumes run: "run_graph J E (logged ex) g rid runs A (x, []) = (stop, st')"
    and dist: "distinct (map node_id (graph_nodes g))"
  shows "run_facts E rid g (set (fst (resume J (db_works E 0) g rid runs))) A st'"
proof (rule sched_loop_rule [OF run [unfolded run_graph_def]])
  let ?F = "set (fst (resume J (db_works E 0) g rid runs))"
  let ?I = "\<lambda>st. run_facts E rid g ?F A st \<and> all_recorded st"
  show "?I (start_state J E g rid runs A (x, []))" by (simp add: run_facts_def all_recorded_def)
  show "?I s'" if "?I s" "sched_pass J E (logged ex) g rid s = (None, s')" for s s'
    using run_facts_pass [OF _ _ dist that(2)] that(1) by blast
  show "run_facts E rid g ?F A s'" if "?I s" "sched_pass J E (logged ex) g rid s = (Some stop, s')" for s s'
    using run_facts_pass(1) [OF _ _ dist that(2)] that(1) by simp
qed

section \<open>How a run ends\<close>

lemma idle_pass_Finished:
  "idle_pass J E g rid st = (Some StopFinished, st') \<Longrightarrow>
    node_ids g \<subseteq> set (st_finished st') \<union> set (st_skipped st')"
proof -
  assume idle: "idle_pass J E g rid st = (Some StopFinished, st')"
  obtain p st3 where ms: "mark_skips J g st = (p, st3)" by (cases "mark_skips J g st")
  from idle have "remaining_nodes g st = []" "st' = sched_checkpoint J E rid g Finished st3"
    by (auto simp: idle_pass_def ms Let_def split: if_splits)
  then show ?thesis
    using mark_skips_frame(1,6) [OF ms] by (auto simp: remaining_nodes_def node_ids_def filter_empty_conv)
qed

lemma run_graph_Finished:
  assumes "run_graph J E ex g rid runs A x = (StopFinished, st')"
  shows "node_ids g \<subseteq> set (st_finished st') \<union> set (st_skipped st')"
proof (rule sched_loop_rule [OF assms [unfolded run_graph_def], where I = "\<lambda>_. True"])
  fix s s' assume "sched_pass J E ex g rid s = (Some StopFinished, s')"
  then show "node_ids g \<subseteq> set (st_finished s') \<union> set (st_skipped s')"
  proof (cases rule: sched_pass_cases)
    case (5 c st0 batch st1 c' st2)
    obtain slots y where slots:
        "run_slots ex (st_vars st2) batch (lock_order E (st_tick st2) (length batch)) (st_exec st2) = (slots, y)"
      by (cases "run_slots ex (st_vars st2) batch (lock_order E (st_tick st2) (length batch)) (st_exec st2)")
    from 5(5) have "\<exists>w. apply_batch J E rid g (batch_results batch slots)
        (st2\<lparr>st_exec := y, st_tick := st_tick st2 + 1\<rparr>) = (Some StopFinished, w)"
      unfolding batch_pass_def slots prod.case by (auto split: prod.splits option.splits)
    then show ?thesis by (auto dest: apply_batch_effect)
  qed (auto dest: idle_pass_Finished)
qed simp_all

text \<open>In a valid graph a turn with nothing to run either ends the run or skips a ready node whose
  condition is false, so it never reports a stall.\<close>

lemma idle_pass_no_stall:
  assumes dag: "valid_dag g" and idle: "runnable_nodes J g st = []"
    and pass: "idle_pass J E g rid st = (Some s, st')"
  shows "s = StopFinished"
proof (rule ccontr)
  assume s: "s \<noteq> StopFinished"
  obtain p st3 where ms: "mark_skips J g st = (p, st3)" by (cases "mark_skips J g st")
  from pass s have left: "remaining_nodes g st \<noteq> []" and np: "\<not> p"
    by (auto simp: idle_pass_def ms Let_def split: if_splits)
  from left have "\<exists>x \<in> node_ids g. x \<notin> set (st_finished st) \<and> x \<notin> set (st_skipped st)"
    by (auto simp: remaining_nodes_def node_ids_def filter_empty_conv)
  from valid_dag_progress [OF dag this] have "set (ready_nodes g (st_finished st) (st_skipped st)) \<noteq> {}" by simp
  then obtain n where n: "n \<in> set (graph_nodes g)" "node_ready g (st_finished st) (st_skipped st) n"
    by (auto simp: set_ready_nodes)
  then have nsk: "node_id n \<notin> set (st_skipped st)" by (simp add: node_ready_not_done)
  with n have "\<not> condition_holds J (node_condition n) (st_vars st)"
    using idle by (auto simp: runnable_nodes_def Let_def filter_empty_conv set_ready_nodes)
  with n(1) ms have "node_id n \<in> set (st_skipped st3)"
    by (auto simp: mark_skips_def split: prod.splits dest: mark_condition_skips_false_cond)
  with mark_skips_frame(8) [OF ms] n(1) nsk np show False by (auto simp: node_ids_def)
qed

lemma sched_pass_failure:
  assumes "valid_dag g" "sched_pass J E (logged ex) g rid st = (Some (StopFailed nid e), st')"
  shows "(nid, False) \<in> set (snd (st_exec st'))"
  using assms(2)
proof (cases rule: sched_pass_cases)
  case (2 c st0)
  with idle_pass_no_stall [OF assms(1) 2(2,3)] show ?thesis by simp
next
  case (5 c st0 batch st1 c' st2)
  from 5(5) show ?thesis by (cases rule: batch_pass_effect) auto
qed simp_all

lemma run_graph_failure:
  assumes "run_graph J E (logged ex) g rid runs A x = (StopFailed nid e, st')" "valid_dag g"
  shows "(nid, False) \<in> set (snd (st_exec st'))"
  by (rule sched_loop_rule [OF assms(1) [unfolded run_graph_def], where I = "\<lambda>_. True"])
    (simp_all only: sched_pass_failure [OF assms(2)])

section \<open>What the store holds afterwards\<close>

fun stop_status :: "scheduler_stop \<Rightarrow> run_status" where
  "stop_status StopFinished = Finished"
| "stop_status StopPaused = Paused"
| "stop_status (StopAwaitingApproval nid) = AwaitingApproval"
| "stop_status (StopFailed nid e) = Failed"

lemma apply_batch_stop:
  "apply_batch J E rid g res st = (Some s, st') \<Longrightarrow>
    \<exists>st0. st' = sched_checkpoint J E rid g (stop_status s) st0"
proof (induction J E rid g res st rule: apply_batch.induct)
  case (2 J E rid g nid out rest st)
  then show ?case by simp
next
  case (3 J E rid g nid e rest st)
  then have "s = StopFailed nid e" "st' = sched_checkpoint J E rid g Failed st" by auto
  then show ?case by auto
qed simp

lemma batch_pass_stop:
  assumes "batch_pass J E ex g rid batch st = (Some s, st')"
  shows "\<exists>st0. st' = sched_checkpoint J E rid g (stop_status s) st0"
proof -
  obtain slots y where slots:
      "run_slots ex (st_vars st) batch (lock_order E (st_tick st) (length batch)) (st_exec st) = (slots, y)"
    by (cases "run_slots ex (st_vars st) batch (lock_order E (st_tick st) (length batch)) (st_exec st)")
  from assms have "apply_batch J E rid g (batch_results batch slots)
      (st\<lparr>st_exec := y, st_tick := st_tick st + 1\<rparr>) = (Some s, st')"
    unfolding batch_pass_def slots prod.case by (auto split: prod.splits option.splits)
  then show ?thesis by (rule apply_batch_stop)
qed

lemma sched_pass_stop:
  assumes "sched_pass J E ex g rid st = (Some s, st')"
  shows "\<exists>st0. st' = sched_checkpoint J E rid g (stop_status s) st0"
  using assms
proof (cases rule: sched_pass_cases)
  case (2 c st0)
  obtain p st3 where ms: "mark_skips J g st0 = (p, st3)" by (cases "mark_skips J g st0")
  from 2(3) show ?thesis by (auto simp: idle_pass_def ms Let_def split: if_splits)
next
  case (5 c st0 batch st1 c' st2)
  from 5(5) show ?thesis by (rule batch_pass_stop)
qed auto

text \<open>When SQLite executed the insert and the JSON text reads back, a later load finds the sets and
  variables the run stopped with.\<close>

lemma load_after_checkpoint:
  assumes "db_works E (st_tick st0)" "\<And>xs. ids_parse J (ids_text J xs) = Some xs"
    "st' = sched_checkpoint J E rid g status st0"
  obtains cp where "rs_load J True rid (st_runs st') = Ok (Some cp)"
    "cp_run_id cp = rid" "cp_graph_id cp = graph_id g" "cp_graph_version cp = graph_version g"
    "cp_status cp = status" "cp_finished cp = st_finished st'" "cp_skipped cp = st_skipped st'"
    "json_parse J (json_text J (vs_snapshot (st_vars st'))) = Some (vs_snapshot (st_vars st')) \<Longrightarrow>
      cp_variables cp = vs_snapshot (st_vars st')"
proof -
  let ?cp = "\<lparr>cp_run_id = rid, cp_graph_id = graph_id g, cp_graph_version = graph_version g,
    cp_status = status, cp_finished = st_finished st0, cp_skipped = st_skipped st0,
    cp_variables = vs_snapshot (st_vars st0), cp_updated_at_ms = clock_ms E (st_tick st0)\<rparr>"
  have "st_runs st' = snd (rs_checkpoint J True ?cp (st_runs st0))"
    using assms(1,3) by (simp add: sched_checkpoint_def)
  then have "rs_load J True rid (st_runs st') = Ok (Some (checkpoint_of_row J (row_of_checkpoint J ?cp)))"
    by (simp add: load_checkpoint)
  then show thesis
    by (rule that) (simp_all add: assms(2,3) checkpoint_of_row_def row_of_checkpoint_def)
qed

lemma run_graph_stored:
  assumes "run_graph J E ex g rid runs A x = (stop, st')"
    and "\<forall>t. db_works E t" "\<forall>xs. ids_parse J (ids_text J xs) = Some xs"
  obtains cp where "rs_load J True rid (st_runs st') = Ok (Some cp)"
    "cp_run_id cp = rid" "cp_graph_id cp = graph_id g" "cp_graph_version cp = graph_version g"
    "cp_status cp = stop_status stop" "cp_finished cp = st_finished st'" "cp_skipped cp = st_skipped st'"
    "json_parse J (json_text J (vs_snapshot (st_vars st'))) = Some (vs_snapshot (st_vars st')) \<Longrightarrow>
      cp_variables cp = vs_snapshot (st_vars st')"
proof -
  have "\<exists>st0. st' = sched_checkpoint J E rid g (stop_status stop) st0"
    by (rule sched_loop_rule [OF assms(1) [unfolded run_graph_def], where I = "\<lambda>_. True"])
      (auto intro: sched_pass_stop)
  then obtain st0 where "st' = sched_checkpoint J E rid g (stop_status stop) st0" ..
  from load_after_checkpoint [OF _ _ this] assms(2,3) that show thesis by blast
qed

lemma resume_after_run:
  assumes "run_graph J E ex g rid runs A x = (stop, st')"
    and "\<forall>t. db_works E t" "\<forall>xs. ids_parse J (ids_text J xs) = Some xs"
  shows "set (fst (resume J True g rid (st_runs st'))) = set (st_finished st')"
    "set (fst (snd (resume J True g rid (st_runs st')))) = set (st_skipped st')"
  using assms by (rule run_graph_stored, simp add: resume_def)+

section \<open>Restart\<close>

text \<open>All successes are recorded unless a step of the last batch failed; then those before it in id
  order are.\<close>

lemma run_graph_recorded:
  assumes run: "run_graph J E (logged ex) g rid runs A (x, []) = (stop, st')"
    and dist: "distinct (map node_id (graph_nodes g))"
    and ok: "(y, True) \<in> set (snd (st_exec st'))" "\<forall>nid e. stop = StopFailed nid e \<longrightarrow> y < nid"
  shows "y \<in> set (st_finished st')"
proof -
  have "\<forall>y. (y, True) \<in> set (snd (st_exec st')) \<longrightarrow> (\<forall>nid e. stop = StopFailed nid e \<longrightarrow> y < nid) \<longrightarrow>
    y \<in> set (st_finished st')"
  proof (rule sched_loop_rule [OF run [unfolded run_graph_def], where I = all_recorded])
    show "all_recorded (start_state J E g rid runs A (x, []))" by (simp add: all_recorded_def)
  next
    fix s s' :: "('a \<times> (string \<times> bool) list) sched_state"
    assume rec: "all_recorded s" and pass: "sched_pass J E (logged ex) g rid s = (None, s')"
    from pass show "all_recorded s'"
      by (cases rule: sched_pass_effect) (use rec in \<open>auto simp: all_recorded_def\<close>)
  next
    fix s s' :: "('a \<times> (string \<times> bool) list) sched_state"
    assume rec: "all_recorded s" and pass: "sched_pass J E (logged ex) g rid s = (Some stop, s')"
    from pass show "\<forall>y. (y, True) \<in> set (snd (st_exec s')) \<longrightarrow> (\<forall>nid e. stop = StopFailed nid e \<longrightarrow> y < nid) \<longrightarrow>
      y \<in> set (st_finished s')"
    proof (cases rule: sched_pass_effect)
      case (1 new)
      have "\<forall>y. (y, True) \<in> set (snd (st_exec s)) \<longrightarrow> y \<in> set (st_finished s')"
        using rec 1(5) by (force simp: all_recorded_def)
      with 1(1,10) show ?thesis by auto
    qed
  qed
  with ok show ?thesis by blast
qed

lemma restart_no_repeat:
  assumes run1: "run_graph J E1 (logged ex1) g rid runs A1 (x1, []) = (stop1, st1)"
    and run2: "run_graph J E2 (logged ex2) g rid (st_runs st1) A2 (x2, []) = (stop2, st2)"
    and dist: "distinct (map node_id (graph_nodes g))"
    and db: "\<forall>t. db_works E1 t" "\<forall>t. db_works E2 t"
    and codec: "\<forall>xs. ids_parse J (ids_text J xs) = Some xs"
  shows "set (st_finished st1) \<inter> fst ` set (snd (st_exec st2)) = {}"
  using run_graph_facts [OF run2 dist] resume_after_run(1) [OF run1 db(1) codec] db(2)
  by (auto simp: run_facts_def)

end
