(* ===== verification/Samples.thy ===== *)
theory Samples
  imports WfRun
begin

text \<open>
  Small concrete inputs on which the properties are applied: a codec for id lists that reads back
  what it writes, an environment in which everything works, and a few graphs.
\<close>

section \<open>A codec\<close>

text \<open>Each character after an \<open>x\<close>, each string closed by a \<open>y\<close>.\<close>

fun enc_str :: "string \<Rightarrow> string" where
  "enc_str [] = ''y''"
| "enc_str (c # cs) = CHR ''x'' # c # enc_str cs"

definition ids_enc :: "string list \<Rightarrow> string" where
  "ids_enc xs = concat (map enc_str xs)"

fun ids_dec :: "string \<Rightarrow> string \<Rightarrow> string list option" where
  "ids_dec acc [] = (if acc = [] then Some [] else None)"
| "ids_dec acc [t] = (if t = CHR ''y'' then Some [rev acc] else None)"
| "ids_dec acc (t # c # r) =
     (if t = CHR ''y'' then map_option (Cons (rev acc)) (ids_dec [] (c # r)) else ids_dec (c # acc) r)"

lemma ids_dec_enc_str: "ids_dec acc (enc_str s @ r) = map_option (Cons (rev acc @ s)) (ids_dec [] r)"
proof (induction s arbitrary: acc)
  case Nil
  then show ?case by (cases r) auto
qed auto

lemma ids_dec_enc: "ids_dec [] (ids_enc xs) = Some xs"
  by (induction xs) (simp_all add: ids_enc_def ids_dec_enc_str)

definition sample_serde :: serde where
  "sample_serde = \<lparr>json_text = (\<lambda>_. ''null''), json_parse = (\<lambda>_. Some JNull),
     ids_text = ids_enc, ids_parse = ids_dec []\<rparr>"

lemma sample_serde_ids: "ids_parse sample_serde (ids_text sample_serde xs) = Some xs"
  by (simp add: sample_serde_def ids_dec_enc)

section \<open>An environment\<close>

definition sample_env :: sched_env where
  "sample_env = \<lparr>cancel_flag = None, clock_ms = int, db_works = (\<lambda>_. True),
     lock_rank = (\<lambda>_ i. i), ui_ops = (\<lambda>_. [])\<rparr>"

lemma sample_env_db: "db_works sample_env t"
  by (simp add: sample_env_def)

section \<open>Graphs and executors\<close>

definition step :: "string \<Rightarrow> workflow_node" where
  "step i = \<lparr>node_id = i, action_ref = i, output_variables = [], node_condition = None, approval = False\<rparr>"

definition arrow :: "string \<Rightarrow> string \<Rightarrow> workflow_edge" where
  "arrow a b = \<lparr>edge_from = a, edge_to = b, edge_condition = None\<rparr>"

text \<open>One step fanning out into two.\<close>

definition fork_graph :: workflow_graph where
  "fork_graph = \<lparr>graph_id = ''g'', graph_version = 1, graph_name = ''fork'', entry_node = ''a'',
     graph_nodes = [step ''a'', step ''b'', step ''c''],
     graph_edges = [arrow ''a'' ''b'', arrow ''a'' ''c'']\<rparr>"

text \<open>An executor that fails on the ids of a list.\<close>

definition fails_on :: "string list \<Rightarrow> unit executor" where
  "fails_on bad n vars x = (if node_id n \<in> set bad then Inl ''boom'' else Inr (JString (node_id n)), x)"

definition fork_run :: "string list \<Rightarrow> scheduler_stop \<times> (unit \<times> (string \<times> bool) list) sched_state" where
  "fork_run bad = run_graph sample_serde sample_env (logged (fails_on bad)) fork_graph ''r'' [] None ((), [])"

definition fork_start :: "(unit \<times> (string \<times> bool) list) sched_state" where
  "fork_start = start_state sample_serde sample_env fork_graph ''r'' [] None ((), [])"

definition fork_rerun :: "string list \<Rightarrow> scheduler_stop \<times> (unit \<times> (string \<times> bool) list) sched_state" where
  "fork_rerun bad = run_graph sample_serde sample_env (logged (fails_on [])) fork_graph ''r''
     (st_runs (snd (fork_run bad))) None ((), [])"

text \<open>The same with a codec that reads the empty variable object back.\<close>

definition object_serde :: serde where
  "object_serde = sample_serde\<lparr>json_parse := (\<lambda>_. Some (JObject []))\<rparr>"

lemma object_serde_ids: "ids_parse object_serde (ids_text object_serde xs) = Some xs"
  by (simp add: object_serde_def sample_serde_def ids_dec_enc)

definition object_run :: "scheduler_stop \<times> (unit \<times> (string \<times> bool) list) sched_state" where
  "object_run = run_graph object_serde sample_env (logged (fails_on [])) fork_graph ''r'' [] None ((), [])"

lemma validate_fork: "validate fork_graph = Ok ()"
  by code_simp

text \<open>A chain whose last step asks for a variable that the middle step sets.\<close>

definition chain_graph :: workflow_graph where
  "chain_graph = \<lparr>graph_id = ''g'', graph_version = 1, graph_name = ''chain'', entry_node = ''a'',
     graph_nodes = [step ''a'', (step ''m'')\<lparr>output_variables := [''x'']\<rparr>,
       (step ''z'')\<lparr>node_condition := Some \<lparr>ce_left = ''$x'', ce_op = OpEq, ce_right = ''m''\<rparr>\<rparr>],
     graph_edges = [arrow ''a'' ''m'', arrow ''m'' ''z'']\<rparr>"

definition chain_run :: "scheduler_stop \<times> (unit \<times> (string \<times> bool) list) sched_state" where
  "chain_run = run_graph sample_serde sample_env (logged (fails_on [])) chain_graph ''r'' [] None ((), [])"

text \<open>One gated step, approved by the user while the run is going on or not at all.\<close>

definition gated_graph :: workflow_graph where
  "gated_graph = \<lparr>graph_id = ''g'', graph_version = 1, graph_name = ''gated'', entry_node = ''a'',
     graph_nodes = [(step ''a'')\<lparr>approval := True\<rparr>], graph_edges = []\<rparr>"

definition pending_row :: approval_row where
  "pending_row = \<lparr>ap_id = ''r:a'', ap_run = ''r'', ap_node = ''a'', ap_action = ''a'',
     ap_status = ''pending'', ap_updated = 0, ap_expires = None\<rparr>"

definition approving_env :: sched_env where
  "approving_env = sample_env\<lparr>ui_ops := (\<lambda>_. [OpDecide ''r:a'' True 5])\<rparr>"

definition gated_run :: "sched_env \<Rightarrow> scheduler_stop \<times> (unit \<times> (string \<times> bool) list) sched_state" where
  "gated_run E = run_graph sample_serde E (logged (fails_on [])) gated_graph ''r'' [] (Some [pending_row]) ((), [])"

section \<open>The runs, evaluated\<close>

text \<open>The stop, the log of the executor, the finished and skipped nodes and the variables.\<close>

definition run_summary :: "scheduler_stop \<times> (unit \<times> (string \<times> bool) list) sched_state \<Rightarrow>
    scheduler_stop \<times> (string \<times> bool) list \<times> string list \<times> string list \<times> variable_store" where
  "run_summary r = (fst r, snd (st_exec (snd r)), st_finished (snd r), st_skipped (snd r), st_vars (snd r))"

lemma run_summaryD:
  "run_summary r = (stop, calls, fin, sk, vars) \<Longrightarrow> fst r = stop \<and> snd (st_exec (snd r)) = calls
    \<and> st_finished (snd r) = fin \<and> st_skipped (snd r) = sk \<and> st_vars (snd r) = vars"
  by (simp add: run_summary_def)

lemma fork_run_all: "run_summary (fork_run []) = (StopFinished, [(''a'', True), (''b'', True), (''c'', True)],
    [''a'', ''b'', ''c''], [], \<lparr>vs_vars = []\<rparr>)"
  by code_simp

lemma fork_run_b: "run_summary (fork_run [''b'']) = (StopFailed ''b'' ''boom'',
    [(''a'', True), (''b'', False), (''c'', True)], [''a''], [], \<lparr>vs_vars = []\<rparr>)"
  by code_simp

lemma fork_run_c: "run_summary (fork_run [''c'']) = (StopFailed ''c'' ''boom'',
    [(''a'', True), (''b'', True), (''c'', False)], [''a'', ''b''], [], \<lparr>vs_vars = []\<rparr>)"
  by code_simp

lemma fork_rerun_b: "run_summary (fork_rerun [''b'']) = (StopFinished, [(''b'', True), (''c'', True)],
    [''a'', ''b'', ''c''], [], \<lparr>vs_vars = []\<rparr>)"
  by code_simp

lemma fork_rerun_c: "run_summary (fork_rerun [''c'']) = (StopFinished, [(''c'', True)],
    [''a'', ''b'', ''c''], [], \<lparr>vs_vars = []\<rparr>)"
  by code_simp

lemma object_run_all: "run_summary object_run = (StopFinished, [(''a'', True), (''b'', True), (''c'', True)],
    [''a'', ''b'', ''c''], [], \<lparr>vs_vars = []\<rparr>)"
  by code_simp

lemma chain_run_all: "run_summary chain_run = (StopFinished, [(''a'', True), (''m'', True)],
    [''a'', ''m''], [''z''], \<lparr>vs_vars = [(''x'', JString ''m'')]\<rparr>)"
  by code_simp

lemmas fork_results = fork_run_all [THEN run_summaryD] fork_run_b [THEN run_summaryD]
  fork_run_c [THEN run_summaryD] fork_rerun_b [THEN run_summaryD] fork_rerun_c [THEN run_summaryD]
  object_run_all [THEN run_summaryD] chain_run_all [THEN run_summaryD]

end
