(* ===== verification/ExecSemantics.thy ===== *)
theory ExecSemantics
  imports Prelude
begin

text \<open>
  The vocabulary of command outcomes and failures shared by all phases
  (\<open>launcher-domain/src/execution_semantics.rs\<close> and \<open>failure.rs\<close>): when a call may be retried, where
  an unsettled effect goes, what a replacement plan may execute again, and the recovery policy of
  each failure class.
\<close>

datatype command_result = CrSucceeded | CrFailed | CrRejected | CrCancelled | CrTimeout | CrUnknown

datatype effect_state = EffNotStarted | EffStarted | EffCompleted | EffFailed | EffUnknown

datatype step_status = StPending | StExecuting | StSucceeded | StFailed | StCancelled | StUnknown | StSkipped

record step_record =
  sx_step :: string
  sx_execution :: string
  sx_attempt :: "32 word"
  sx_status :: step_status
  sx_effect :: effect_state
  sx_started :: int
  sx_finished :: "int option"

datatype retry_verdict = RetryAllowed | RetryForbidden

definition timeout_outcome :: "command_result \<times> effect_state" where
  "timeout_outcome = (CrTimeout, EffUnknown)"

definition retry_decision :: "command_result \<Rightarrow> effect_state \<Rightarrow> bool \<Rightarrow> retry_verdict" where
  "retry_decision result eff idempotent = (case eff of
     EffCompleted \<Rightarrow> RetryForbidden
   | EffStarted \<Rightarrow> RetryForbidden
   | EffUnknown \<Rightarrow> (if idempotent then RetryAllowed else RetryForbidden)
   | EffNotStarted \<Rightarrow> (if result = CrSucceeded then RetryForbidden else RetryAllowed)
   | EffFailed \<Rightarrow> (if result = CrSucceeded then RetryForbidden else RetryAllowed))"

datatype effect_route = Queryable | PolicyRetry | ExplicitRecoveryRequired

definition recovery_route :: "bool \<Rightarrow> bool \<Rightarrow> effect_route" where
  "recovery_route idempotent queryable =
     (if queryable then Queryable else if idempotent then PolicyRetry else ExplicitRecoveryRequired)"

definition replan_may_execute :: "step_status \<Rightarrow> bool" where
  "replan_may_execute s \<longleftrightarrow> s = StPending \<or> s = StFailed \<or> s = StSkipped"

datatype failure_class =
    FcInvalidInput | FcCapabilityDenied | FcConfirmationRequired | FcNotFound | FcProviderUnavailable
  | FcTimeout | FcProcessCrashed | FcProtocolViolation | FcBusinessError | FcPersistenceFailure
  | FcConfigurationFailure | FcInternal

datatype failure_recovery = RpStop | RpPause | RpReport | RpRetryBounded | RpRestart | RpQuarantine | RpRepair

fun recovery_policy :: "failure_class \<Rightarrow> failure_recovery" where
  "recovery_policy FcInvalidInput = RpStop"
| "recovery_policy FcCapabilityDenied = RpStop"
| "recovery_policy FcConfirmationRequired = RpPause"
| "recovery_policy FcNotFound = RpStop"
| "recovery_policy FcProviderUnavailable = RpReport"
| "recovery_policy FcTimeout = RpRetryBounded"
| "recovery_policy FcProcessCrashed = RpRestart"
| "recovery_policy FcProtocolViolation = RpQuarantine"
| "recovery_policy FcBusinessError = RpReport"
| "recovery_policy FcPersistenceFailure = RpRepair"
| "recovery_policy FcConfigurationFailure = RpRepair"
| "recovery_policy FcInternal = RpStop"

text \<open>An effect that may have happened is retried only when repeating it is harmless.\<close>

definition may_have_happened :: "effect_state \<Rightarrow> bool" where
  "may_have_happened e \<longleftrightarrow> e \<in> {EffStarted, EffCompleted, EffUnknown}"

lemma retry_needs_idempotence:
  "retry_decision r e idem = RetryAllowed \<Longrightarrow> may_have_happened e \<Longrightarrow> e = EffUnknown \<and> idem"
  by (cases e) (auto simp: retry_decision_def may_have_happened_def split: if_splits)

lemma retry_never_after_success: "retry_decision CrSucceeded e idem = RetryAllowed \<Longrightarrow> e = EffUnknown \<and> idem"
  by (cases e) (auto simp: retry_decision_def split: if_splits)

end
