(* ===== verification/WfEditor.thy ===== *)
theory WfEditor
  imports WfGraph
begin

text \<open>
  The graph editor (\<open>launcher-workflow/src/editor.rs\<close>): a working graph with a bounded undo stack
  and a redo stack, whose edits push an undo snapshot first. Stacks are lists with their top at the
  end, as the \<open>Vec\<close>s are. The JSON reader and writer of \<open>serde_json\<close> are arguments.
\<close>

section \<open>State and edits\<close>

definition MAX_UNDO :: nat where
  "MAX_UNDO = 100"

datatype edit_op =
    AddNode string string
  | RemoveNode string
  | AddEdge string string
  | RemoveEdge string string
  | SetCondition string "condition_expr option"

record graph_editor =
  ed_graph :: workflow_graph
  ed_undo :: "workflow_graph list"
  ed_redo :: "workflow_graph list"

definition ed_new :: "workflow_graph \<Rightarrow> graph_editor" where
  "ed_new g = \<lparr>ed_graph = g, ed_undo = [], ed_redo = []\<rparr>"

definition push_undo :: "graph_editor \<Rightarrow> graph_editor" where
  "push_undo e =
     (let u = ed_undo e @ [ed_graph e]
      in e\<lparr>ed_undo := (if length u > MAX_UNDO then tl u else u), ed_redo := []\<rparr>)"

text \<open>\<open>iter_mut().find(..)\<close>: change the first node with the id.\<close>

fun set_node_condition :: "string \<Rightarrow> condition_expr option \<Rightarrow> workflow_node list \<Rightarrow> workflow_node list option" where
  "set_node_condition i c [] = None"
| "set_node_condition i c (n # ns) =
     (if node_id n = i then Some (n\<lparr>node_condition := c\<rparr> # ns)
      else map_option (Cons n) (set_node_condition i c ns))"

fun apply_edit :: "edit_op \<Rightarrow> workflow_graph \<Rightarrow> string + workflow_graph" where
  "apply_edit (AddNode i a) g =
     (if i \<in> node_id ` set (graph_nodes g) then Err (''duplicate node: '' @ i)
      else Ok (g\<lparr>graph_nodes := graph_nodes g @
        [\<lparr>node_id = i, action_ref = a, output_variables = [], node_condition = None, approval = False\<rparr>]\<rparr>))"
| "apply_edit (RemoveNode i) g =
     (let g' = g\<lparr>graph_nodes := filter (\<lambda>n. node_id n \<noteq> i) (graph_nodes g),
                 graph_edges := filter (\<lambda>e. edge_from e \<noteq> i \<and> edge_to e \<noteq> i) (graph_edges g)\<rparr>
      in if entry_node g' = i then Err ''cannot remove the entry node'' else Ok g')"
| "apply_edit (AddEdge f t) g =
     Ok (g\<lparr>graph_edges := graph_edges g @ [\<lparr>edge_from = f, edge_to = t, edge_condition = None\<rparr>]\<rparr>)"
| "apply_edit (RemoveEdge f t) g =
     Ok (g\<lparr>graph_edges := filter (\<lambda>e. \<not> (edge_from e = f \<and> edge_to e = t)) (graph_edges g)\<rparr>)"
| "apply_edit (SetCondition i c) g =
     (case set_node_condition i c (graph_nodes g) of
        Some ns \<Rightarrow> Ok (g\<lparr>graph_nodes := ns\<rparr>)
      | None \<Rightarrow> Err (''unknown node: '' @ i))"

definition ed_edit :: "edit_op \<Rightarrow> graph_editor \<Rightarrow> (string + unit) \<times> graph_editor" where
  "ed_edit opn e =
     (let e' = push_undo e in
      case apply_edit opn (ed_graph e') of
        Inl msg \<Rightarrow> (Err msg, e')
      | Inr g \<Rightarrow> (Ok (), e'\<lparr>ed_graph := g\<rparr>))"

definition ed_add_node :: "string \<Rightarrow> string \<Rightarrow> graph_editor \<Rightarrow> (string + unit) \<times> graph_editor" where
  "ed_add_node i a = ed_edit (AddNode i a)"

definition ed_remove_node :: "string \<Rightarrow> graph_editor \<Rightarrow> (string + unit) \<times> graph_editor" where
  "ed_remove_node i = ed_edit (RemoveNode i)"

definition ed_add_edge :: "string \<Rightarrow> string \<Rightarrow> graph_editor \<Rightarrow> (string + unit) \<times> graph_editor" where
  "ed_add_edge f t = ed_edit (AddEdge f t)"

definition ed_remove_edge :: "string \<Rightarrow> string \<Rightarrow> graph_editor \<Rightarrow> (string + unit) \<times> graph_editor" where
  "ed_remove_edge f t = ed_edit (RemoveEdge f t)"

definition ed_set_condition :: "string \<Rightarrow> condition_expr option \<Rightarrow> graph_editor \<Rightarrow> (string + unit) \<times> graph_editor" where
  "ed_set_condition i c = ed_edit (SetCondition i c)"

definition ed_undo_step :: "graph_editor \<Rightarrow> bool \<times> graph_editor" where
  "ed_undo_step e =
     (if ed_undo e = [] then (False, e)
      else (True, \<lparr>ed_graph = last (ed_undo e), ed_undo = butlast (ed_undo e), ed_redo = ed_redo e @ [ed_graph e]\<rparr>))"

definition ed_redo_step :: "graph_editor \<Rightarrow> bool \<times> graph_editor" where
  "ed_redo_step e =
     (if ed_redo e = [] then (False, e)
      else (True, \<lparr>ed_graph = last (ed_redo e), ed_undo = ed_undo e @ [ed_graph e], ed_redo = butlast (ed_redo e)\<rparr>))"

definition can_undo :: "graph_editor \<Rightarrow> bool" where
  "can_undo e \<longleftrightarrow> ed_undo e \<noteq> []"

definition can_redo :: "graph_editor \<Rightarrow> bool" where
  "can_redo e \<longleftrightarrow> ed_redo e \<noteq> []"

definition export_json :: "(graph_error \<Rightarrow> string) \<Rightarrow> (workflow_graph \<Rightarrow> string + string) \<Rightarrow>
    workflow_graph \<Rightarrow> string + string" where
  "export_json show_error write g =
     (case validate g of Inl e \<Rightarrow> Err (show_error e) | Inr _ \<Rightarrow> write g)"

definition import_json :: "(graph_error \<Rightarrow> string) \<Rightarrow> (string \<Rightarrow> string + workflow_graph) \<Rightarrow>
    string \<Rightarrow> string + workflow_graph" where
  "import_json show_error read s =
     (case read s of
        Inl msg \<Rightarrow> Err msg
      | Inr g \<Rightarrow> (case validate g of Inl e \<Rightarrow> Err (show_error e) | Inr _ \<Rightarrow> Ok g))"

section \<open>Histories\<close>

datatype editor_call = CallEdit edit_op | CallUndo | CallRedo

fun ed_call :: "editor_call \<Rightarrow> graph_editor \<Rightarrow> graph_editor" where
  "ed_call (CallEdit opn) e = snd (ed_edit opn e)"
| "ed_call CallUndo e = snd (ed_undo_step e)"
| "ed_call CallRedo e = snd (ed_redo_step e)"

definition ed_inv :: "graph_editor \<Rightarrow> bool" where
  "ed_inv e \<longleftrightarrow> length (ed_undo e) + length (ed_redo e) \<le> MAX_UNDO"

lemma ed_edit_parts:
  "ed_undo (snd (ed_edit opn e)) = ed_undo (push_undo e)"
  "ed_redo (snd (ed_edit opn e)) = []"
  "ed_graph (snd (ed_edit opn e)) = (case apply_edit opn (ed_graph e) of Inl _ \<Rightarrow> ed_graph e | Inr g \<Rightarrow> g)"
  by (simp_all add: ed_edit_def push_undo_def Let_def split: sum.splits)

lemma push_undo_length: "length (ed_undo e) \<le> MAX_UNDO \<Longrightarrow> length (ed_undo (push_undo e)) \<le> MAX_UNDO"
  by (simp add: push_undo_def MAX_UNDO_def Let_def)

lemma push_undo_last: "ed_undo (push_undo e) \<noteq> [] \<and> last (ed_undo (push_undo e)) = ed_graph e"
proof -
  have "tl (ed_undo e @ [ed_graph e]) \<noteq> []" if "length (ed_undo e @ [ed_graph e]) > MAX_UNDO"
    using that by (cases "ed_undo e") (simp_all add: MAX_UNDO_def)
  then show ?thesis by (auto simp: push_undo_def Let_def last_tl)
qed

lemma ed_inv_call: "ed_inv e \<Longrightarrow> ed_inv (ed_call c e)"
proof (cases c)
  case (CallEdit opn)
  then show "ed_inv e \<Longrightarrow> ed_inv (ed_call c e)"
    using push_undo_length [of e] by (simp add: ed_inv_def ed_edit_parts)
next
  case CallUndo
  then show "ed_inv e \<Longrightarrow> ed_inv (ed_call c e)"
    by (cases "ed_undo e" rule: rev_cases) (simp_all add: ed_inv_def ed_undo_step_def)
next
  case CallRedo
  then show "ed_inv e \<Longrightarrow> ed_inv (ed_call c e)"
    by (cases "ed_redo e" rule: rev_cases) (simp_all add: ed_inv_def ed_redo_step_def)
qed

lemma ed_inv_calls: "ed_inv e \<Longrightarrow> ed_inv (fold ed_call cs e)"
  by (induction cs arbitrary: e) (auto simp: ed_inv_call)

lemma redo_undo: "can_undo e \<Longrightarrow> snd (ed_redo_step (snd (ed_undo_step e))) = e"
  by (cases e) (auto simp: can_undo_def ed_undo_step_def ed_redo_step_def)

lemma undo_keeps_can_redo: "can_undo e \<Longrightarrow> can_redo (snd (ed_undo_step e))"
  by (simp add: can_undo_def can_redo_def ed_undo_step_def)

lemma undo_edit: "ed_graph (snd (ed_undo_step (snd (ed_edit opn e)))) = ed_graph e"
  using push_undo_last [of e] by (simp add: ed_undo_step_def ed_edit_parts)

text \<open>\<open>k\<close> undos followed by \<open>k\<close> redos change nothing, as long as there is enough to undo.\<close>

lemma redos_undos:
  "k \<le> length (ed_undo e) \<Longrightarrow> ((snd \<circ> ed_redo_step) ^^ k) (((snd \<circ> ed_undo_step) ^^ k) e) = e"
proof (induction k arbitrary: e)
  case (Suc k)
  let ?e = "snd (ed_undo_step e)"
  have len: "k \<le> length (ed_undo ?e)" and ne: "can_undo e"
    using Suc.prems by (auto simp: ed_undo_step_def can_undo_def)
  have "((snd \<circ> ed_undo_step) ^^ Suc k) e = ((snd \<circ> ed_undo_step) ^^ k) ?e"
    by (simp add: funpow_Suc_right del: funpow.simps)
  then have "((snd \<circ> ed_redo_step) ^^ Suc k) (((snd \<circ> ed_undo_step) ^^ Suc k) e)
    = snd (ed_redo_step (((snd \<circ> ed_redo_step) ^^ k) (((snd \<circ> ed_undo_step) ^^ k) ?e)))"
    by (simp only:) simp
  also have "\<dots> = snd (ed_redo_step ?e)" by (simp only: Suc.IH [OF len])
  also have "\<dots> = e" by (rule redo_undo [OF ne])
  finally show ?case .
qed simp

section \<open>What edits keep\<close>

lemma set_node_condition_ids:
  "set_node_condition i c ns = Some ns' \<Longrightarrow> map node_id ns' = map node_id ns"
  by (induction ns arbitrary: ns') (auto split: if_splits)

text \<open>Node ids stay unique and the entry node stays in the graph through every edit; only
  \<open>AddEdge\<close> can make an edge dangle.\<close>

definition draft_ok :: "workflow_graph \<Rightarrow> bool" where
  "draft_ok g \<longleftrightarrow> distinct (map node_id (graph_nodes g)) \<and> entry_node g \<in> node_ids g"

lemma apply_edit_draft_ok: "draft_ok g \<Longrightarrow> apply_edit opn g = Ok g' \<Longrightarrow> draft_ok g'"
proof (cases opn)
  case (SetCondition i c)
  assume g: "draft_ok g" and ok: "apply_edit opn g = Ok g'"
  with SetCondition obtain ns where ns: "set_node_condition i c (graph_nodes g) = Some ns"
    and g': "g' = g\<lparr>graph_nodes := ns\<rparr>" by (auto split: option.splits)
  have nid: "node_ids h = set (map node_id (graph_nodes h))" for h by (simp add: node_ids_def)
  have "graph_nodes g' = ns" "entry_node g' = entry_node g" by (simp_all add: g')
  with g set_node_condition_ids [OF ns] show ?thesis by (simp only: draft_ok_def nid)
qed (auto simp: draft_ok_def node_ids_def distinct_map_filter split: if_splits)

lemma remove_node_no_dangling:
  assumes "edge_rel g \<subseteq> node_ids g \<times> node_ids g" "apply_edit (RemoveNode i) g = Ok g'"
  shows "edge_rel g' \<subseteq> node_ids g' \<times> node_ids g'"
proof -
  from assms(2) have "node_ids g' = node_ids g - {i}" "edge_rel g' = {(a, b) \<in> edge_rel g. a \<noteq> i \<and> b \<noteq> i}"
    by (auto simp: edge_rel_def node_ids_def split: if_splits)
  with assms(1) show ?thesis by auto
qed

text \<open>An editor whose graph and snapshots are drafts with unique ids.\<close>

definition ed_drafts :: "graph_editor \<Rightarrow> bool" where
  "ed_drafts e \<longleftrightarrow> (\<forall>g \<in> insert (ed_graph e) (set (ed_undo e) \<union> set (ed_redo e)). draft_ok g)"

lemma ed_drafts_call:
  assumes "ed_drafts e"
  shows "ed_drafts (ed_call c e)"
proof (cases c)
  case (CallEdit opn)
  have "set (ed_undo (push_undo e)) \<subseteq> insert (ed_graph e) (set (ed_undo e))"
    by (auto simp: push_undo_def Let_def dest: list.set_sel(2) [rotated] split: if_splits)
  moreover have "draft_ok (case apply_edit opn (ed_graph e) of Inl _ \<Rightarrow> ed_graph e | Inr g \<Rightarrow> g)"
    using assms by (auto simp: ed_drafts_def dest: apply_edit_draft_ok split: sum.splits)
  ultimately show ?thesis using assms CallEdit by (auto simp: ed_drafts_def ed_edit_parts)
qed (use assms in \<open>auto simp: ed_drafts_def ed_undo_step_def ed_redo_step_def dest: in_set_butlastD\<close>)

lemma ed_drafts_calls: "ed_drafts e \<Longrightarrow> ed_drafts (fold ed_call cs e)"
  by (induction cs arbitrary: e) (auto simp: ed_drafts_call)

lemma import_json_valid: "import_json se rd s = Ok g \<Longrightarrow> valid_dag g"
  by (auto simp: import_json_def validate_Ok_valid_dag [symmetric] split: sum.splits)

end
