(* ===== verification/WfTemplates.thy ===== *)
theory WfTemplates
  imports WfPolicy
begin

text \<open>
  Run variables and input templates of the runner, and the static check of its control flow
  (\<open>launcher-workflow/src/v2.rs\<close>). How a double prints is the argument \<open>show_f64\<close>.
\<close>

section \<open>The variable store\<close>

record run_vars =
  rv_root :: json

fun json_walk_segments :: "json \<Rightarrow> string list \<Rightarrow> json option" where
  "json_walk_segments v [] = Some v"
| "json_walk_segments v (s # ss) = (case json_get v s of Some w \<Rightarrow> json_walk_segments w ss | None \<Rightarrow> None)"

definition json_walk :: "json \<Rightarrow> string \<Rightarrow> json option" where
  "json_walk v path = json_walk_segments v (split_on (\<lambda>c. c = CHR ''.'') path)"

definition rv_from_snapshot :: "json option \<Rightarrow> run_vars" where
  "rv_from_snapshot s = \<lparr>rv_root = (case s of Some v \<Rightarrow> (if json_is_object v then v else JObject []) | None \<Rightarrow> JObject [])\<rparr>"

definition rv_snapshot :: "run_vars \<Rightarrow> json option" where
  "rv_snapshot r = (if rv_root r = JObject [] then None else Some (rv_root r))"

text \<open>\<open>split_once('.')\<close>.\<close>

definition split_ns :: "string \<Rightarrow> string + (string \<times> string)" where
  "split_ns path =
     (if CHR ''.'' \<in> set path
      then Ok (takeWhile (\<lambda>c. c \<noteq> CHR ''.'') path, tl (dropWhile (\<lambda>c. c \<noteq> CHR ''.'') path))
      else Err (''bare variable '' @ path @ '' forbidden; use var.*/input.*''))"

definition rv_get :: "run_vars \<Rightarrow> string \<Rightarrow> string + wvalue option" where
  "rv_get r path = (case split_ns path of
     Inl e \<Rightarrow> Err e
   | Inr (ns, rest) \<Rightarrow>
      if ns = ''var'' \<or> ns = ''input'' then
        (if rest = [] then Ok (map_option value_from_json (json_get (rv_root r) ns))
         else Ok (map_option value_from_json (json_walk (rv_root r) (ns @ ''.'' @ rest))))
      else if ns = ''workflow'' \<or> ns = ''step'' then Ok (Some VNull)
      else Err (''unknown variable namespace '' @ ns))"

text \<open>\<open>serde_json::Map\<close> is sorted by key.\<close>

definition obj_insert :: "string \<Rightarrow> json \<Rightarrow> (string \<times> json) list \<Rightarrow> (string \<times> json) list" where
  "obj_insert k v m = bt_insert fst (k, v) m"

definition rv_set :: "string \<Rightarrow> json \<Rightarrow> run_vars \<Rightarrow> (string + unit) \<times> run_vars" where
  "rv_set path v r = (case split_ns path of
     Inl e \<Rightarrow> (Err e, r)
   | Inr (ns, rest) \<Rightarrow>
      if ns \<noteq> ''var'' then (Err (''namespace '' @ ns @ '' is read-only; variables live under var.*''), r)
      else if rest = [] \<or> CHR ''.'' \<in> set rest then (Err ''use a single-segment var.<name> in v0.2'', r)
      else
        let obj = (case json_as_object (rv_root r) of Some m \<Rightarrow> m | None \<Rightarrow> []);
            obj1 = (if map_of obj ''var'' = None then obj_insert ''var'' (JObject []) obj else obj);
            r1 = r\<lparr>rv_root := JObject obj1\<rparr>
        in (case map_of obj1 ''var'' of
              Some (JObject m) \<Rightarrow>
                if length m \<ge> MAX_VARIABLES then (Err ''too many variables'', r1)
                else (Ok (), r1\<lparr>rv_root := JObject (obj_insert ''var'' (JObject (obj_insert rest v m)) obj1)\<rparr>)
            | _ \<Rightarrow> (Err ''variable namespace is not an object'', r1)))"

lemma map_of_bt_insert [simp]: "map_of (bt_insert fst (k, v) m) j = (if j = k then Some v else map_of m j)"
  by (induction m) auto

lemma map_of_obj_insert [simp]: "map_of (obj_insert k v m) j = (if j = k then Some v else map_of m j)"
  by (simp add: obj_insert_def)

lemma split_ns_var:
  "CHR ''.'' \<notin> set ns \<Longrightarrow> split_ns (ns @ CHR ''.'' # rest) = Ok (ns, rest)"
  by (simp add: split_ns_def takeWhile_append dropWhile_append)

text \<open>A variable that was set reads back, and the others are left alone.\<close>

lemma rv_get_set:
  assumes "rv_set (''var.'' @ name) v r = (Ok (), r')" "CHR ''.'' \<notin> set other" "other \<noteq> []"
  shows "rv_get r' (''var.'' @ other) =
    (if other = name then Ok (Some (value_from_json v)) else rv_get r (''var.'' @ other))"
proof -
  have ns: "split_ns (''var.'' @ s) = Ok (''var'', s)" for s
    using split_ns_var [of "''var''" s] by simp
  note ns = ns [simplified]
  from assms(1) have name: "name \<noteq> []" "CHR ''.'' \<notin> set name"
    by (auto simp: rv_set_def ns split: if_splits)
  let ?obj = "case json_as_object (rv_root r) of Some m \<Rightarrow> m | None \<Rightarrow> []"
  let ?obj1 = "if map_of ?obj ''var'' = None then obj_insert ''var'' (JObject []) ?obj else ?obj"
  from assms(1) name obtain m where m: "map_of ?obj1 ''var'' = Some (JObject m)"
    and r': "rv_root r' = JObject (obj_insert ''var'' (JObject (obj_insert name v m)) ?obj1)"
    by (auto simp: rv_set_def ns Let_def split: if_splits option.splits json.splits)
  have one: "split_on (\<lambda>c. c = CHR ''.'') other = [other]"
    using assms(2) by (intro split_on_free) auto
  have walk: "rv_get q (''var.'' @ other) = Ok (map_option value_from_json
      (case json_get (rv_root q) ''var'' of Some w \<Rightarrow> json_get w other | None \<Rightarrow> None))" for q :: run_vars
    using assms(2,3) ns [of other]
    by (auto simp: rv_get_def json_walk_def one split: option.splits)
  have old: "json_get (rv_root r) k = map_of ?obj k" for k
    by (cases "rv_root r") simp_all
  have new: "json_get (rv_root r') ''var'' = Some (JObject (obj_insert name v m))"
    by (simp add: r')
  show ?thesis
  proof (cases "map_of ?obj ''var''")
    case None
    with m have "m = []" by simp
    with None show ?thesis unfolding walk new old by simp
  next
    case (Some w)
    with m have "w = JObject m" by simp
    with Some show ?thesis unfolding walk new old by simp
  qed
qed

section \<open>Templates\<close>

text \<open>The text inside \<open>${\<close> and \<open>}\<close> when the whole trimmed string has that form.\<close>

definition whole_template :: "string \<Rightarrow> string option" where
  "whole_template t = (case strip_prefix t ''${'' of
     None \<Rightarrow> None
   | Some r \<Rightarrow> (if r \<noteq> [] \<and> last r = CHR ''}'' then Some (butlast r) else None))"

definition lookup_ref :: "run_vars \<Rightarrow> string \<Rightarrow> string + wvalue" where
  "lookup_ref r path = (case rv_get r path of
     Inl e \<Rightarrow> Err e
   | Inr None \<Rightarrow> Err (''unknown variable reference '' @ path)
   | Inr (Some v) \<Rightarrow> Ok v)"

definition interpolated :: "(f64 \<Rightarrow> string) \<Rightarrow> string \<Rightarrow> wvalue \<Rightarrow> string + string" where
  "interpolated show_f64 path v = (case v of
     VString t \<Rightarrow> Ok t
   | VNumber n \<Rightarrow> Ok (show_f64 n)
   | VBool b \<Rightarrow> Ok (if b then ''true'' else ''false'')
   | _ \<Rightarrow> Err (''variable '' @ path @ '' is not string-interpolatable''))"

lemma length_tl_dropWhile [simp]: "length (dropWhile P (tl cs)) - Suc 0 < Suc (length cs)"
  using length_dropWhile_le [of P "tl cs"] by simp

text \<open>The loop over \<open>rest\<close>; text up to the next \<open>${\<close> is copied.\<close>

function interpolate :: "(f64 \<Rightarrow> string) \<Rightarrow> run_vars \<Rightarrow> string \<Rightarrow> string \<Rightarrow> string + string" where
  "interpolate show_f64 r s [] = Ok []"
| "interpolate show_f64 r s (c # cs) =
     (if starts_with (c # cs) ''${'' then
        (let after = tl cs in
         if CHR ''}'' \<notin> set after then Err (''unterminated template in '' @ s)
         else let path = takeWhile (\<lambda>d. d \<noteq> CHR ''}'') after;
                  rest = tl (dropWhile (\<lambda>d. d \<noteq> CHR ''}'') after)
           in (case lookup_ref r path of
                 Inl e \<Rightarrow> Err e
               | Inr v \<Rightarrow> (case interpolated show_f64 path v of
                    Inl e \<Rightarrow> Err e
                  | Inr t \<Rightarrow> map_sum id (append t) (interpolate show_f64 r s rest))))
      else map_sum id (Cons c) (interpolate show_f64 r s cs))"
  by pat_completeness auto
termination
  by (relation "measure (\<lambda>(f, r, s, cs). length cs)") auto

definition materialize_string :: "(f64 \<Rightarrow> string) \<Rightarrow> run_vars \<Rightarrow> string \<Rightarrow> string + json" where
  "materialize_string show_f64 r s = (case whole_template (str_trim s) of
     Some inner \<Rightarrow> map_sum id value_to_json (lookup_ref r inner)
   | None \<Rightarrow>
      if \<not> contains_str s ''${'' then Ok (JString s)
      else map_sum id JString (interpolate show_f64 r s s))"

fun materialize_input :: "(f64 \<Rightarrow> string) \<Rightarrow> run_vars \<Rightarrow> json \<Rightarrow> string + json"
  and materialize_items :: "(f64 \<Rightarrow> string) \<Rightarrow> run_vars \<Rightarrow> json list \<Rightarrow> string + json list"
  and materialize_members :: "(f64 \<Rightarrow> string) \<Rightarrow> run_vars \<Rightarrow> (string \<times> json) list \<Rightarrow> (string \<times> json) list \<Rightarrow>
      string + (string \<times> json) list" where
  "materialize_input f r (JString s) = materialize_string f r s"
| "materialize_input f r (JArray a) = map_sum id JArray (materialize_items f r a)"
| "materialize_input f r (JObject m) = map_sum id JObject (materialize_members f r m [])"
| "materialize_input f r v = Ok v"
| "materialize_items f r [] = Ok []"
| "materialize_items f r (v # vs) = (case materialize_input f r v of
     Inl e \<Rightarrow> Err e | Inr w \<Rightarrow> map_sum id (Cons w) (materialize_items f r vs))"
| "materialize_members f r [] out = Ok out"
| "materialize_members f r ((k, v) # m) out =
     (if (k = ''server_id'' \<or> k = ''tool_name'')
         \<and> (case json_as_str v of Some s \<Rightarrow> contains_str s ''${'' | None \<Rightarrow> False)
      then Err (''identity field '' @ k @ '' must be definition-bound; templates forbidden'')
      else (case materialize_input f r v of
          Inl e \<Rightarrow> Err e | Inr w \<Rightarrow> materialize_members f r m (obj_insert k w out)))"

text \<open>Materialization never changes an identity field.\<close>

lemma materialize_plain: "materialize_string f r s = Ok w \<Longrightarrow> \<not> contains_str s ''${'' \<Longrightarrow> whole_template (str_trim s) = None \<Longrightarrow> w = JString s"
  by (simp add: materialize_string_def)

lemma contains_str_append: "contains_str b p \<Longrightarrow> contains_str (a @ b @ c) p"
  by (auto simp: contains_str_iff) (metis append_assoc)

lemma str_trim_within: "\<exists>a c. s = a @ str_trim s @ c"
proof -
  let ?cs = "utf8_chars s"
  let ?d = "dropWhile is_whitespace ?cs"
  have d: "?cs = takeWhile is_whitespace ?cs @ ?d" by simp
  have "rev ?d = takeWhile is_whitespace (rev ?d) @ dropWhile is_whitespace (rev ?d)" by simp
  then have "rev (rev ?d) = rev (takeWhile is_whitespace (rev ?d) @ dropWhile is_whitespace (rev ?d))"
    by (rule arg_cong)
  then have e: "?d = rev (dropWhile is_whitespace (rev ?d)) @ rev (takeWhile is_whitespace (rev ?d))"
    by (simp only: rev_rev_ident rev_append)
  have "s = concat ?cs" by simp
  also have "\<dots> = concat (takeWhile is_whitespace ?cs) @ concat ?d"
    by (subst d) (simp only: concat_append)
  also have "concat ?d = str_trim s @ concat (rev (takeWhile is_whitespace (rev ?d)))"
    unfolding str_trim_def by (subst e) (simp only: concat_append)
  finally show ?thesis by blast
qed

lemma whole_template_contains: "whole_template (str_trim s) = Some inner \<Longrightarrow> contains_str s ''${''"
proof -
  assume "whole_template (str_trim s) = Some inner"
  then have "starts_with (str_trim s) ''${''"
    by (auto simp: whole_template_def strip_prefix_def split: if_splits)
  then have t: "contains_str (str_trim s) ''${''" by (metis starts_with_iff contains_str_iff append_Nil)
  obtain a c where "s = a @ str_trim s @ c" using str_trim_within [of s] by blast
  with contains_str_append [OF t, of a c] show ?thesis by simp
qed

lemma subset_disjoint: "B \<subseteq> C \<Longrightarrow> A \<inter> C = {} \<Longrightarrow> A \<inter> B = {}"
  by blast

lemma materialize_members_identity:
  "materialize_members f r m out = Ok m' \<Longrightarrow> distinct (map fst m) \<Longrightarrow> fst ` set m \<inter> fst ` set out = {} \<Longrightarrow>
    k \<in> {''server_id'', ''tool_name''} \<Longrightarrow> map_of m k = Some (JString s) \<Longrightarrow> map_of m' k = Some (JString s)"
proof (induction m arbitrary: out)
  case (Cons kv m)
  obtain j v where kv: "kv = (j, v)" by (cases kv)
  from Cons.prems(1) kv obtain w where w: "materialize_input f r v = Ok w"
    and rest: "materialize_members f r m (obj_insert j w out) = Ok m'"
    and free: "\<not> ((j = ''server_id'' \<or> j = ''tool_name'')
         \<and> (case json_as_str v of Some s \<Rightarrow> contains_str s ''${'' | None \<Rightarrow> False))"
    by (auto split: if_splits sum.splits)
  have keep: "materialize_members f r m o' = Ok m' \<Longrightarrow> i \<notin> fst ` set m \<Longrightarrow> map_of m' i = map_of o' i" for i o'
  proof (induction m arbitrary: o')
    case (Cons x m)
    then show ?case by (cases x) (auto split: if_splits sum.splits)
  qed simp
  have dom: "fst ` set (obj_insert j w out) \<subseteq> insert j (fst ` set out)"
    using set_bt_insert [of fst "(j, w)" out] by (auto simp: obj_insert_def)
  show ?case
  proof (cases "j = k")
    case True
    with Cons.prems kv have v: "v = JString s" by simp
    with free True Cons.prems(4) have nt: "\<not> contains_str s ''${''" by auto
    with whole_template_contains [of s] have "whole_template (str_trim s) = None" by (cases "whole_template (str_trim s)") auto
    with w v nt have "w = JString s" by (auto dest: materialize_plain)
    moreover have "k \<notin> fst ` set m" using Cons.prems(2) kv True by auto
    ultimately show ?thesis using keep [OF rest] True by simp
  next
    case False
    then have "map_of m k = Some (JString s)" using Cons.prems(5) kv by simp
    moreover have "fst ` set m \<inter> fst ` set (obj_insert j w out) = {}"
      using Cons.prems(2,3) kv by (intro subset_disjoint [OF dom]) auto
    ultimately show ?thesis using Cons.IH [OF rest] Cons.prems(2,4) kv by simp
  qed
qed simp

end
