(* ===== verification/WfFlow.thy ===== *)
theory WfFlow
  imports WfTemplates WfGraph "HOL-Library.AList"
begin

text \<open>
  The static check of a runner definition's control flow (\<open>validate_graph\<close> of
  \<open>launcher-workflow/src/v2.rs\<close>). The two inner recursive functions are written with their call
  stacks; the depth-first search is shown to be the one of \<open>WfGraph\<close>.
\<close>

section \<open>The checks of one step\<close>

datatype definition_error = DuplicateStepId string | UnknownStep string | CycleDetected string
  | UnreachableStep string | EntryNotFound string | InvalidExpression string

fun definition_error_text :: "definition_error \<Rightarrow> string" where
  "definition_error_text (DuplicateStepId s) = ''duplicate step id: '' @ s"
| "definition_error_text (UnknownStep s) = ''unknown step id: '' @ s"
| "definition_error_text (CycleDetected s) = ''cycle detected at step: '' @ s"
| "definition_error_text (UnreachableStep s) = ''unreachable step: '' @ s"
| "definition_error_text (EntryNotFound s) = ''entry step not found: '' @ s"
| "definition_error_text (InvalidExpression s) = ''invalid condition expression: '' @ s"

definition step_ids :: "wf_definition \<Rightarrow> string list" where
  "step_ids d = map ws_id (wd_steps d)"

definition flow_entry :: "wf_definition \<Rightarrow> string" where
  "flow_entry d = (case wd_entry d of Some e \<Rightarrow> e
     | None \<Rightarrow> (case wd_steps d of s # _ \<Rightarrow> ws_id s | [] \<Rightarrow> []))"

definition target_errors :: "string list \<Rightarrow> wf_step \<Rightarrow> string \<Rightarrow> string option \<Rightarrow> definition_error list" where
  "target_errors ids s kind target = (case target of
     Some t \<Rightarrow> (if t \<noteq> ''end'' \<and> t \<notin> set ids
         then [UnknownStep (ws_id s @ '' -> '' @ t @ '' ('' @ kind @ '')'')] else [])
   | None \<Rightarrow> [])"

definition condition_errors :: "rust_text \<Rightarrow> wf_step \<Rightarrow> definition_error list" where
  "condition_errors T s = (case ws_condition s of
     Some c \<Rightarrow> (case parse_expr T (co_expression c) of
         Inl _ \<Rightarrow> [InvalidExpression (ws_id s @ '': '' @ co_expression c)] | Inr _ \<Rightarrow> [])
   | None \<Rightarrow> [])"

definition step_errors :: "rust_text \<Rightarrow> string list \<Rightarrow> wf_step \<Rightarrow> definition_error list" where
  "step_errors T ids s =
     target_errors ids s ''success'' (ws_on_success s)
     @ target_errors ids s ''failure'' (ws_on_failure s)
     @ target_errors ids s ''condition_false'' (ws_on_condition_false s)
     @ condition_errors T s"

section \<open>Successors\<close>

definition opt_list :: "'a option \<Rightarrow> 'a list" where
  "opt_list v = (case v of Some x \<Rightarrow> [x] | None \<Rightarrow> [])"

text \<open>The targets a step flows to; \<open>rest\<close> are the steps after it.\<close>

definition flow_targets :: "wf_step \<Rightarrow> wf_step list \<Rightarrow> string list" where
  "flow_targets s rest =
     opt_list (ws_on_success s) @ opt_list (ws_on_condition_false s)
     @ (if ws_on_success s = None \<and> ws_on_condition_false s = None
        then (case rest of n # _ \<Rightarrow> [ws_id n] | [] \<Rightarrow> []) else [])"

fun flow_adj :: "wf_step list \<Rightarrow> adjacency \<Rightarrow> adjacency" where
  "flow_adj [] m = m"
| "flow_adj (s # ss) m = flow_adj ss (AList.update (ws_id s) (flow_targets s ss) m)"

section \<open>The searches\<close>

type_synonym visit_state = "string \<Rightarrow> 8 word option"

text \<open>A frame is an id with the targets its loop has left; the flag is \<open>has_cycle\<close>. A call that
  finds the flag set returns at once.\<close>

definition unvisited :: "adjacency \<Rightarrow> (string \<times> string list) list \<Rightarrow> visit_state \<Rightarrow> string set" where
  "unvisited m stack st = (\<Union>(set ` snd ` set stack) \<union> adj_targets m) - dom st"

function flow_dfs :: "adjacency \<Rightarrow> (string \<times> string list) list \<Rightarrow> visit_state \<Rightarrow> bool \<Rightarrow> visit_state \<times> bool" where
  "flow_dfs m [] st cyc = (st, cyc)"
| "flow_dfs m ((x, []) # stack) st cyc = flow_dfs m stack (st(x := Some 2)) cyc"
| "flow_dfs m ((x, t # ts) # stack) st cyc =
     (if st t = Some 1 then flow_dfs m ((x, ts) # stack) st True
      else if st t \<noteq> None then flow_dfs m ((x, ts) # stack) st cyc
      else if cyc then flow_dfs m ((x, ts) # stack) st cyc
      else flow_dfs m ((t, nexts m t) # (x, ts) # stack) (st(t := Some 1)) cyc)"
  by pat_completeness auto
termination
proof (relation "measures [\<lambda>(m, stack, st, cyc). card (unvisited m stack st),
    \<lambda>(m, stack, st, cyc). \<Sum>(x, ts) \<leftarrow> stack. Suc (length ts)]", goal_cases)
  case 1
  show ?case by simp
next
  case (2 m x stack st cyc)
  have "card (unvisited m stack (st(x := Some 2))) \<le> card (unvisited m ((x, []) # stack) st)"
    by (rule card_mono) (auto simp: unvisited_def)
  then show ?case by (simp add: le_less)
next
  case (3 m x t ts stack st cyc)
  have "card (unvisited m ((x, ts) # stack) st) \<le> card (unvisited m ((x, t # ts) # stack) st)"
    by (rule card_mono) (auto simp: unvisited_def)
  then show ?case by (simp add: le_less)
next
  case (4 m x t ts stack st cyc)
  have "card (unvisited m ((x, ts) # stack) st) \<le> card (unvisited m ((x, t # ts) # stack) st)"
    by (rule card_mono) (auto simp: unvisited_def)
  then show ?case by (simp add: le_less)
next
  case (5 m x t ts stack st cyc)
  have "card (unvisited m ((x, ts) # stack) st) \<le> card (unvisited m ((x, t # ts) # stack) st)"
    by (rule card_mono) (auto simp: unvisited_def)
  then show ?case by (simp add: le_less)
next
  case (6 m x t ts stack st cyc)
  have "unvisited m ((t, nexts m t) # (x, ts) # stack) (st(t := Some 1)) \<subset> unvisited m ((x, t # ts) # stack) st"
    using 6 nexts_subset_targets [of m t] by (auto simp: unvisited_def dom_def)
  then have "card (unvisited m ((t, nexts m t) # (x, ts) # stack) (st(t := Some 1)))
      < card (unvisited m ((x, t # ts) # stack) st)"
    by (intro psubset_card_mono) (auto simp: unvisited_def)
  then show ?case by simp
qed

text \<open>\<open>mark\<close>: ids still to be marked, in the order of the calls; the target \<open>end\<close> is not followed.\<close>

function mark :: "adjacency \<Rightarrow> string list \<Rightarrow> string list \<Rightarrow> string list" where
  "mark m [] seen = seen"
| "mark m (x # stack) seen =
     (if x \<in> set seen then mark m stack seen
      else mark m (filter (\<lambda>t. t \<noteq> ''end'') (nexts m x) @ stack) (hs_insert x seen))"
  by pat_completeness auto
termination
proof (relation "measures [\<lambda>(m, stack, seen). card ((set stack \<union> adj_targets m) - set seen),
    \<lambda>(m, stack, seen). length stack]", goal_cases)
  case 1
  show ?case by simp
next
  case (2 m x stack seen)
  then have "(set (x # stack) \<union> adj_targets m) - set seen = (set stack \<union> adj_targets m) - set seen"
    by auto
  then show ?case by simp
next
  case (3 m x stack seen)
  then have "(set (filter (\<lambda>t. t \<noteq> ''end'') (nexts m x) @ stack) \<union> adj_targets m) - set (hs_insert x seen)
    \<subset> (set (x # stack) \<union> adj_targets m) - set seen"
    using nexts_subset_targets [of m x] by auto
  then show ?case by (simp add: psubset_card_mono del: set_hs_insert)
qed

definition validate_graph :: "rust_text \<Rightarrow> wf_definition \<Rightarrow> definition_error list + unit" where
  "validate_graph T d =
     (let ids = step_ids d; entry = flow_entry d; m = flow_adj (wd_steps d) [];
          dup = (if distinct ids then [] else [DuplicateStepId ''(see steps)'']);
          missing = (if entry \<in> set ids then [] else [EntryNotFound entry]);
          steps = concat (map (step_errors T ids) (wd_steps d));
          cyc = (if snd (flow_dfs m [(entry, nexts m entry)] [entry \<mapsto> 1] False) then [CycleDetected entry] else []);
          reachable = mark m [entry] [];
          unreachable = map UnreachableStep (filter (\<lambda>x. x \<notin> set reachable) ids);
          errors = dup @ missing @ steps @ cyc @ unreachable
      in if errors = [] then Ok () else Err errors)"

section \<open>The searches are those of the graph validator\<close>

definition turned :: "adjacency \<Rightarrow> adjacency" where
  "turned m = map (\<lambda>(k, ts). (k, rev ts)) m"

definition cut_end :: "adjacency \<Rightarrow> adjacency" where
  "cut_end m = map (\<lambda>(k, ts). (k, rev (filter (\<lambda>t. t \<noteq> ''end'') ts))) m"

lemma nexts_map: "f [] = [] \<Longrightarrow> nexts (map (\<lambda>(k, ts). (k, f ts)) m) x = f (nexts m x)"
  by (simp add: nexts_def map_of_map split: option.split)

lemma nexts_turned [simp]: "nexts (turned m) x = rev (nexts m x)"
  by (simp add: turned_def nexts_map)

lemma nexts_cut_end [simp]: "nexts (cut_end m) x = rev (filter (\<lambda>t. t \<noteq> ''end'') (nexts m x))"
  unfolding cut_end_def by (rule nexts_map [where f = "\<lambda>ts. rev (filter (\<lambda>t. t \<noteq> ''end'') ts)"]) simp

lemma mark_reach: "mark m stack seen = reach (cut_end m) stack seen"
  by (induction m stack seen rule: mark.induct) (auto simp: reach.simps)

definition colours :: "visit_state \<Rightarrow> colouring" where
  "colours st x = map_option (\<lambda>v. if v = 1 then 0 else 1) (st x)"

definition pending_visits :: "(string \<times> string list) list \<Rightarrow> (string \<times> bool) list" where
  "pending_visits stack = concat (map (\<lambda>(x, ts). map (\<lambda>t. (t, False)) ts @ [(x, True)]) stack)"

lemma colours_upd: "colours (st(x := Some v)) = (colours st)(x := Some (if v = 1 then 0 else 1))"
  by (auto simp: colours_def fun_eq_iff)

lemma flow_dfs_cyclic: "snd (flow_dfs m stack st True)"
  by (induction m stack st "True" rule: flow_dfs.induct) auto

lemma flow_dfs_dfs:
  "\<not> cyc \<Longrightarrow> snd (flow_dfs m stack st cyc) \<longleftrightarrow> dfs (turned m) (pending_visits stack) (colours st) = None"
proof (induction m stack st cyc rule: flow_dfs.induct)
  case (2 m x stack st cyc)
  then show ?case by (simp add: pending_visits_def colours_upd del: fun_upd_apply)
next
  case (3 m x t ts stack st cyc)
  consider "st t = Some 1" | v where "st t = Some v" "v \<noteq> 1" | "st t = None" by (cases "st t") auto
  then show ?case
  proof cases
    case 1
    then show ?thesis by (simp add: flow_dfs_cyclic pending_visits_def colours_def)
  next
    case 2
    with 3 show ?thesis by (simp add: pending_visits_def colours_def)
  next
    case c: 3
    then have "colours st t = None" by (simp add: colours_def)
    moreover have "pending_visits ((t, nexts m t) # (x, ts) # stack)
      = map (\<lambda>n. (n, False)) (rev (nexts (turned m) t)) @ (t, True) # pending_visits ((x, ts) # stack)"
      by (simp add: pending_visits_def)
    ultimately show ?thesis using 3 c
      by (simp add: pending_visits_def colours_upd del: fun_upd_apply)
  qed
qed (simp add: pending_visits_def)

section \<open>What a valid control flow is\<close>

text \<open>The relation the two searches follow: the success and condition-false targets, or the next
  step where both are missing. Failure targets are not part of it.\<close>

fun flow_rel :: "wf_step list \<Rightarrow> (string \<times> string) set" where
  "flow_rel [] = {}"
| "flow_rel (s # ss) = {ws_id s} \<times> set (flow_targets s ss) \<union> flow_rel ss"

definition targets_known :: "string list \<Rightarrow> wf_step \<Rightarrow> bool" where
  "targets_known ids s \<longleftrightarrow> (\<forall>t \<in> {ws_on_success s, ws_on_failure s, ws_on_condition_false s}.
     \<forall>x. t = Some x \<longrightarrow> x = ''end'' \<or> x \<in> set ids)"

definition condition_parses :: "rust_text \<Rightarrow> wf_step \<Rightarrow> bool" where
  "condition_parses T s \<longleftrightarrow> (\<forall>c. ws_condition s = Some c \<longrightarrow> is_ok (parse_expr T (co_expression c)))"

definition valid_flow :: "rust_text \<Rightarrow> wf_definition \<Rightarrow> bool" where
  "valid_flow T d \<longleftrightarrow>
     distinct (step_ids d) \<and> flow_entry d \<in> set (step_ids d)
     \<and> (\<forall>s \<in> set (wd_steps d). targets_known (step_ids d) s \<and> condition_parses T s)
     \<and> (\<forall>x \<in> set (step_ids d). (flow_entry d, x) \<in> (flow_rel (wd_steps d) - UNIV \<times> {''end''})\<^sup>*)
     \<and> acyclic (flow_rel (wd_steps d))"

lemma flow_rel_source: "(x, y) \<in> flow_rel ss \<Longrightarrow> x \<in> ws_id ` set ss"
  by (induction ss) auto

lemma nexts_update: "nexts (AList.update k ts m) x = (if x = k then ts else nexts m x)"
  by (simp add: nexts_def update_conv)

lemma nexts_flow_adj:
  "distinct (map ws_id ss) \<Longrightarrow>
    set (nexts (flow_adj ss m) x) = (if x \<in> ws_id ` set ss then {y. (x, y) \<in> flow_rel ss} else set (nexts m x))"
proof (induction ss arbitrary: m)
  case (Cons s ss)
  have "(ws_id s, y) \<notin> flow_rel ss" for y
    using flow_rel_source [of "ws_id s" y ss] Cons.prems by auto
  with Cons show ?case by (cases "x = ws_id s") (simp_all add: nexts_update)
qed simp

lemma adj_rel_flow_adj: "distinct (map ws_id ss) \<Longrightarrow> adj_rel (flow_adj ss []) = flow_rel ss"
  unfolding adj_rel_def by (auto simp: nexts_flow_adj nexts_def [of "[]"] dest: flow_rel_source split: if_splits)

lemma adj_rel_turned [simp]: "adj_rel (turned m) = adj_rel m"
  by (simp add: adj_rel_def)

lemma adj_rel_cut_end [simp]: "adj_rel (cut_end m) = adj_rel m - UNIV \<times> {''end''}"
  by (auto simp: adj_rel_def)

lemma step_errors_Nil:
  "step_errors T ids s = [] \<longleftrightarrow> targets_known ids s \<and> condition_parses T s"
  by (auto simp: step_errors_def target_errors_def condition_errors_def targets_known_def
      condition_parses_def is_ok_iff split: option.splits sum.splits)

text \<open>From one root: the search finds no cycle only if every id it reaches has no infinite path.\<close>

lemma dfs_from_root:
  "dfs m [(x, False)] Map.empty = None \<Longrightarrow> \<not> acyclic (adj_rel m)"
  "dfs m [(x, False)] Map.empty \<noteq> None \<Longrightarrow> x \<in> Wellfounded.acc ((adj_rel m)\<inverse>)"
proof -
  have start: "dfs_inv m [(x, False)] Map.empty"
    by (rule dfs_inv_start) (simp add: dfs_inv_def dfs_above_def)
  then show "dfs m [(x, False)] Map.empty = None \<Longrightarrow> \<not> acyclic (adj_rel m)"
    by (rule dfs_None_cycle [rotated])
  assume "dfs m [(x, False)] Map.empty \<noteq> None"
  then obtain c where c: "dfs m [(x, False)] Map.empty = Some c" by blast
  have "c x = Some 1" using dfs_Some_done [OF c] by auto
  moreover have "dfs_inv m [] c" by (rule dfs_Some_inv [OF c start])
  ultimately show "x \<in> Wellfounded.acc ((adj_rel m)\<inverse>)" by (simp add: dfs_inv_def)
qed

lemma acc_reachable: "x \<in> Wellfounded.acc (R\<inverse>) \<Longrightarrow> (x, y) \<in> R\<^sup>* \<Longrightarrow> y \<in> Wellfounded.acc (R\<inverse>)"
  by (rotate_tac 1, induction rule: rtrancl_induct) (auto dest: acc_downward)

lemma acyclic_from_root:
  assumes "x \<in> Wellfounded.acc (R\<inverse>)" "Domain R \<subseteq> {y. (x, y) \<in> R\<^sup>*}"
  shows "acyclic R"
proof -
  have "y \<in> Wellfounded.acc (R\<inverse>)" for y
  proof (cases "y \<in> Domain R")
    case True
    with assms(2) have "(x, y) \<in> R\<^sup>*" by (rule subsetD [THEN CollectD])
    with assms(1) show ?thesis by (rule acc_reachable)
  next
    case False
    then show ?thesis by (intro accI [of y]) (simp add: Domain_iff)
  qed
  then have "wf (R\<inverse>)" by (intro acc_wfI allI)
  then have "acyclic (R\<inverse>)" by (rule wf_acyclic)
  then show ?thesis by simp
qed

lemma cycle_found:
  assumes "distinct (map ws_id ss)"
    and "\<forall>x \<in> ws_id ` set ss. (e, x) \<in> (flow_rel ss)\<^sup>*"
  shows "snd (flow_dfs (flow_adj ss []) [(e, nexts (flow_adj ss []) e)] [e \<mapsto> 1] False) \<longleftrightarrow> \<not> acyclic (flow_rel ss)"
proof -
  let ?m = "flow_adj ss []"
  note rel = adj_rel_flow_adj [OF assms(1)]
  have start: "colours Map.empty = Map.empty" by (simp add: colours_def fun_eq_iff)
  have "snd (flow_dfs ?m [(e, nexts ?m e)] [e \<mapsto> 1] False) \<longleftrightarrow> dfs (turned ?m) [(e, False)] Map.empty = None"
    by (subst flow_dfs_dfs) (simp_all add: pending_visits_def colours_upd start)
  also have "\<dots> \<longleftrightarrow> \<not> acyclic (flow_rel ss)"
  proof
    show "dfs (turned ?m) [(e, False)] Map.empty = None \<Longrightarrow> \<not> acyclic (flow_rel ss)"
      using dfs_from_root(1) [of "turned ?m" e] by (simp add: rel)
    assume "\<not> acyclic (flow_rel ss)"
    moreover have "Domain (flow_rel ss) \<subseteq> {y. (e, y) \<in> (flow_rel ss)\<^sup>*}"
      using assms(2) by (auto dest: flow_rel_source)
    ultimately have "e \<notin> Wellfounded.acc ((flow_rel ss)\<inverse>)" by (metis acyclic_from_root)
    then show "dfs (turned ?m) [(e, False)] Map.empty = None"
      using dfs_from_root(2) [of "turned ?m" e] unfolding adj_rel_turned rel by blast
  qed
  finally show ?thesis .
qed

lemma validate_graph_Ok: "validate_graph T d = Ok () \<longleftrightarrow> valid_flow T d"
proof (cases "distinct (step_ids d)")
  case True
  let ?R = "flow_rel (wd_steps d)" and ?e = "flow_entry d"
  let ?reached = "\<forall>x \<in> set (step_ids d). (?e, x) \<in> (?R - UNIV \<times> {''end''})\<^sup>*"
  have ids: "set (step_ids d) = ws_id ` set (wd_steps d)" by (simp add: step_ids_def)
  have dist: "distinct (map ws_id (wd_steps d))" using True by (simp add: step_ids_def)
  have marks: "set (mark (flow_adj (wd_steps d) []) [?e] []) = {y. (?e, y) \<in> (?R - UNIV \<times> {''end''})\<^sup>*}"
    by (simp add: mark_reach set_reach adj_rel_flow_adj [OF dist])
  have cyc: "snd (flow_dfs (flow_adj (wd_steps d) []) [(?e, nexts (flow_adj (wd_steps d) []) ?e)] [?e \<mapsto> 1] False)
      \<longleftrightarrow> \<not> acyclic ?R" if ?reached
  proof (rule cycle_found [OF dist])
    have "(?R - UNIV \<times> {''end''})\<^sup>* \<subseteq> ?R\<^sup>*" by (rule rtrancl_mono) blast
    with that ids show "\<forall>x \<in> ws_id ` set (wd_steps d). (?e, x) \<in> ?R\<^sup>*" by blast
  qed
  show ?thesis
    using True cyc unfolding validate_graph_def valid_flow_def Let_def marks
    by (simp add: filter_empty_conv step_errors_Nil del: mark.simps) blast
next
  case False
  then show ?thesis by (simp add: validate_graph_def valid_flow_def Let_def)
qed

end
