(* ===== verification/WfRunner.thy ===== *)
theory WfRunner
  imports WfFlow
begin

text \<open>
  The linear workflow runner (\<open>launcher-workflow/src/lib.rs\<close>): reference resolution, the attempts of
  one step, the walk over the definition, resuming. The host (where commands live, how actions
  execute) and the printing of doubles are the record \<open>workflow_host\<close>; a ghost list records the
  calls of \<open>execute\<close>.
\<close>

section \<open>Ports\<close>

record wf_failure =
  wf_class :: workflow_failure_class
  wf_reason :: string
  wf_execution :: "string option"

definition new_failure :: "workflow_failure_class \<Rightarrow> string \<Rightarrow> wf_failure" where
  "new_failure c r = \<lparr>wf_class = c, wf_reason = r, wf_execution = None\<rparr>"

record execution_outcome =
  eo_execution :: "string option"
  eo_plugin_result :: "json option"

record 'h workflow_host =
  host_in_session :: "'h \<Rightarrow> string \<Rightarrow> string \<Rightarrow> command option"
  host_fresh_query :: "'h \<Rightarrow> string \<Rightarrow> ((workflow_failure_class \<times> string) + command list) \<times> 'h"
  host_execute :: "'h \<Rightarrow> action \<Rightarrow> string option \<Rightarrow> 64 word \<Rightarrow> bool \<Rightarrow>
      (wf_failure + execution_outcome) \<times> 'h"
  host_text :: rust_text
  host_show_f64 :: "f64 \<Rightarrow> string"

section \<open>Resolving a step\<close>

record resolved_reference =
  rr_command :: command
  rr_action :: action

definition published :: "action_reference \<Rightarrow> command \<Rightarrow> action option" where
  "published r c = find (\<lambda>a. ac_id a = Some (rf_action r)) (cmd_actions c)"

definition fresh_reference :: "'h workflow_host \<Rightarrow> action_reference \<Rightarrow> 'h \<Rightarrow>
    (wf_failure + resolved_reference) \<times> 'h" where
  "fresh_reference H r h = (case host_fresh_query H h (rf_provider r) of
     (Inl (class, reason), h') \<Rightarrow> (Err (new_failure class reason), h')
   | (Inr cs, h') \<Rightarrow>
      (case find (\<lambda>c. cmd_provider c = rf_provider r \<and> cmd_id c = rf_command r) cs of
         None \<Rightarrow> (Err (new_failure ClCommandNotFound (rf_provider r @ '' :: '' @ rf_command r)), h')
       | Some c \<Rightarrow> (case published r c of
            None \<Rightarrow> (Err (new_failure ClCommandNotFound
                (''action '' @ rf_action r @ '' not on '' @ rf_command r)), h')
          | Some a \<Rightarrow> (Ok \<lparr>rr_command = c, rr_action = a\<rparr>, h'))))"

definition resolve_reference :: "'h workflow_host \<Rightarrow> action_reference \<Rightarrow> 'h \<Rightarrow>
    (wf_failure + resolved_reference) \<times> 'h" where
  "resolve_reference H r h =
     (case Option.bind (host_in_session H h (rf_provider r) (rf_command r))
             (\<lambda>c. map_option (Pair c) (published r c)) of
        Some (c, a) \<Rightarrow> (Ok \<lparr>rr_command = c, rr_action = a\<rparr>, h)
      | None \<Rightarrow> fresh_reference H r h)"

record resolved_step =
  rs_command :: "command option"
  rs_action :: action
  rs_provider :: "string option"

text \<open>The runtime input replaces the declared payload and must not re-point the route.\<close>

definition bind_input :: "json \<Rightarrow> resolved_reference \<Rightarrow> wf_failure + resolved_step" where
  "bind_input mat rr =
     (let a = rr_action rr;
          provider = (if ac_kind a = ActPluginInvoke then Some (cmd_provider (rr_command rr)) else None);
          projected = (case ac_payload a of Some (PlJson v) \<Rightarrow> Some v | _ \<Rightarrow> None);
          a' = (if json_is_null mat then a else a\<lparr>ac_payload := Some (PlJson mat)\<rparr>);
          mismatch = (case (projected, ac_payload a') of
              (Some p, Some (PlJson rt)) \<Rightarrow> identity_mismatch p rt | _ \<Rightarrow> [])
      in if mismatch \<noteq> []
         then Err (new_failure ClInvalidInput
              (''runtime input alters resolved route identity: '' @ join_str '', '' mismatch))
         else Ok \<lparr>rs_command = Some (rr_command rr), rs_action = a', rs_provider = provider\<rparr>)"

fun capability_name :: "capability \<Rightarrow> string" where
  "capability_name FilesystemRead = ''FilesystemRead''"
| "capability_name FilesystemWrite = ''FilesystemWrite''"
| "capability_name ClipboardRead = ''ClipboardRead''"
| "capability_name ClipboardWrite = ''ClipboardWrite''"
| "capability_name Network = ''Network''"
| "capability_name ShellExecute = ''ShellExecute''"
| "capability_name ProcessSpawn = ''ProcessSpawn''"
| "capability_name Notifications = ''Notifications''"
| "capability_name UiRender = ''UiRender''"
| "capability_name ContextProcessRead = ''ContextProcessRead''"
| "capability_name ContextWindowRead = ''ContextWindowRead''"
| "capability_name ContextLocationRead = ''ContextLocationRead''"
| "capability_name ContextSelectionRead = ''ContextSelectionRead''"
| "capability_name StoreRead = ''StoreRead''"
| "capability_name StoreWrite = ''StoreWrite''"
| "capability_name CapPluginInvoke = ''PluginInvoke''"
| "capability_name McpInvoke = ''McpInvoke''"

fun classify_descriptor_error :: "descriptor_error \<Rightarrow> wf_failure" where
  "classify_descriptor_error (UnknownActionType t) = new_failure ClInvalidInput (''unknown action type: '' @ t)"
| "classify_descriptor_error (InvalidDescriptorInput t) = new_failure ClInvalidInput t"
| "classify_descriptor_error (CapabilityDenied cs) =
     new_failure ClCapabilityDenied (''['' @ join_str '', '' (map capability_name cs) @ '']'')"

definition resolve_inline :: "json \<Rightarrow> action_descriptor \<Rightarrow> wf_failure + resolved_step" where
  "resolve_inline mat d =
     (case resolve_descriptor (if json_is_null mat then d else d\<lparr>de_input := mat\<rparr>) [] of
        Inl e \<Rightarrow> Err (classify_descriptor_error e)
      | Inr a \<Rightarrow> Ok \<lparr>rs_command = None, rs_action = a\<lparr>ac_id := Some (de_id d), ac_title := de_title d\<rparr>,
          rs_provider = None\<rparr>)"

definition refuse_disabled :: "wf_failure + resolved_step \<Rightarrow> wf_failure + resolved_step" where
  "refuse_disabled r = (case r of
     Inl f \<Rightarrow> Err f
   | Inr rs \<Rightarrow> (case ac_disabled (rs_action rs) of
        Some reason \<Rightarrow> Err (new_failure ClCapabilityDenied (''action disabled: '' @ reason))
      | None \<Rightarrow> Ok rs))"

definition resolve_step :: "'h workflow_host \<Rightarrow> wf_step \<Rightarrow> json \<Rightarrow> 'h \<Rightarrow> (wf_failure + resolved_step) \<times> 'h" where
  "resolve_step H s mat h = (case ws_action s of
     Reference r \<Rightarrow> (case resolve_reference H r h of
         (Inl f, h') \<Rightarrow> (Err f, h')
       | (Inr rr, h') \<Rightarrow> (refuse_disabled (bind_input mat rr), h'))
   | Inline d \<Rightarrow> (refuse_disabled (resolve_inline mat d), h))"

section \<open>The attempts of one step\<close>

definition policy_for :: "wf_definition \<Rightarrow> wf_step \<Rightarrow> workflow_failure_class \<Rightarrow> failure_action" where
  "policy_for d s c = action_for (wd_policy d) (ws_policy s) c"

definition max_attempts_of :: "wf_definition \<Rightarrow> wf_step \<Rightarrow> 32 word" where
  "max_attempts_of d s = policy_max_attempts (wd_policy d) (ws_policy s)"

datatype step_outcome = OutNext | OutPaused | OutFailed

text \<open>The loop around the resolution. It leaves the step early, or delivers an action.\<close>

function resolve_loop :: "'h workflow_host \<Rightarrow> wf_definition \<Rightarrow> wf_step \<Rightarrow> json \<Rightarrow> nat \<Rightarrow> step_run \<Rightarrow> 'h \<Rightarrow>
    (step_outcome + resolved_step) \<times> step_run \<times> 'h" where
  "resolve_loop H d s mat re sr h = (case resolve_step H s mat h of
     (Inr r, h') \<Rightarrow> (Ok r, sr, h')
   | (Inl f, h') \<Rightarrow>
      let sr = sr\<lparr>sr_error := Some (wf_reason f)\<rparr>; act = policy_for d s (wf_class f) in
      if act = FaReResolve \<and> re < 2
      then resolve_loop H d s mat (Suc re) (sr\<lparr>sr_status := SrResolving\<rparr>) h'
      else if act = FaRetry \<and> sr_attempt sr < max_attempts_of d s
      then resolve_loop H d s mat re (sr\<lparr>sr_status := SrResolving, sr_attempt := sr_attempt sr + 1\<rparr>) h'
      else if act = FaSkip then (Err OutNext, sr\<lparr>sr_status := SrSkipped\<rparr>, h')
      else (Err OutFailed, sr\<lparr>sr_status := SrFailed\<rparr>, h'))"
  by pat_completeness auto
termination
  by (relation "measure (\<lambda>(H, d, s, mat, re, sr, h). (2 - re) + (unat (max_attempts_of d s) - unat (sr_attempt sr)))")
    (auto simp: unat_incr word_less_nat_alt diff_less_mono2)

declare resolve_loop.simps [simp del]

text \<open>A call of the host's \<open>execute\<close>: the step, the action and provider handed over (the
  action before its confirmation flag is cleared), the variables the input was built from, the
  state of the host at the call, and whether it succeeded.\<close>

record 'h exec_call =
  xc_step :: nat
  xc_action :: action
  xc_provider :: "string option"
  xc_variables :: "json option"
  xc_host :: 'h
  xc_confirmed :: bool
  xc_ok :: bool

definition new_call :: "nat \<Rightarrow> resolved_step \<Rightarrow> json option \<Rightarrow> 'h \<Rightarrow> bool \<Rightarrow> bool \<Rightarrow> 'h exec_call" where
  "new_call idx rs vars h confirmed ok = \<lparr>xc_step = idx, xc_action = rs_action rs,
     xc_provider = rs_provider rs, xc_variables = vars, xc_host = h, xc_confirmed = confirmed, xc_ok = ok\<rparr>"

lemma new_call_simps [simp]:
  "xc_step (new_call idx rs vars h confirmed ok) = idx"
  "xc_action (new_call idx rs vars h confirmed ok) = rs_action rs"
  "xc_provider (new_call idx rs vars h confirmed ok) = rs_provider rs"
  "xc_variables (new_call idx rs vars h confirmed ok) = vars"
  "xc_host (new_call idx rs vars h confirmed ok) = h"
  "xc_confirmed (new_call idx rs vars h confirmed ok) = confirmed"
  "xc_ok (new_call idx rs vars h confirmed ok) = ok"
  by (simp_all add: new_call_def)

lemma resolve_loop_frame:
  "resolve_loop H d s mat re sr h = (r, sr', h') \<Longrightarrow>
    unat (sr_attempt sr) \<le> unat (sr_attempt sr') \<and> sr_step sr' = sr_step sr
    \<and> (unat (sr_attempt sr') \<le> max (unat (sr_attempt sr)) (unat (max_attempts_of d s)))
    \<and> (\<forall>rs. r = Ok rs \<longrightarrow> (\<exists>g. resolve_step H s mat g = (Ok rs, h')))
    \<and> (\<forall>out. r = Err out \<longrightarrow> (out = OutNext \<and> sr_status sr' = SrSkipped) \<or> (out = OutFailed \<and> sr_status sr' = SrFailed))"
proof (induction H d s mat re sr h rule: resolve_loop.induct)
  case (1 H d s mat re sr h)
  obtain o' h1 where o': "resolve_step H s mat h = (o', h1)" by (cases "resolve_step H s mat h")
  show ?case
  proof (cases o')
    case (Inr rs)
    with "1.prems" o' show ?thesis by (auto simp: resolve_loop.simps [of H d s mat re sr h])
  next
    case (Inl f)
    let ?sr = "sr\<lparr>sr_error := Some (wf_reason f)\<rparr>" and ?act = "policy_for d s (wf_class f)"
    consider (again) "?act = FaReResolve \<and> re < 2"
      | (retry) "\<not> (?act = FaReResolve \<and> re < 2)" "?act = FaRetry \<and> sr_attempt ?sr < max_attempts_of d s"
      | (leave) "\<not> (?act = FaReResolve \<and> re < 2)" "\<not> (?act = FaRetry \<and> sr_attempt ?sr < max_attempts_of d s)"
      by blast
    then show ?thesis
    proof cases
      case again
      then have "resolve_loop H d s mat (Suc re) (?sr\<lparr>sr_status := SrResolving\<rparr>) h1 = (r, sr', h')"
        using "1.prems" o' Inl by (simp add: resolve_loop.simps [of H d s mat re sr h] Let_def)
      from "1.IH"(1) [OF o' [symmetric] Inl refl refl again this] show ?thesis by simp
    next
      case retry
      then have "resolve_loop H d s mat re (?sr\<lparr>sr_status := SrResolving, sr_attempt := sr_attempt ?sr + 1\<rparr>) h1
          = (r, sr', h')"
        using "1.prems" o' Inl by (simp add: resolve_loop.simps [of H d s mat re sr h] Let_def)
      from "1.IH"(2) [OF o' [symmetric] Inl refl refl retry this] retry(2)
        unat_incr [of "sr_attempt sr" "max_attempts_of d s"]
      show ?thesis by (auto simp: word_less_nat_alt)
    next
      case leave
      with "1.prems" o' Inl show ?thesis
        by (auto simp: resolve_loop.simps [of H d s mat re sr h] Let_def split: if_splits)
    qed
  qed
qed

definition materialized :: "'h workflow_host \<Rightarrow> json option \<Rightarrow> json \<Rightarrow> json" where
  "materialized H vars input = (case materialize_input (host_show_f64 H) (rv_from_snapshot vars) input of
     Inr v \<Rightarrow> v | Inl _ \<Rightarrow> input)"

lemma unat_incr_small: "unat (a + 1) = Suc (unat a)" if "unat a \<le> 2" for a :: "32 word"
  by (rule unat_incr [of a 3]) (use that in \<open>simp add: word_less_nat_alt\<close>)

lemma unat_incr_nat: "unat a < unat b \<Longrightarrow> unat (a + 1) = Suc (unat a)" for a b :: "32 word"
  by (rule unat_incr [of a b]) (simp add: word_less_nat_alt)

text \<open>\<open>execute_step\<close> after its first two assignments, which the recursive calls repeat. The step run
  is the only part of the run it changes.\<close>

function attempt_step :: "'h workflow_host \<Rightarrow> wf_definition \<Rightarrow> wf_step \<Rightarrow> json option \<Rightarrow> nat \<Rightarrow> 64 word \<Rightarrow> bool \<Rightarrow>
    step_run \<Rightarrow> 'h \<Rightarrow> 'h exec_call list \<Rightarrow> step_outcome \<times> step_run \<times> 'h \<times> 'h exec_call list" where
  "attempt_step H d s vars idx gen confirmed sr h calls =
     (case resolve_loop H d s (materialized H vars (ws_input s)) 0 sr h of
        (Inl out, sr, h) \<Rightarrow> (out, sr, h, calls)
      | (Inr rs, sr, h) \<Rightarrow>
         let sr = (if rs_command rs = None then sr else sr\<lparr>sr_generation := Some gen\<rparr>)\<lparr>sr_status := SrResolved\<rparr>
         in if ac_confirm (rs_action rs) \<and> \<not> confirmed
         then (OutPaused, sr\<lparr>sr_status := SrWaitingForConfirmation, sr_error := Some ''confirmation required''\<rparr>, h, calls)
         else (case host_execute H h ((rs_action rs)\<lparr>ac_confirm := False\<rparr>) (rs_provider rs) gen confirmed of
            (Inr outcome, h2) \<Rightarrow>
              (OutNext, sr\<lparr>sr_status := SrComplete, sr_execution := eo_execution outcome,
                 sr_generation := Some gen, sr_output := eo_plugin_result outcome\<rparr>, h2,
               calls @ [new_call idx rs vars h confirmed True])
          | (Inl f, h2) \<Rightarrow>
              let calls = calls @ [new_call idx rs vars h confirmed False];
                  sr = sr\<lparr>sr_status := SrExecuting, sr_error := Some (wf_reason f), sr_execution := wf_execution f\<rparr>;
                  act = policy_for d s (wf_class f);
                  again = sr\<lparr>sr_status := SrResolving, sr_attempt := sr_attempt sr + 1\<rparr>
              in if act = FaRetry \<and> sr_attempt sr < max_attempts_of d s
                 then attempt_step H d s vars idx gen confirmed again h2 calls
                 else if act = FaReResolve \<and> sr_attempt sr \<le> 2
                 then attempt_step H d s vars idx gen confirmed again h2 calls
                 else if act = FaSkip then (OutNext, sr\<lparr>sr_status := SrSkipped\<rparr>, h2, calls)
                 else (OutFailed, sr\<lparr>sr_status := SrFailed\<rparr>, h2, calls)))"
  by pat_completeness auto
termination
  by (relation "measure (\<lambda>(H, d, s, vars, idx, gen, confirmed, sr, h, calls).
      max 3 (unat (max_attempts_of d s)) - unat (sr_attempt sr))") 
    (auto simp: unat_incr_nat unat_incr_small word_less_nat_alt word_le_nat_alt dest!: sym [THEN resolve_loop_frame] split: if_splits)

declare attempt_step.simps [simp del]

definition execute_step :: "'h workflow_host \<Rightarrow> wf_definition \<Rightarrow> wf_step \<Rightarrow> json option \<Rightarrow> nat \<Rightarrow> 64 word \<Rightarrow> bool \<Rightarrow>
    step_run \<Rightarrow> 'h \<Rightarrow> 'h exec_call list \<Rightarrow> step_outcome \<times> step_run \<times> 'h \<times> 'h exec_call list" where
  "execute_step H d s vars idx gen confirmed sr h calls =
     attempt_step H d s vars idx gen confirmed
       (sr\<lparr>sr_status := SrResolving, sr_attempt := sr_attempt sr + 1\<rparr>) h calls"

section \<open>The walk over the definition\<close>

record 'h walk =
  wk_run :: wf_run
  wk_host :: 'h
  wk_calls :: "'h exec_call list"

definition step_index :: "wf_definition \<Rightarrow> string \<Rightarrow> nat option" where
  "step_index d t = map_of (rev (zip (step_ids d) [0..<length (wd_steps d)])) t"

definition next_linear :: "wf_definition \<Rightarrow> nat \<Rightarrow> nat option" where
  "next_linear d idx = (if idx + 1 < length (wd_steps d) then Some (idx + 1) else None)"

definition follow :: "wf_definition \<Rightarrow> string option \<Rightarrow> nat \<Rightarrow> nat option" where
  "follow d transition idx = (case transition of
     Some t \<Rightarrow> (if t = ''end'' then None else step_index d t)
   | None \<Rightarrow> next_linear d idx)"

definition set_step :: "nat \<Rightarrow> step_run \<Rightarrow> wf_run \<Rightarrow> wf_run" where
  "set_step idx sr run = run\<lparr>wr_steps := (wr_steps run)[idx := sr]\<rparr>"

definition fail_run :: "nat \<Rightarrow> string \<Rightarrow> wf_run \<Rightarrow> wf_run" where
  "fail_run idx e run =
     set_step idx ((wr_steps run ! idx)\<lparr>sr_status := SrFailed, sr_error := Some e\<rparr>) (run\<lparr>wr_status := WrFailed\<rparr>)"

fun expr_error_text :: "expr_error \<Rightarrow> string" where
  "expr_error_text (ParseError e) = ''expression parse error: '' @ e"
| "expr_error_text (TooDeep n) = ''expression too deep (max '' @ nat_str n @ '')''"
| "expr_error_text (TypeMismatch l r) = ''type mismatch: '' @ l @ '' vs '' @ r"
| "expr_error_text (UnknownRef r) = ''unknown variable reference: '' @ r"
| "expr_error_text (OutputPathNotFound p) = ''output path not found: '' @ p"

datatype gate = GateOpen | GateClosed | GateParse string | GateEval string

definition condition_gate :: "rust_text \<Rightarrow> wf_step \<Rightarrow> json option \<Rightarrow> gate" where
  "condition_gate T s vars = (case ws_condition s of
     None \<Rightarrow> GateOpen
   | Some c \<Rightarrow> (case parse_expr T (co_expression c) of
        Inl e \<Rightarrow> GateParse (''condition error: '' @ expr_error_text e)
      | Inr x \<Rightarrow> (case eval (\<lambda>path. case rv_get (rv_from_snapshot vars) path of Inr v \<Rightarrow> v | Inl _ \<Rightarrow> None) x of
           Inl e \<Rightarrow> GateEval (''condition error: '' @ expr_error_text e)
         | Inr v \<Rightarrow> if v = VBool True then GateOpen else GateClosed)))"

text \<open>Output binding after a completed step: the new variables, or the error.\<close>

definition bind_output :: "wf_step \<Rightarrow> step_run \<Rightarrow> json option \<Rightarrow> string + json option" where
  "bind_output s sr vars =
     (if sr_status sr \<noteq> SrComplete then Ok vars
      else case ws_output s of
        None \<Rightarrow> Ok vars
      | Some b \<Rightarrow>
          (case Option.bind (sr_output sr) (\<lambda>out. if ob_source b = [] then Some out else json_walk out (ob_source b)) of
             None \<Rightarrow> Err (''output path not found: '' @ ob_source b)
           | Some v \<Rightarrow> (case rv_set (ob_target b) v (rv_from_snapshot vars) of
                (Inl e, _) \<Rightarrow> Err e
              | (Inr _, store) \<Rightarrow> Ok (rv_snapshot store))))"

text \<open>One turn of \<open>while let Some(idx)\<close>: leave \<open>advance\<close> with a result, or the next index.\<close>

definition walk_step :: "'h workflow_host \<Rightarrow> wf_definition \<Rightarrow> 64 word \<Rightarrow> bool \<Rightarrow> nat \<Rightarrow> 'h walk \<Rightarrow>
    ((string + unit) + nat option) \<times> 'h walk" where
  "walk_step H d gen confirmed idx w =
     (let s = wd_steps d ! idx; run = wk_run w; sr = wr_steps run ! idx in
      if sr_status sr = SrComplete \<or> sr_status sr = SrSkipped then (Inr (next_linear d idx), w)
      else let run = run\<lparr>wr_current := Some (ws_id s)\<rparr> in
      (case condition_gate (host_text H) s (wr_variables run) of
        GateParse e \<Rightarrow> (Inl (Ok ()), w\<lparr>wk_run := fail_run idx e run\<rparr>)
      | GateEval e \<Rightarrow> (Inl (Err e), w\<lparr>wk_run := run\<rparr>)
      | GateClosed \<Rightarrow> (Inr (follow d (ws_on_condition_false s) idx),
          w\<lparr>wk_run := set_step idx (sr\<lparr>sr_status := SrSkipped, sr_skip := Some SKIP_CONDITION_FALSE\<rparr>) run\<rparr>)
      | GateOpen \<Rightarrow>
         (case execute_step H d s (wr_variables run) idx gen confirmed sr (wk_host w) (wk_calls w) of
            (out, sr, h, calls) \<Rightarrow>
              let run = set_step idx sr run; w = \<lparr>wk_run = run, wk_host = h, wk_calls = calls\<rparr> in
              (case out of
                 OutPaused \<Rightarrow> (Inl (Ok ()), w\<lparr>wk_run := run\<lparr>wr_status := WrPaused, wr_paused := Some ''ConfirmationRequired''\<rparr>\<rparr>)
               | OutFailed \<Rightarrow> (Inl (Ok ()), w\<lparr>wk_run := run\<lparr>wr_status := WrFailed\<rparr>\<rparr>)
               | OutNext \<Rightarrow>
                   (case bind_output s sr (wr_variables run) of
                      Inl e \<Rightarrow> (Inl (Ok ()), w\<lparr>wk_run := fail_run idx e run\<rparr>)
                    | Inr vars \<Rightarrow>
                        (Inr (follow d (if sr_status sr = SrSkipped then ws_on_failure s else ws_on_success s) idx),
                         w\<lparr>wk_run := run\<lparr>wr_variables := vars\<rparr>\<rparr>))))))"

text \<open>After the loop: steps of branches not taken, and the verdict.\<close>

definition skip_pending :: "step_run \<Rightarrow> step_run" where
  "skip_pending sr = (if sr_status sr = SrPending
     then sr\<lparr>sr_status := SrSkipped, sr_skip := Some SKIP_BRANCH_NOT_SELECTED\<rparr> else sr)"

definition step_done :: "step_run \<Rightarrow> bool" where
  "step_done sr \<longleftrightarrow> sr_status sr = SrComplete \<or> sr_status sr = SrSkipped"

definition finish_walk :: "wf_run \<Rightarrow> wf_run" where
  "finish_walk run =
     (let steps = map skip_pending (wr_steps run)
      in run\<lparr>wr_steps := steps, wr_status := (if list_all step_done steps then WrSucceeded else WrFailed)\<rparr>)"

text \<open>A run with fewer step runs than the definition has steps panics; here that is an error.\<close>

function walk_loop :: "'h workflow_host \<Rightarrow> wf_definition \<Rightarrow> 64 word \<Rightarrow> bool \<Rightarrow> nat \<Rightarrow> nat option \<Rightarrow> 'h walk \<Rightarrow>
    (string + unit) \<times> 'h walk" where
  "walk_loop H d gen confirmed executed current w = (case current of
     None \<Rightarrow> (Ok (), w\<lparr>wk_run := finish_walk (wk_run w)\<rparr>)
   | Some idx \<Rightarrow>
      if idx \<ge> length (wr_steps (wk_run w)) then (Err ''index out of bounds'', w)
      else if executed + 1 > MAX_STEPS_PER_RUN
      then (Ok (), w\<lparr>wk_run := set_step idx ((wr_steps (wk_run w) ! idx)\<lparr>sr_error := Some
          (''max steps per run exceeded ('' @ nat_str MAX_STEPS_PER_RUN @ '')'')\<rparr>) ((wk_run w)\<lparr>wr_status := WrFailed\<rparr>)\<rparr>)
      else (case walk_step H d gen confirmed idx w of
         (Inl r, w) \<Rightarrow> (r, w)
       | (Inr next, w) \<Rightarrow> walk_loop H d gen confirmed (executed + 1) next w))"
  by pat_completeness auto
termination
  by (relation "measure (\<lambda>(H, d, gen, confirmed, executed, current, w). Suc MAX_STEPS_PER_RUN - executed)") auto

declare walk_loop.simps [simp del]

definition advance :: "'h workflow_host \<Rightarrow> wf_definition \<Rightarrow> 64 word \<Rightarrow> bool \<Rightarrow> 'h walk \<Rightarrow> (string + unit) \<times> 'h walk" where
  "advance H d gen confirmed w = walk_loop H d gen confirmed 0 (step_index d (flow_entry d)) w"

definition run_workflow :: "'h workflow_host \<Rightarrow> wf_definition \<Rightarrow> string \<Rightarrow> 64 word \<Rightarrow> 'h \<Rightarrow>
    (string + wf_run) \<times> 'h \<times> 'h exec_call list" where
  "run_workflow H d rid gen h = (case wd_validate d of
     Inl e \<Rightarrow> (Err e, h, [])
   | Inr _ \<Rightarrow> (case validate_graph (host_text H) d of
        Inl es \<Rightarrow> (Err (join_str ''; '' (map definition_error_text es)), h, [])
      | Inr _ \<Rightarrow>
         (case advance H d gen False \<lparr>wk_run = (fresh_run d rid)\<lparr>wr_status := WrRunning\<rparr>, wk_host = h, wk_calls = []\<rparr> of
            (r, w) \<Rightarrow> (map_sum id (\<lambda>_. wk_run w) r, wk_host w, wk_calls w))))"

definition resume_workflow :: "'h workflow_host \<Rightarrow> wf_definition \<Rightarrow> wf_run \<Rightarrow> 64 word \<Rightarrow> 'h \<Rightarrow>
    (string + wf_run) \<times> 'h \<times> 'h exec_call list" where
  "resume_workflow H d run gen h =
     (if wr_status run \<noteq> WrPaused then (Err ''only paused runs can resume'', h, [])
      else case advance H d gen True
             \<lparr>wk_run = run\<lparr>wr_status := WrRunning, wr_paused := None\<rparr>, wk_host = h, wk_calls = []\<rparr> of
        (r, w) \<Rightarrow> (map_sum id (\<lambda>_. wk_run w) r, wk_host w, wk_calls w))"

section \<open>What a resolved action is\<close>

text \<open>
  The command a host shows for a reference when it is left in the state \<open>h\<close>: the one of the
  session, or the first one with the referenced provider and id of the provider's answer to a fresh
  query.
\<close>

definition host_offers :: "'h workflow_host \<Rightarrow> action_reference \<Rightarrow> 'h \<Rightarrow> command \<Rightarrow> bool" where
  "host_offers H r h c \<longleftrightarrow> host_in_session H h (rf_provider r) (rf_command r) = Some c
     \<or> (\<exists>g cs. host_fresh_query H g (rf_provider r) = (Ok cs, h)
          \<and> find (\<lambda>c. cmd_provider c = rf_provider r \<and> cmd_id c = rf_command r) cs = Some c)"

text \<open>The action as published, with the step's input in place of its payload unless that is null.\<close>

definition published_with :: "json \<Rightarrow> action \<Rightarrow> action \<Rightarrow> bool" where
  "published_with v a0 a \<longleftrightarrow> a = (if json_is_null v then a0 else a0\<lparr>ac_payload := Some (PlJson v)\<rparr>)
     \<and> (\<forall>p. ac_payload a0 = Some (PlJson p) \<longrightarrow> \<not> json_is_null v \<longrightarrow> identity_mismatch p v = [])"

text \<open>What a step may hand to the host: for a reference, the action the offered command publishes
  under the referenced id, to the provider of that command when it is a plugin action; for an inline
  descriptor that requires no capability, the action the descriptor resolves to with the step's
  input, never a plugin action. A disabled action is never handed over.\<close>

definition allowed_action :: "'h workflow_host \<Rightarrow> wf_step \<Rightarrow> json option \<Rightarrow> 'h \<Rightarrow> action \<Rightarrow> string option \<Rightarrow> bool" where
  "allowed_action H s vars h a prov \<longleftrightarrow> ac_disabled a = None \<and>
     (let v = materialized H vars (ws_input s) in
      case ws_action s of
        Reference r \<Rightarrow> (\<exists>c a0. host_offers H r h c \<and> published r c = Some a0 \<and> published_with v a0 a
           \<and> prov = (if ac_kind a0 = ActPluginInvoke then Some (cmd_provider c) else None))
      | Inline d \<Rightarrow> de_requires d = [] \<and> ac_kind a \<noteq> ActPluginInvoke \<and> prov = None
           \<and> (\<exists>a0. resolve_descriptor (if json_is_null v then d else d\<lparr>de_input := v\<rparr>) [] = Ok a0
                \<and> a = a0\<lparr>ac_id := Some (de_id d), ac_title := de_title d\<rparr>))"

text \<open>The call as the host got it.\<close>

definition executed_as :: "'h workflow_host \<Rightarrow> 64 word \<Rightarrow> 'h exec_call \<Rightarrow> bool" where
  "executed_as H gen c \<longleftrightarrow> xc_ok c = is_ok (fst (host_execute H (xc_host c)
     ((xc_action c)\<lparr>ac_confirm := False\<rparr>) (xc_provider c) gen (xc_confirmed c)))"

lemma resolve_inline_Ok:
  assumes "resolve_inline mat d = Ok rs"
  shows "de_requires d = [] \<and> ac_kind (rs_action rs) \<noteq> ActPluginInvoke \<and> rs_provider rs = None
    \<and> (\<exists>a0. resolve_descriptor (if json_is_null mat then d else d\<lparr>de_input := mat\<rparr>) [] = Ok a0
         \<and> rs_action rs = a0\<lparr>ac_id := Some (de_id d), ac_title := de_title d\<rparr>)"
proof -
  let ?d = "if json_is_null mat then d else d\<lparr>de_input := mat\<rparr>"
  from assms obtain a where r: "resolve_descriptor ?d [] = Ok a"
    and act: "rs_action rs = a\<lparr>ac_id := Some (de_id d), ac_title := de_title d\<rparr>" "rs_provider rs = None"
    by (auto simp: resolve_inline_def split: sum.splits)
  from r have a: "resolve_descriptor_for ?d [] None = Ok a" by (simp add: resolve_descriptor_def)
  have rs: "ac_kind (rs_action rs) = ac_kind a" by (simp add: act)
  have "set (de_requires ?d) \<subseteq> set []" by (rule resolve_descriptor_for_Ok(1) [OF a])
  moreover have "ac_kind a \<noteq> ActPluginInvoke" using resolve_descriptor_for_Ok(2) [OF a] by auto
  ultimately show ?thesis using rs r act by (auto split: if_splits)
qed

lemma published_id: "published r c = Some a \<Longrightarrow> a \<in> set (cmd_actions c) \<and> ac_id a = Some (rf_action r)"
  by (auto simp: published_def find_Some_iff)

lemma resolve_reference_Ok:
  "resolve_reference H r h = (Ok rr, h') \<Longrightarrow> published r (rr_command rr) = Some (rr_action rr)
    \<and> host_offers H r h' (rr_command rr)"
  by (fastforce simp: resolve_reference_def fresh_reference_def bind_eq_Some_conv host_offers_def
      split: option.splits prod.splits sum.splits)

lemma bind_input_Ok:
  assumes "bind_input mat rr = Ok rs"
  shows "published_with mat (rr_action rr) (rs_action rs)"
    "rs_provider rs = (if ac_kind (rr_action rr) = ActPluginInvoke then Some (cmd_provider (rr_command rr)) else None)"
  using assms by (auto simp: bind_input_def published_with_def Let_def
      split: if_splits option.splits action_payload.splits)

lemma resolve_step_allowed:
  assumes "resolve_step H s (materialized H vars (ws_input s)) h = (Ok rs, h')"
  shows "allowed_action H s vars h' (rs_action rs) (rs_provider rs)"
proof (cases "ws_action s")
  case (Reference r)
  let ?mat = "materialized H vars (ws_input s)"
  from Reference assms obtain rr where rr: "resolve_reference H r h = (Ok rr, h')"
    and rs: "refuse_disabled (bind_input ?mat rr) = Ok rs"
    by (auto simp: resolve_step_def split: prod.splits sum.splits)
  from rs have b: "bind_input ?mat rr = Ok rs" "ac_disabled (rs_action rs) = None"
    by (auto simp: refuse_disabled_def split: sum.splits option.splits)
  with resolve_reference_Ok [OF rr] bind_input_Ok [OF b(1)] Reference show ?thesis
    by (auto simp: allowed_action_def Let_def)
next
  case (Inline d)
  with assms have "refuse_disabled (resolve_inline (materialized H vars (ws_input s)) d) = Ok rs"
    by (simp add: resolve_step_def)
  then have "resolve_inline (materialized H vars (ws_input s)) d = Ok rs" "ac_disabled (rs_action rs) = None"
    by (auto simp: refuse_disabled_def split: sum.splits option.splits)
  with resolve_inline_Ok Inline show ?thesis by (fastforce simp: allowed_action_def Let_def)
qed

section \<open>The calls of one step\<close>

definition call_allowed :: "'h workflow_host \<Rightarrow> 64 word \<Rightarrow> wf_definition \<Rightarrow> bool \<Rightarrow> 'h exec_call \<Rightarrow> bool" where
  "call_allowed H gen d confirmed c \<longleftrightarrow> xc_confirmed c = confirmed \<and> (ac_confirm (xc_action c) \<longrightarrow> confirmed)
     \<and> allowed_action H (wd_steps d ! xc_step c) (xc_variables c) (xc_host c) (xc_action c) (xc_provider c)
     \<and> executed_as H gen c"

text \<open>How often a step may be executed: as often as configured, or three times where the failure
  policy answers some failure with a new resolution.\<close>

definition attempt_bound :: "wf_definition \<Rightarrow> wf_step \<Rightarrow> nat" where
  "attempt_bound d s =
     max (if \<exists>c. policy_for d s c = FaReResolve then 3 else 1) (unat (max_attempts_of d s))"

text \<open>The calls one execution of the step adds: only the last can have succeeded.\<close>

definition call_block :: "'h workflow_host \<Rightarrow> 64 word \<Rightarrow> wf_definition \<Rightarrow> bool \<Rightarrow> nat \<Rightarrow> 'h exec_call list \<Rightarrow> bool" where
  "call_block H gen d confirmed idx cs \<longleftrightarrow>
     (\<forall>c \<in> set cs. xc_step c = idx \<and> call_allowed H gen d confirmed c) \<and> (\<forall>c \<in> set (butlast cs). \<not> xc_ok c)"

definition step_result :: "bool \<Rightarrow> step_outcome \<Rightarrow> step_run \<Rightarrow> 'h exec_call list \<Rightarrow> bool" where
  "step_result confirmed out sr new \<longleftrightarrow>
     (out = OutNext \<longrightarrow> step_done sr) \<and> (out = OutFailed \<longrightarrow> sr_status sr = SrFailed)
     \<and> (out = OutPaused \<longrightarrow> sr_status sr = SrWaitingForConfirmation \<and> \<not> confirmed)
     \<and> (sr_status sr = SrComplete \<longleftrightarrow> new \<noteq> [] \<and> xc_ok (last new))"

lemma call_block_Cons:
  "call_block H gen d confirmed idx new \<Longrightarrow> xc_step c = idx \<Longrightarrow> call_allowed H gen d confirmed c \<Longrightarrow> \<not> xc_ok c \<Longrightarrow>
    call_block H gen d confirmed idx (c # new)"
  by (auto simp: call_block_def)

lemma step_result_Cons:
  "step_result confirmed out sr new \<Longrightarrow> \<not> xc_ok c \<Longrightarrow> step_result confirmed out sr (c # new)"
  by (auto simp: step_result_def)

text \<open>What one attempt does once an action is resolved.\<close>

definition resolved_run :: "64 word \<Rightarrow> resolved_step \<Rightarrow> step_run \<Rightarrow> step_run" where
  "resolved_run gen rs sr = (if rs_command rs = None then sr else sr\<lparr>sr_generation := Some gen\<rparr>)\<lparr>sr_status := SrResolved\<rparr>"

definition failed_run :: "64 word \<Rightarrow> resolved_step \<Rightarrow> wf_failure \<Rightarrow> step_run \<Rightarrow> step_run" where
  "failed_run gen rs f sr = (resolved_run gen rs sr)
     \<lparr>sr_status := SrExecuting, sr_error := Some (wf_reason f), sr_execution := wf_execution f\<rparr>"

definition next_attempt :: "step_run \<Rightarrow> step_run" where
  "next_attempt sr = sr\<lparr>sr_status := SrResolving, sr_attempt := sr_attempt sr + 1\<rparr>"

definition tries_again :: "wf_definition \<Rightarrow> wf_step \<Rightarrow> wf_failure \<Rightarrow> step_run \<Rightarrow> bool" where
  "tries_again d s f sr \<longleftrightarrow>
     policy_for d s (wf_class f) = FaRetry \<and> sr_attempt sr < max_attempts_of d s
     \<or> policy_for d s (wf_class f) = FaReResolve \<and> sr_attempt sr \<le> 2"

lemma run_frames [simp]:
  "sr_attempt (failed_run gen rs f sr) = sr_attempt sr" "sr_step (failed_run gen rs f sr) = sr_step sr"
  "sr_attempt (resolved_run gen rs sr) = sr_attempt sr" "sr_step (resolved_run gen rs sr) = sr_step sr"
  "sr_attempt (next_attempt sr) = sr_attempt sr + 1" "sr_step (next_attempt sr) = sr_step sr"
  "sr_status (failed_run gen rs f sr) = SrExecuting"
  by (simp_all add: failed_run_def resolved_run_def next_attempt_def)

lemma attempt_step_ways:
  assumes "resolve_loop H d s (materialized H vars (ws_input s)) 0 sr h = (Ok rs, sr1, h1)"
  shows "ac_confirm (rs_action rs) \<and> \<not> confirmed \<Longrightarrow>
      attempt_step H d s vars idx gen confirmed sr h calls = (OutPaused, (resolved_run gen rs sr1)
        \<lparr>sr_status := SrWaitingForConfirmation, sr_error := Some ''confirmation required''\<rparr>, h1, calls)"
    and "\<not> (ac_confirm (rs_action rs) \<and> \<not> confirmed) \<Longrightarrow>
      host_execute H h1 ((rs_action rs)\<lparr>ac_confirm := False\<rparr>) (rs_provider rs) gen confirmed = (Ok outcome, h2) \<Longrightarrow>
      attempt_step H d s vars idx gen confirmed sr h calls =
        (OutNext, (resolved_run gen rs sr1)\<lparr>sr_status := SrComplete, sr_execution := eo_execution outcome,
           sr_generation := Some gen, sr_output := eo_plugin_result outcome\<rparr>, h2,
         calls @ [new_call idx rs vars h1 confirmed True])"
    and "\<not> (ac_confirm (rs_action rs) \<and> \<not> confirmed) \<Longrightarrow>
      host_execute H h1 ((rs_action rs)\<lparr>ac_confirm := False\<rparr>) (rs_provider rs) gen confirmed = (Err f, h2) \<Longrightarrow>
      attempt_step H d s vars idx gen confirmed sr h calls =
        (let sr3 = failed_run gen rs f sr1;
             calls = calls @ [new_call idx rs vars h1 confirmed False]
         in if tries_again d s f sr3 then attempt_step H d s vars idx gen confirmed (next_attempt sr3) h2 calls
            else if policy_for d s (wf_class f) = FaSkip then (OutNext, sr3\<lparr>sr_status := SrSkipped\<rparr>, h2, calls)
            else (OutFailed, sr3\<lparr>sr_status := SrFailed\<rparr>, h2, calls))"
  by (subst attempt_step.simps, use assms in \<open>auto simp: resolved_run_def failed_run_def next_attempt_def
      tries_again_def Let_def\<close>)+

text \<open>The induction over the attempts, with the cases of \<open>attempt_step_ways\<close>.\<close>

lemma closer: "(b::nat) < m \<Longrightarrow> a \<le> b \<Longrightarrow> m - Suc b < m - a"
  by arith

lemma attempt_step_induct:
  fixes H :: "'h workflow_host" and calls :: "'h exec_call list"
  assumes "\<And>sr h calls. (\<And>rs sr1 h1 f h2 c.
      resolve_loop H d s (materialized H vars (ws_input s)) 0 sr h = (Ok rs, sr1, h1) \<Longrightarrow>
      tries_again d s f (failed_run gen rs f sr1) \<Longrightarrow> P (next_attempt (failed_run gen rs f sr1)) h2 (calls @ [c])) \<Longrightarrow> P sr h (calls :: 'h exec_call list)"
  shows "P sr h calls"
proof (induction "max 3 (unat (max_attempts_of d s)) - unat (sr_attempt sr)" arbitrary: sr h calls rule: less_induct)
  case less
  show ?case
  proof (rule assms, goal_cases)
    case (1 rs sr1 h1 f h2 c)
    then have "unat (sr_attempt sr1 + 1) = Suc (unat (sr_attempt sr1))"
      "unat (sr_attempt sr1) < max 3 (unat (max_attempts_of d s))"
      by (auto simp: tries_again_def word_less_nat_alt word_le_nat_alt unat_incr_nat unat_incr_small)
    moreover have "unat (sr_attempt sr) \<le> unat (sr_attempt sr1)" using resolve_loop_frame [OF 1(1)] by simp
    ultimately show ?case
      by (intro less) (simp add: closer)
  qed
qed

lemma attempt_step_calls:
  assumes s: "s = wd_steps d ! idx"
  shows "attempt_step H d s vars idx gen confirmed sr h calls = (out, sr', h', calls') \<Longrightarrow>
    \<exists>new. calls' = calls @ new \<and> call_block H gen d confirmed idx new \<and> step_result confirmed out sr' new
      \<and> length new \<le> Suc (attempt_bound d s - unat (sr_attempt sr)) \<and> sr_step sr' = sr_step sr"
proof (induction sr h calls rule: attempt_step_induct [where H = H and d = d and s = s and vars = vars and gen = gen])
  case (1 sr h calls)
  obtain r sr1 h1 where loop: "resolve_loop H d s (materialized H vars (ws_input s)) 0 sr h = (r, sr1, h1)"
    by (cases "resolve_loop H d s (materialized H vars (ws_input s)) 0 sr h") auto
  note frame = resolve_loop_frame [OF loop]
  show ?case
  proof (cases r)
    case (Inl o')
    with "1.prems" loop frame show ?thesis
      by (auto simp: attempt_step.simps [of H d s vars idx gen confirmed sr h calls] call_block_def step_result_def step_done_def)
  next
    case (Inr rs)
    then obtain g where "resolve_step H s (materialized H vars (ws_input s)) g = (Ok rs, h1)"
      using frame by auto
    then have allowed: "allowed_action H s vars h1 (rs_action rs) (rs_provider rs)"
      by (rule resolve_step_allowed)
    note loop = loop [unfolded Inr]
    let ?call = "new_call idx rs vars h1 confirmed"
    show ?thesis
    proof (cases "ac_confirm (rs_action rs) \<and> \<not> confirmed")
      case True
      with "1.prems" attempt_step_ways(1) [OF loop True, of idx gen calls] frame show ?thesis
        by (simp add: call_block_def step_result_def)
    next
      case go: False
      obtain e h2 where e: "host_execute H h1 ((rs_action rs)\<lparr>ac_confirm := False\<rparr>) (rs_provider rs) gen confirmed = (e, h2)"
        by (cases "host_execute H h1 ((rs_action rs)\<lparr>ac_confirm := False\<rparr>) (rs_provider rs) gen confirmed")
      have call: "call_allowed H gen d confirmed (?call (is_ok e))"
        using go allowed s e by (auto simp: call_allowed_def executed_as_def)
      show ?thesis
      proof (cases e)
        case (Inr outcome)
        from "1.prems" attempt_step_ways(2) [OF loop go e [unfolded Inr], of idx calls] frame call Inr show ?thesis
          by (auto simp: call_block_def step_result_def step_done_def)
      next
        case (Inl f)
        note step = attempt_step_ways(3) [OF loop go e [unfolded Inl], of idx calls, unfolded Let_def]
        let ?sr3 = "failed_run gen rs f sr1"
        show ?thesis
        proof (cases "tries_again d s f ?sr3")
          case True
          with step "1.prems" have "attempt_step H d s vars idx gen confirmed (next_attempt ?sr3) h2 (calls @ [?call False])
            = (out, sr', h', calls')" by simp
          from "1.IH" [OF loop True this] obtain new where new: "calls' = calls @ ?call False # new"
            "call_block H gen d confirmed idx new" "step_result confirmed out sr' new"
            "length new \<le> Suc (attempt_bound d s - unat (sr_attempt sr1 + 1))" "sr_step sr' = sr_step sr"
            using frame by auto
          have "unat (sr_attempt sr1 + 1) = Suc (unat (sr_attempt sr1))" "unat (sr_attempt sr1) < attempt_bound d s"
            using True by (auto simp: tries_again_def attempt_bound_def less_max_iff_disj word_less_nat_alt word_le_nat_alt
                unat_incr_nat unat_incr_small)
          moreover have "unat (sr_attempt sr) \<le> unat (sr_attempt sr1)" using frame by simp
          ultimately have "length (?call False # new) \<le> Suc (attempt_bound d s - unat (sr_attempt sr))"
            using new(4) by simp
          then show ?thesis using new call Inl
            by (intro exI [of _ "?call False # new"]) (simp add: call_block_Cons step_result_Cons)
        next
          case False
          with "1.prems" step frame call Inl show ?thesis
            by (auto simp: call_block_def step_result_def step_done_def split: if_splits)
        qed
      qed
    qed
  qed
qed

section \<open>The calls of a walk\<close>

definition calls_of :: "nat \<Rightarrow> 'h exec_call list \<Rightarrow> 'h exec_call list" where
  "calls_of i calls = filter (\<lambda>c. xc_step c = i) calls"

lemma calls_of_block: "call_block H gen d confirmed idx new \<Longrightarrow> calls_of i new = (if i = idx then new else [])"
  by (auto simp: calls_of_def call_block_def filter_empty_conv filter_id_conv)

lemma calls_of_append [simp]: "calls_of i (xs @ ys) = calls_of i xs @ calls_of i ys"
  by (simp add: calls_of_def)

text \<open>What a turn of the loop does to the run: one step run is replaced, and its calls are appended.\<close>

definition turn_facts :: "'h workflow_host \<Rightarrow> 64 word \<Rightarrow> wf_definition \<Rightarrow> bool \<Rightarrow> nat \<Rightarrow> step_run list \<Rightarrow> step_run list \<Rightarrow> 'h exec_call list \<Rightarrow> bool" where
  "turn_facts H gen d confirmed idx steps steps' new \<longleftrightarrow>
     (\<exists>sr. steps' = steps[idx := sr] \<and> sr_step sr = sr_step (steps ! idx) \<and> call_block H gen d confirmed idx new
       \<and> length new \<le> Suc (attempt_bound d (wd_steps d ! idx) - unat (sr_attempt (steps ! idx) + 1))
       \<and> (step_done (steps ! idx) \<longrightarrow> new = [] \<and> sr = steps ! idx)
       \<and> (sr_status sr = SrComplete \<longrightarrow> step_done (steps ! idx) \<or> new \<noteq> [] \<and> xc_ok (last new)))"

definition ends_badly :: "bool \<Rightarrow> nat \<Rightarrow> wf_run \<Rightarrow> bool" where
  "ends_badly confirmed idx run \<longleftrightarrow> wr_status run = WrFailed
     \<or> wr_status run = WrPaused \<and> \<not> confirmed \<and> sr_status (wr_steps run ! idx) = SrWaitingForConfirmation"

lemma set_step_simps [simp]:
  "wr_steps (set_step idx sr run) = (wr_steps run)[idx := sr]" "wr_status (set_step idx sr run) = wr_status run"
  "wr_variables (set_step idx sr run) = wr_variables run"
  by (simp_all add: set_step_def)

lemma fail_run_simps [simp]:
  "wr_steps (fail_run idx e run) = (wr_steps run)[idx := (wr_steps run ! idx)\<lparr>sr_status := SrFailed, sr_error := Some e\<rparr>]"
  "wr_status (fail_run idx e run) = WrFailed"
  by (simp_all add: fail_run_def)

lemma walk_step_closed:
  assumes "walk_step H d gen confirmed idx w = (r, w')" and idx: "idx < length (wr_steps (wk_run w))"
    and "step_done (wr_steps (wk_run w) ! idx) \<or> condition_gate (host_text H) (wd_steps d ! idx) (wr_variables (wk_run w)) \<noteq> GateOpen"
  shows "wk_calls w' = wk_calls w \<and> turn_facts H gen d confirmed idx (wr_steps (wk_run w)) (wr_steps (wk_run w')) []
    \<and> (r = Inl (Ok ()) \<longrightarrow> ends_badly confirmed idx (wk_run w'))
    \<and> (\<forall>n. r = Inr n \<longrightarrow> step_done (wr_steps (wk_run w') ! idx))"
proof (cases "step_done (wr_steps (wk_run w) ! idx)")
  case True
  with assms(1) show ?thesis
    by (auto simp: walk_step_def Let_def step_done_def turn_facts_def call_block_def
        intro: exI [of _ "wr_steps (wk_run w) ! idx"])
next
  case False
  with assms show ?thesis
    by (auto simp: walk_step_def Let_def step_done_def turn_facts_def call_block_def ends_badly_def
        split: gate.splits intro: exI [of _ "wr_steps (wk_run w) ! idx"])
qed

lemma walk_step_open:
  assumes walk: "walk_step H d gen confirmed idx w = (r, w')" and idx: "idx < length (wr_steps (wk_run w))"
    and undone: "\<not> step_done (wr_steps (wk_run w) ! idx)"
    and gate: "condition_gate (host_text H) (wd_steps d ! idx) (wr_variables (wk_run w)) = GateOpen"
  shows "\<exists>new. wk_calls w' = wk_calls w @ new \<and> turn_facts H gen d confirmed idx (wr_steps (wk_run w)) (wr_steps (wk_run w')) new
    \<and> (r = Inl (Ok ()) \<longrightarrow> ends_badly confirmed idx (wk_run w'))
    \<and> (\<forall>n. r = Inr n \<longrightarrow> step_done (wr_steps (wk_run w') ! idx))"
proof -
  let ?s = "wd_steps d ! idx" and ?sr = "wr_steps (wk_run w) ! idx"
  obtain out sr h calls where ex: "execute_step H d ?s (wr_variables (wk_run w)) idx gen confirmed ?sr (wk_host w) (wk_calls w)
      = (out, sr, h, calls)"
    by (cases "execute_step H d ?s (wr_variables (wk_run w)) idx gen confirmed ?sr (wk_host w) (wk_calls w)")
  from attempt_step_calls [OF refl ex [unfolded execute_step_def]] obtain new
    where new: "calls = wk_calls w @ new" "call_block H gen d confirmed idx new" "step_result confirmed out sr new"
      "length new \<le> Suc (attempt_bound d ?s - unat (sr_attempt ?sr + 1))" "sr_step sr = sr_step ?sr"
    by auto
  have facts: "turn_facts H gen d confirmed idx (wr_steps (wk_run w)) ((wr_steps (wk_run w))[idx := sr']) new"
    if "sr_step sr' = sr_step sr" "sr_status sr' = SrComplete \<longrightarrow> sr_status sr = SrComplete" for sr'
    using new that undone unfolding turn_facts_def step_result_def by (intro exI [of _ sr']) simp
  show ?thesis
    using walk undone gate ex idx new(1,3) facts [of sr] facts [of "sr\<lparr>sr_status := SrFailed, sr_error := e\<rparr>" for e]
    by (cases out; cases "bind_output ?s sr (wr_variables (wk_run w))")
      (auto simp: walk_step_def Let_def step_done_def ends_badly_def step_result_def)
qed

lemma walk_step_turn:
  assumes "walk_step H d gen confirmed idx w = (r, w')" "idx < length (wr_steps (wk_run w))"
  shows "\<exists>new. wk_calls w' = wk_calls w @ new \<and> turn_facts H gen d confirmed idx (wr_steps (wk_run w)) (wr_steps (wk_run w')) new
    \<and> (r = Inl (Ok ()) \<longrightarrow> ends_badly confirmed idx (wk_run w'))
    \<and> (\<forall>n. r = Inr n \<longrightarrow> step_done (wr_steps (wk_run w') ! idx))"
  using walk_step_closed [OF assms] walk_step_open [OF assms]
  by (cases "step_done (wr_steps (wk_run w) ! idx) \<or> condition_gate (host_text H) (wd_steps d ! idx) (wr_variables (wk_run w)) \<noteq> GateOpen")
    auto

text \<open>The account of a walk so far, against the step runs it started from.\<close>

definition step_account :: "'h workflow_host \<Rightarrow> 64 word \<Rightarrow> wf_definition \<Rightarrow> bool \<Rightarrow> step_run list \<Rightarrow> step_run list \<Rightarrow> 'h exec_call list \<Rightarrow> nat \<Rightarrow> bool" where
  "step_account H gen d confirmed steps0 steps calls i \<longleftrightarrow>
     call_block H gen d confirmed i (calls_of i calls)
     \<and> length (calls_of i calls) \<le> Suc (attempt_bound d (wd_steps d ! i) - unat (sr_attempt (steps0 ! i) + 1))
     \<and> (step_done (steps0 ! i) \<longrightarrow> calls_of i calls = [])
     \<and> sr_step (steps ! i) = sr_step (steps0 ! i)
     \<and> (sr_status (steps ! i) = SrComplete \<longrightarrow>
          step_done (steps0 ! i) \<or> calls_of i calls \<noteq> [] \<and> xc_ok (last (calls_of i calls)))"

definition walk_account :: "'h workflow_host \<Rightarrow> 64 word \<Rightarrow> wf_definition \<Rightarrow> bool \<Rightarrow> step_run list \<Rightarrow> step_run list \<Rightarrow> 'h exec_call list \<Rightarrow> bool" where
  "walk_account H gen d confirmed steps0 steps calls \<longleftrightarrow> length steps = length steps0
     \<and> (\<forall>c \<in> set calls. xc_step c < length steps0)
     \<and> (\<forall>i < length steps0. step_account H gen d confirmed steps0 steps calls i)"

definition untouched :: "step_run list \<Rightarrow> step_run list \<Rightarrow> 'h exec_call list \<Rightarrow> bool" where
  "untouched steps0 steps calls \<longleftrightarrow> (\<forall>i < length steps0.
     (\<not> step_done (steps ! i) \<longrightarrow> steps ! i = steps0 ! i \<and> calls_of i calls = [])
     \<and> (step_done (steps0 ! i) \<longrightarrow> steps ! i = steps0 ! i))"

lemma walk_account_start:
  fixes H :: "'h workflow_host"
  shows "walk_account H gen d confirmed steps steps []
    \<and> untouched steps steps ([] :: 'h exec_call list)"
  by (auto simp: walk_account_def untouched_def step_account_def calls_of_def call_block_def step_done_def)

lemma turn_account:
  assumes acc: "walk_account H gen d confirmed steps0 steps calls" and unt: "untouched steps0 steps calls"
    and turn: "turn_facts H gen d confirmed idx steps steps' new" and idx: "idx < length steps"
  shows "walk_account H gen d confirmed steps0 steps' (calls @ new)"
    and "step_done (steps' ! idx) \<Longrightarrow> untouched steps0 steps' (calls @ new)"
proof -
  from turn obtain sr where sr: "steps' = steps[idx := sr]" "sr_step sr = sr_step (steps ! idx)"
    "call_block H gen d confirmed idx new"
    "length new \<le> Suc (attempt_bound d (wd_steps d ! idx) - unat (sr_attempt (steps ! idx) + 1))"
    "step_done (steps ! idx) \<longrightarrow> new = [] \<and> sr = steps ! idx"
    "sr_status sr = SrComplete \<longrightarrow> step_done (steps ! idx) \<or> new \<noteq> [] \<and> xc_ok (last new)"
    unfolding turn_facts_def by blast
  have len: "length steps = length steps0" using acc by (simp add: walk_account_def)
  note block = calls_of_block [OF sr(3)]
  have here: "step_account H gen d confirmed steps0 steps' (calls @ new) idx"
  proof (cases "step_done (steps ! idx)")
    case True
    with sr idx have "steps' = steps" "new = []" by simp_all
    with acc idx len show ?thesis by (simp add: walk_account_def)
  next
    case False
    have "idx < length steps0" using idx len by simp
    with unt False have old: "steps0 ! idx = steps ! idx" "calls_of idx calls = []"
      unfolding untouched_def by metis+
    have "steps' ! idx = sr" "calls_of idx (calls @ new) = new" using sr(1) idx block [of idx] old(2) by simp_all
    with sr(2-4,6) False show ?thesis unfolding step_account_def old(1) by simp
  qed
  have there: "step_account H gen d confirmed steps0 steps' (calls @ new) i" if "i < length steps0" "i \<noteq> idx" for i
    using acc that sr(1) block by (simp add: walk_account_def step_account_def)
  have "\<forall>c \<in> set new. xc_step c = idx" using sr(3) by (simp add: call_block_def)
  with acc idx len have "\<forall>c \<in> set (calls @ new). xc_step c < length steps0"
    by (auto simp: walk_account_def)
  moreover have "step_account H gen d confirmed steps0 steps' (calls @ new) i" if "i < length steps0" for i
    using here there that by (cases "i = idx") simp_all
  ultimately show "walk_account H gen d confirmed steps0 steps' (calls @ new)"
    using sr(1) len by (simp add: walk_account_def)
  assume "step_done (steps' ! idx)"
  have "(\<not> step_done (steps' ! i) \<longrightarrow> steps' ! i = steps0 ! i \<and> calls_of i (calls @ new) = [])
     \<and> (step_done (steps0 ! i) \<longrightarrow> steps' ! i = steps0 ! i)" if "i < length steps0" for i
  proof (cases "i = idx")
    case True
    have "step_done (steps0 ! idx) \<longrightarrow> steps ! idx = steps0 ! idx" using unt that True unfolding untouched_def by blast
    with sr(1,5) idx have "step_done (steps0 ! idx) \<longrightarrow> steps' ! idx = steps0 ! idx"
      by (metis nth_list_update_eq)
    with True \<open>step_done (steps' ! idx)\<close> show ?thesis by blast
  next
    case False
    then have same: "steps' ! i = steps ! i" "calls_of i (calls @ new) = calls_of i calls"
      using sr(1) block by simp_all
    show ?thesis unfolding same by (rule unt [unfolded untouched_def, THEN spec, THEN mp, OF that])
  qed
  then show "untouched steps0 steps' (calls @ new)" unfolding untouched_def by blast
qed

lemma account_map:
  assumes "walk_account H gen d confirmed steps0 steps calls"
    and "length steps' = length steps" "\<And>i. i < length steps \<Longrightarrow> sr_step (steps' ! i) = sr_step (steps ! i)
      \<and> (sr_status (steps' ! i) = SrComplete \<longrightarrow> sr_status (steps ! i) = SrComplete)"
  shows "walk_account H gen d confirmed steps0 steps' calls"
  using assms by (auto simp: walk_account_def step_account_def)

definition walk_verdict :: "bool \<Rightarrow> wf_run \<Rightarrow> bool" where
  "walk_verdict confirmed run \<longleftrightarrow>
     wr_status run = WrFailed \<or> wr_status run = WrSucceeded \<and> list_all step_done (wr_steps run)
     \<or> wr_status run = WrPaused \<and> \<not> confirmed \<and> (\<exists>sr \<in> set (wr_steps run). sr_status sr = SrWaitingForConfirmation)"

lemma finish_walk_verdict: "walk_verdict confirmed (finish_walk run)"
  by (simp add: walk_verdict_def finish_walk_def Let_def)

lemma walk_loop_account:
  "walk_loop H d gen confirmed executed current w = (r, w') \<Longrightarrow>
    walk_account H gen d confirmed steps0 (wr_steps (wk_run w)) (wk_calls w) \<Longrightarrow>
    untouched steps0 (wr_steps (wk_run w)) (wk_calls w) \<Longrightarrow>
    walk_account H gen d confirmed steps0 (wr_steps (wk_run w')) (wk_calls w')
    \<and> (r = Ok () \<longrightarrow> walk_verdict confirmed (wk_run w'))"
proof (induction H d gen confirmed executed current w rule: walk_loop.induct)
  case (1 H d gen confirmed executed current w)
  note unfold = walk_loop.simps [of H d gen confirmed executed _ w]
  show ?case
  proof (cases current)
    case None
    have "walk_account H gen d confirmed steps0 (wr_steps (finish_walk (wk_run w))) (wk_calls w)"
      by (rule account_map [OF "1.prems"(2)]) (simp_all add: finish_walk_def Let_def skip_pending_def)
    with None "1.prems"(1) finish_walk_verdict show ?thesis by (auto simp: unfold)
  next
    case (Some idx)
    show ?thesis
    proof (cases "idx \<ge> length (wr_steps (wk_run w)) \<or> executed + 1 > MAX_STEPS_PER_RUN")
      case True
      with Some "1.prems" show ?thesis
        by (auto simp: unfold walk_verdict_def nth_list_update intro!: account_map [OF "1.prems"(2)] split: if_splits)
    next
      case False
      then have idx: "\<not> idx \<ge> length (wr_steps (wk_run w))" "\<not> executed + 1 > MAX_STEPS_PER_RUN" by simp_all
      then have lt: "idx < length (wr_steps (wk_run w))" by simp
      obtain q w1 where q: "walk_step H d gen confirmed idx w = (q, w1)" by (cases "walk_step H d gen confirmed idx w")
      from walk_step_turn [OF q lt] obtain new where new: "wk_calls w1 = wk_calls w @ new"
        "turn_facts H gen d confirmed idx (wr_steps (wk_run w)) (wr_steps (wk_run w1)) new"
        "q = Inl (Ok ()) \<longrightarrow> ends_badly confirmed idx (wk_run w1)"
        "\<forall>n. q = Inr n \<longrightarrow> step_done (wr_steps (wk_run w1) ! idx)" by blast
      note acc = turn_account [OF "1.prems"(2,3) new(2) lt, folded new(1)]
      have len: "length (wr_steps (wk_run w1)) = length (wr_steps (wk_run w))" using new(2) by (auto simp: turn_facts_def)
      show ?thesis
      proof (cases q)
        case (Inl e)
        with "1.prems"(1) Some idx q have "r = e" "w' = w1" by (simp_all add: unfold)
        moreover have "walk_verdict confirmed (wk_run w1)" if "e = Ok ()"
          using new(3) Inl that lt len by (auto simp: walk_verdict_def ends_badly_def)
        ultimately show ?thesis using acc(1) by simp
      next
        case (Inr n)
        with "1.prems"(1) Some idx q have "walk_loop H d gen confirmed (executed + 1) n w1 = (r, w')" by (simp add: unfold)
        from "1.IH" [OF Some idx q [symmetric] Inr this acc(1)] acc(2) new(4) Inr show ?thesis by simp
      qed
    qed
  qed
qed

section \<open>Runs and resumed runs\<close>

lemma attempt_bound_fresh: "Suc (attempt_bound d s - unat (0 + 1 :: 32 word)) = attempt_bound d s"
  by (simp add: attempt_bound_def)

lemma advance_account:
  assumes "advance H d gen confirmed \<lparr>wk_run = run, wk_host = h, wk_calls = []\<rparr> = (r, w')"
  shows "walk_account H gen d confirmed (wr_steps run) (wr_steps (wk_run w')) (wk_calls w')"
    "r = Ok () \<Longrightarrow> walk_verdict confirmed (wk_run w')"
  using walk_loop_account [OF assms [unfolded advance_def], of "wr_steps run"]
    walk_account_start [of H gen d confirmed "wr_steps run"]
  by simp_all

lemma account_calls:
  assumes "walk_account H gen d confirmed steps0 steps calls"
  shows "c \<in> set calls \<Longrightarrow> call_allowed H gen d confirmed c"
    "i < length steps0 \<Longrightarrow> c \<in> set (butlast (calls_of i calls)) \<Longrightarrow> \<not> xc_ok c"
proof -
  show "call_allowed H gen d confirmed c" if c: "c \<in> set calls"
  proof -
    have "c \<in> set (calls_of (xc_step c) calls)" using c by (simp add: calls_of_def)
    moreover have "call_block H gen d confirmed (xc_step c) (calls_of (xc_step c) calls)"
      using assms c unfolding walk_account_def step_account_def by blast
    ultimately show ?thesis unfolding call_block_def by blast
  qed
  show "\<not> xc_ok c" if "i < length steps0" "c \<in> set (butlast (calls_of i calls))"
    using assms that by (simp add: walk_account_def step_account_def call_block_def)
qed

lemma run_workflow_account:
  assumes "run_workflow H d rid gen h = (r, h', calls)"
  shows "\<exists>steps. walk_account H gen d False (map fresh_step_run (wd_steps d)) steps calls
    \<and> (\<forall>run. r = Ok run \<longrightarrow> wr_steps run = steps \<and> walk_verdict False run)"
proof (cases "is_ok (wd_validate d) \<and> is_ok (validate_graph (host_text H) d)")
  case True
  let ?run = "(fresh_run d rid)\<lparr>wr_status := WrRunning\<rparr>"
  obtain q w where q: "advance H d gen False \<lparr>wk_run = ?run, wk_host = h, wk_calls = []\<rparr> = (q, w)"
    by (cases "advance H d gen False \<lparr>wk_run = ?run, wk_host = h, wk_calls = []\<rparr>")
  with True assms have "r = map_sum id (\<lambda>_. wk_run w) q" "calls = wk_calls w"
    by (auto simp: run_workflow_def is_ok_iff split: sum.splits)
  with advance_account [OF q] show ?thesis
    by (cases q) (auto simp: fresh_run_def intro: exI [of _ "wr_steps (wk_run w)"])
next
  case False
  with assms have "calls = []" "\<not> is_ok r" by (auto simp: run_workflow_def is_ok_iff split: sum.splits)
  then show ?thesis using walk_account_start by (metis is_ok_iff)
qed

lemma resume_workflow_account:
  assumes "resume_workflow H d run gen h = (r, h', calls)"
  shows "\<exists>steps. walk_account H gen d True (wr_steps run) steps calls
    \<and> (\<forall>run'. r = Ok run' \<longrightarrow> wr_steps run' = steps \<and> walk_verdict True run')"
proof (cases "wr_status run = WrPaused")
  case True
  let ?run = "run\<lparr>wr_status := WrRunning, wr_paused := None\<rparr>"
  obtain q w where q: "advance H d gen True \<lparr>wk_run = ?run, wk_host = h, wk_calls = []\<rparr> = (q, w)"
    by (cases "advance H d gen True \<lparr>wk_run = ?run, wk_host = h, wk_calls = []\<rparr>")
  with True assms have "r = map_sum id (\<lambda>_. wk_run w) q" "calls = wk_calls w"
    by (auto simp: resume_workflow_def)
  with advance_account [OF q] show ?thesis
    by (cases q) (auto intro: exI [of _ "wr_steps (wk_run w)"])
next
  case False
  with assms have "calls = []" "\<not> is_ok r" by (auto simp: resume_workflow_def)
  then show ?thesis using walk_account_start by (metis is_ok_iff)
qed

section \<open>Proposals\<close>

record action_proposal =
  pr_provider :: string
  pr_command :: string
  pr_action :: string
  pr_input :: json

definition to_step :: "action_proposal \<Rightarrow> string \<Rightarrow> wf_step" where
  "to_step p sid = \<lparr>ws_id = sid,
     ws_action = Reference \<lparr>rf_provider = pr_provider p, rf_command = pr_command p, rf_action = pr_action p\<rparr>,
     ws_input = pr_input p, ws_policy = default_step_policy, ws_condition = None, ws_output = None,
     ws_on_success = None, ws_on_failure = None, ws_on_condition_false = None\<rparr>"

definition proposal_steps :: "action_proposal list \<Rightarrow> wf_step list" where
  "proposal_steps ps = map (\<lambda>(i, p). to_step p (''step-'' @ nat_str i)) (zip [0..<length ps] ps)"

definition execute_proposals :: "'h workflow_host \<Rightarrow> action_proposal list \<Rightarrow> string \<Rightarrow> 64 word \<Rightarrow> 'h \<Rightarrow>
    (string + wf_run) \<times> 'h \<times> 'h exec_call list" where
  "execute_proposals H ps wid gen h =
     (let d = \<lparr>wd_id = wid, wd_version = 1, wd_name = wid, wd_steps = proposal_steps ps,
               wd_policy = default_policy, wd_entry = None\<rparr>
      in case wd_validate d of
           Inl e \<Rightarrow> (Err e, h, [])
         | Inr _ \<Rightarrow> run_workflow H d (''wr-'' @ wid) gen h)"

text \<open>Whatever the proposals say, an action that needs confirmation is not executed, and an executed
  action is one the host publishes under the proposal's id, on the command it names.\<close>

definition proposed :: "action_proposal \<Rightarrow> action_reference" where
  "proposed p = \<lparr>rf_provider = pr_provider p, rf_command = pr_command p, rf_action = pr_action p\<rparr>"

lemma execute_proposals_calls:
  assumes "execute_proposals H ps wid gen h = (r, h', calls)" "c \<in> set calls"
  shows "\<not> ac_confirm (xc_action c) \<and> ac_disabled (xc_action c) = None \<and> executed_as H gen c
    \<and> xc_step c < length ps
    \<and> (\<exists>cm a0. host_offers H (proposed (ps ! xc_step c)) (xc_host c) cm
         \<and> published (proposed (ps ! xc_step c)) cm = Some a0
         \<and> published_with (materialized H (xc_variables c) (pr_input (ps ! xc_step c))) a0 (xc_action c)
         \<and> xc_provider c = (if ac_kind a0 = ActPluginInvoke then Some (cmd_provider cm) else None))"
proof -
  let ?d = "\<lparr>wd_id = wid, wd_version = 1, wd_name = wid, wd_steps = proposal_steps ps,
               wd_policy = default_policy, wd_entry = None\<rparr>"
  from assms have "run_workflow H ?d (''wr-'' @ wid) gen h = (r, h', calls)"
    by (auto simp: execute_proposals_def Let_def split: sum.splits)
  from run_workflow_account [OF this] obtain steps
    where acc: "walk_account H gen ?d False (map fresh_step_run (wd_steps ?d)) steps calls" by blast
  have lt: "xc_step c < length ps" using acc assms(2) by (auto simp: walk_account_def proposal_steps_def)
  then have "ws_action (proposal_steps ps ! xc_step c) = Reference (proposed (ps ! xc_step c))"
    "ws_input (proposal_steps ps ! xc_step c) = pr_input (ps ! xc_step c)"
    by (simp_all add: proposal_steps_def to_step_def proposed_def)
  with account_calls(1) [OF acc assms(2)] lt show ?thesis
    by (simp add: call_allowed_def allowed_action_def Let_def)
qed

end
