(* ===== verification/RunnerSamples.thy ===== *)
theory RunnerSamples
  imports WfRunner
begin

text \<open>Concrete hosts and definitions for the runner: the inputs of the witnesses and of the findings.\<close>

definition ascii_letter :: "string \<Rightarrow> bool" where
  "ascii_letter s \<longleftrightarrow> (case s of [c] \<Rightarrow> c \<in> set ''abcdefghijklmnopqrstuvwxyzABCDEFGHIJKLMNOPQRSTUVWXYZ'' | _ \<Rightarrow> False)"

definition ascii_text :: rust_text where
  "ascii_text = \<lparr>alphabetic = ascii_letter, alphanumeric = (\<lambda>s. ascii_letter s \<or> ascii_digit s),
     read_f64 = (\<lambda>s. if s = ''1'' then Some (Fin 1) else None)\<rparr>"

definition open_action :: "string \<Rightarrow> bool \<Rightarrow> action" where
  "open_action aid confirm = \<lparr>ac_kind = ActOpen, ac_payload = Some (PlPath aid), ac_id = Some aid,
     ac_title = None, ac_disabled = None, ac_shortcut = None, ac_confirm = confirm\<rparr>"

text \<open>A command per id; the action of the command \<open>danger\<close> asks for confirmation. Executing the
  action \<open>flaky\<close> fails while the host's counter is positive.\<close>

definition shown_command :: "string \<Rightarrow> command" where
  "shown_command cid = \<lparr>cmd_id = cid, cmd_title = cid, cmd_subtitle = None, cmd_icon = None,
     cmd_provider = ''p'', cmd_score = Fin 1, cmd_keywords = [], cmd_category = CatCommand,
     cmd_actions = [open_action cid (cid = ''danger'')], cmd_target = None\<rparr>"

definition demo_host :: "nat workflow_host" where
  "demo_host = \<lparr>host_in_session = (\<lambda>n p c. Some (shown_command c)),
     host_fresh_query = (\<lambda>n p. (Ok [], n)),
     host_execute = (\<lambda>n a p g confirmed.
       if ac_id a = Some ''flaky'' \<and> n > 0 then (Err (new_failure ClTimeout ''timeout''), n - 1)
       else (Ok \<lparr>eo_execution = None, eo_plugin_result = None\<rparr>, n)),
     host_text = ascii_text, host_show_f64 = (\<lambda>_. [])\<rparr>"

definition plain_step :: "string \<Rightarrow> string \<Rightarrow> wf_step" where
  "plain_step sid cid = \<lparr>ws_id = sid,
     ws_action = Reference \<lparr>rf_provider = ''p'', rf_command = cid, rf_action = cid\<rparr>,
     ws_input = JNull, ws_policy = default_step_policy, ws_condition = None, ws_output = None,
     ws_on_success = None, ws_on_failure = None, ws_on_condition_false = None\<rparr>"

definition plain_definition :: "wf_step list \<Rightarrow> wf_definition" where
  "plain_definition ss = \<lparr>wd_id = ''w'', wd_version = 1, wd_name = ''w'', wd_steps = ss,
     wd_policy = default_policy, wd_entry = None\<rparr>"

definition flaky_definition :: wf_definition where
  "flaky_definition = plain_definition [plain_step ''s1'' ''flaky'', plain_step ''s2'' ''danger'']"

text \<open>A branch: \<open>a\<close> succeeds into \<open>c\<close>, whose action asks for confirmation; \<open>b\<close> is the other branch.\<close>

definition branch_definition :: wf_definition where
  "branch_definition = plain_definition
     [(plain_step ''a'' ''first'')\<lparr>ws_condition := Some \<lparr>co_expression = ''true''\<rparr>,
        ws_on_success := Some ''c'', ws_on_condition_false := Some ''b''\<rparr>,
      (plain_step ''b'' ''other'')\<lparr>ws_on_success := Some ''end''\<rparr>,
      plain_step ''c'' ''danger'']"

definition shell_definition :: wf_definition where
  "shell_definition = plain_definition
     [(plain_step ''s1'' ''x'')\<lparr>ws_action := Inline \<lparr>de_id = ''x'', de_title = None, de_type = ''system.execute'',
        de_input = JObject [(''command_line'', JString ''rm'')], de_requires = [], de_shortcut = None,
        de_confirmation = None\<rparr>\<rparr>]"

definition called_steps :: "(string + wf_run) \<times> 'h \<times> 'h exec_call list \<Rightarrow> (nat \<times> bool) list" where
  "called_steps r = map (\<lambda>c. (xc_step c, xc_ok c)) (snd (snd r))"

definition step_states :: "(string + wf_run) \<times> 'h \<times> 'h exec_call list \<Rightarrow> (workflow_run_status \<times> step_run_status list) option" where
  "step_states r = (case fst r of Inr run \<Rightarrow> Some (wr_status run, map sr_status (wr_steps run)) | Inl _ \<Rightarrow> None)"

definition resumed :: "wf_definition \<Rightarrow> nat \<Rightarrow> (string + wf_run) \<times> nat \<times> nat exec_call list" where
  "resumed d n = (case run_workflow demo_host d ''r'' 7 n of
     (Inr run, n', _) \<Rightarrow> resume_workflow demo_host d run 7 n' | (Inl e, n', cs) \<Rightarrow> (Inl e, n', cs))"

text \<open>A host whose every execution fails because the context is stale.\<close>

definition stale_host :: "nat workflow_host" where
  "stale_host = demo_host\<lparr>host_execute := (\<lambda>n a p g confirmed. (Err (new_failure ClStaleContext ''stale''), n + 1))\<rparr>"

definition one_step :: wf_definition where
  "one_step = plain_definition [plain_step ''s1'' ''first'']"

text \<open>A failure handler that only \<open>on_failure\<close> names.\<close>

definition handler_definition :: wf_definition where
  "handler_definition = plain_definition
     [(plain_step ''a'' ''first'')\<lparr>ws_on_success := Some ''end'', ws_on_failure := Some ''h''\<rparr>,
      plain_step ''h'' ''other'']"

text \<open>The runs of the samples, evaluated once.\<close>

abbreviation demo_run :: "wf_definition \<Rightarrow> nat \<Rightarrow> (string + wf_run) \<times> nat \<times> nat exec_call list" where
  "demo_run d n \<equiv> run_workflow demo_host d ''r'' 7 n"

lemma flaky_run:
  "called_steps (demo_run flaky_definition 1) = [(0, False), (0, True)]"
  "step_states (demo_run flaky_definition 1) = Some (WrPaused, [SrComplete, SrWaitingForConfirmation])"
  by code_simp+

lemma branch_run:
  "called_steps (demo_run branch_definition 0) = [(0, True)]"
  "step_states (demo_run branch_definition 0) = Some (WrPaused, [SrComplete, SrPending, SrWaitingForConfirmation])"
  "called_steps (resumed branch_definition 0) = [(1, True)]"
  "step_states (resumed branch_definition 0) = Some (WrFailed, [SrComplete, SrComplete, SrWaitingForConfirmation])"
  by code_simp+

lemma shell_run:
  "step_states (demo_run shell_definition 0) = Some (WrSucceeded, [SrComplete])"
  "map (\<lambda>c. (ac_kind (xc_action c), xc_confirmed c)) (snd (snd (demo_run shell_definition 0))) = [(ActExecute, False)]"
  by code_simp+

lemma stale_run:
  "called_steps (run_workflow stale_host one_step ''r'' 7 0) = [(0, False), (0, False), (0, False)]"
  "max_attempts_of one_step (wd_steps one_step ! 0) = 2"
  by code_simp+

definition demo_proposals :: "action_proposal list" where
  "demo_proposals = [\<lparr>pr_provider = ''p'', pr_command = ''first'', pr_action = ''first'', pr_input = JNull\<rparr>,
     \<lparr>pr_provider = ''p'', pr_command = ''danger'', pr_action = ''danger'', pr_input = JNull\<rparr>]"

section \<open>The workflow runner\<close>


text \<open>A definition in which every step can be entered is refused when one of them is entered by
  on_failure only.\<close>

lemma failure_handler_is_refused:
  "validate_graph ascii_text handler_definition = Err [UnreachableStep ''h'']"
  by code_simp

text \<open>C15: a fresh run, which nobody has confirmed, executes no action that asks for confirmation and no
  disabled one. Every action it hands to the host is what the step comes to in the state the host has
  at that call: for a reference, the action that the offered command (of the session, or of the
  provider's answer to a query, with the referenced provider and id) publishes under the referenced
  id, its payload replaced by the step's input at most, sent to the command's provider if it is a
  plugin action; for an inline descriptor, which then requires no capability, the action the
  descriptor resolves to with the step's input, never a plugin action.\<close>

theorem unconfirmed_run_is_safe:
  assumes "run_workflow H d rid gen h = (r, h', calls)" and "c \<in> set calls"
  shows "\<not> ac_confirm (xc_action c) \<and> \<not> xc_confirmed c \<and> ac_disabled (xc_action c) = None
    \<and> xc_step c < length (wd_steps d) \<and> executed_as H gen c
    \<and> (let s = wd_steps d ! xc_step c; v = materialized H (xc_variables c) (ws_input s) in
       case ws_action s of
         Reference rf \<Rightarrow> (\<exists>cm a0. host_offers H rf (xc_host c) cm \<and> published rf cm = Some a0
           \<and> published_with v a0 (xc_action c)
           \<and> xc_provider c = (if ac_kind a0 = ActPluginInvoke then Some (cmd_provider cm) else None))
       | Inline de \<Rightarrow> de_requires de = [] \<and> ac_kind (xc_action c) \<noteq> ActPluginInvoke \<and> xc_provider c = None
           \<and> (\<exists>a0. resolve_descriptor (if json_is_null v then de else de\<lparr>de_input := v\<rparr>) [] = Ok a0
                \<and> xc_action c = a0\<lparr>ac_id := Some (de_id de), ac_title := de_title de\<rparr>))"
proof -
  from run_workflow_account [OF assms(1)] obtain steps
    where acc: "walk_account H gen d False (map fresh_step_run (wd_steps d)) steps calls" by blast
  with assms(2) have "xc_step c < length (wd_steps d)" by (auto simp: walk_account_def)
  with account_calls(1) [OF acc assms(2)] show ?thesis
    by (simp add: call_allowed_def allowed_action_def Let_def)
qed

theorem unconfirmed_run_is_safe_witness:
  "map xc_step (snd (snd (demo_run flaky_definition 1))) = [0, 0]
    \<and> list_all (\<lambda>c. \<not> ac_confirm (xc_action c)) (snd (snd (demo_run flaky_definition 1)))"
proof
  have "map fst (called_steps (demo_run flaky_definition 1)) = [0, 0]" unfolding flaky_run by simp
  then show "map xc_step (snd (snd (demo_run flaky_definition 1))) = [0, 0]"
    by (simp add: called_steps_def comp_def)
  show "list_all (\<lambda>c. \<not> ac_confirm (xc_action c)) (snd (snd (demo_run flaky_definition 1)))"
    unfolding list_all_iff using unconfirmed_run_is_safe [of demo_host flaky_definition "''r''" 7 1 "fst (demo_run flaky_definition 1)"
        "fst (snd (demo_run flaky_definition 1))" "snd (snd (demo_run flaky_definition 1))"] by simp
qed

text \<open>C16: a run executes one step at most as often as the configured number of attempts (at least
  once) if its failure policy answers no class of failures with a new resolution, and otherwise at
  most as often as the larger of 3 and that number; it stops trying as soon as an execution succeeds.
  The configured number is documented as the total number of attempts, with a default of 2, and the
  new resolutions as at most one; the default policy resolves a stale context anew, and such a step
  is executed 3 times (\<open>stale_run\<close>).\<close>

theorem attempts_are_bounded:
  assumes "run_workflow H d rid gen h = (r, h', calls)" and "i < length (wd_steps d)"
  shows "length (calls_of i calls) \<le> max (if \<exists>cl. policy_for d (wd_steps d ! i) cl = FaReResolve then 3 else 1)
        (unat (max_attempts_of d (wd_steps d ! i)))
    \<and> (\<forall>c \<in> set (butlast (calls_of i calls)). \<not> xc_ok c)"
proof -
  from run_workflow_account [OF assms(1)] obtain steps
    where acc: "walk_account H gen d False (map fresh_step_run (wd_steps d)) steps calls" by blast
  then have "step_account H gen d False (map fresh_step_run (wd_steps d)) steps calls i"
    using assms(2) by (simp add: walk_account_def)
  then show ?thesis using assms(2) attempt_bound_fresh [of d "wd_steps d ! i"]
    by (simp add: step_account_def call_block_def fresh_step_run_def attempt_bound_def)
qed

theorem attempts_are_bounded_witness:
  "map xc_ok (calls_of 0 (snd (snd (demo_run flaky_definition 1)))) = [False, True]
    \<and> length (calls_of 0 (snd (snd (demo_run flaky_definition 1)))) \<le> 3"
proof
  have "map snd (filter (\<lambda>c. fst c = 0) (called_steps (demo_run flaky_definition 1))) = [False, True]" unfolding flaky_run by simp
  then show "map xc_ok (calls_of 0 (snd (snd (demo_run flaky_definition 1)))) = [False, True]"
    by (simp add: called_steps_def calls_of_def comp_def filter_map)
  have "max_attempts_of flaky_definition (wd_steps flaky_definition ! 0) = 2" by code_simp
  then show "length (calls_of 0 (snd (snd (demo_run flaky_definition 1)))) \<le> 3"
    using attempts_are_bounded [of demo_host flaky_definition "''r''" 7 1 "fst (demo_run flaky_definition 1)"
        "fst (snd (demo_run flaky_definition 1))" "snd (snd (demo_run flaky_definition 1))" 0]
    by (auto simp: flaky_definition_def plain_definition_def split: if_splits)
qed

text \<open>C17: a run that reports success has every step complete or skipped, and a step it reports complete
  was executed with success; a run that reports a pause has a step waiting for confirmation.\<close>

theorem run_reports_truly:
  assumes "run_workflow H d rid gen h = (Ok run, h', calls)"
  shows "wr_status run \<in> {WrSucceeded, WrFailed, WrPaused}
    \<and> (wr_status run = WrSucceeded \<longrightarrow> list_all step_done (wr_steps run))
    \<and> (wr_status run = WrPaused \<longrightarrow> (\<exists>sr \<in> set (wr_steps run). sr_status sr = SrWaitingForConfirmation))
    \<and> (\<forall>i < length (wr_steps run). sr_status (wr_steps run ! i) = SrComplete \<longrightarrow>
         calls_of i calls \<noteq> [] \<and> xc_ok (last (calls_of i calls)))"
proof -
  from run_workflow_account [OF assms]
  have acc: "walk_account H gen d False (map fresh_step_run (wd_steps d)) (wr_steps run) calls"
    and verdict: "walk_verdict False run" by auto
  have "\<not> step_done (map fresh_step_run (wd_steps d) ! i)" if "i < length (wd_steps d)" for i
    using that by (simp add: fresh_step_run_def step_done_def)
  with acc verdict show ?thesis by (auto simp: walk_account_def step_account_def walk_verdict_def)
qed

theorem run_reports_truly_witness:
  "\<exists>run h' calls. demo_run flaky_definition 1 = (Ok run, h', calls) \<and> wr_status run = WrPaused
    \<and> (\<exists>sr \<in> set (wr_steps run). sr_status sr = SrWaitingForConfirmation)"
proof -
  obtain r h' calls where run: "demo_run flaky_definition 1 = (r, h', calls)" by (cases "demo_run flaky_definition 1")
  with flaky_run(2) obtain w where "r = Ok w" "wr_status w = WrPaused" by (auto simp: step_states_def split: sum.splits)
  with run_reports_truly [of demo_host flaky_definition "''r''" 7 1 w h' calls] run show ?thesis by simp
qed



text \<open>A resumed run forgets which transitions it took. The definition branches from \<open>a\<close> on success
  to \<open>c\<close>, which pauses for confirmation; once confirmed, the resumed run executes \<open>b\<close>, the branch
  that was not taken, fails, and never executes \<open>c\<close>.\<close>

lemma resume_takes_other_branch:
  "step_states (demo_run branch_definition 0) = Some (WrPaused, [SrComplete, SrPending, SrWaitingForConfirmation])
    \<and> called_steps (resumed branch_definition 0) = [(1, True)]
    \<and> step_states (resumed branch_definition 0) = Some (WrFailed, [SrComplete, SrComplete, SrWaitingForConfirmation])"
  by (simp add: branch_run)

text \<open>An inline step of type \<open>system.execute\<close> whose \<open>requires\<close> is empty runs a command line in
  an unconfirmed run, without a capability.\<close>

lemma shell_runs_unconfirmed:
  "step_states (demo_run shell_definition 0) = Some (WrSucceeded, [SrComplete])
    \<and> map (\<lambda>c. (ac_kind (xc_action c), xc_confirmed c)) (snd (snd (demo_run shell_definition 0))) = [(ActExecute, False)]"
  by (simp add: shell_run)

text \<open>C21: executing proposals of a planner never executes an action that needs confirmation or is
  disabled. What is handed to the host for a proposal is the action published under the proposal's
  action id by the command the host offers, in the state it has at that call, under the proposal's
  provider and command, with the proposal's input as its payload at most, and sent to the provider of
  that command if it is a plugin action.\<close>

theorem proposals_execute_safely:
  assumes "execute_proposals H ps wid gen h = (r, h', calls)" and "c \<in> set calls"
  shows "\<not> ac_confirm (xc_action c) \<and> ac_disabled (xc_action c) = None \<and> executed_as H gen c
    \<and> xc_step c < length ps
    \<and> (\<exists>cm a0. host_offers H (proposed (ps ! xc_step c)) (xc_host c) cm
         \<and> published (proposed (ps ! xc_step c)) cm = Some a0
         \<and> published_with (materialized H (xc_variables c) (pr_input (ps ! xc_step c))) a0 (xc_action c)
         \<and> xc_provider c = (if ac_kind a0 = ActPluginInvoke then Some (cmd_provider cm) else None))"
  using assms by (rule execute_proposals_calls)

theorem proposals_execute_safely_witness:
  "called_steps (execute_proposals demo_host demo_proposals ''w'' 7 0) = [(0, True)]
    \<and> list_all (\<lambda>c. \<exists>cm. host_offers demo_host (proposed (demo_proposals ! xc_step c)) (xc_host c) cm)
        (snd (snd (execute_proposals demo_host demo_proposals ''w'' 7 0)))"
proof
  show "called_steps (execute_proposals demo_host demo_proposals ''w'' 7 0) = [(0, True)]" by code_simp
  show "list_all (\<lambda>c. \<exists>cm. host_offers demo_host (proposed (demo_proposals ! xc_step c)) (xc_host c) cm)
        (snd (snd (execute_proposals demo_host demo_proposals ''w'' 7 0)))"
    unfolding list_all_iff using proposals_execute_safely [of demo_host demo_proposals "''w''" 7 0] by (metis prod.collapse)
qed

end
