(* ===== verification/AiApproval.thy ===== *)
theory AiApproval
  imports AiContract
begin

text \<open>
  The approval gate of one agent run (\<open>launcher-ai/src/approval.rs\<close>): it mints requests, checks
  expiry and lets each request be decided once. Milliseconds are unbounded integers here (the code's
  \<open>i64\<close> clock readings stay far from its limits); the request counter is the code's \<open>u64\<close>.
\<close>

section \<open>State and operations\<close>

definition DEFAULT_TTL_MS :: int where
  "DEFAULT_TTL_MS = 5 * 60 * 1000"

record approval_request =
  rq_id :: string
  rq_session :: string
  rq_goal :: string
  rq_steps :: "plan_step list"
  rq_created :: int
  rq_expires :: int

datatype decision = Approve | ApproveEdited plan_document | Reject

record approval_decision =
  ad_request :: string
  ad_decision :: decision

datatype approval_error = UnknownRequest | Expired | AlreadyDecided | InvalidPlan plan_document_error

record approval_gate =
  ag_ttl :: int
  ag_seq :: "64 word"
  ag_pending :: "(approval_request \<times> bool) option"

definition gate_new :: "int \<Rightarrow> approval_gate" where
  "gate_new ttl = \<lparr>ag_ttl = ttl, ag_seq = 0, ag_pending = None\<rparr>"

definition request_name :: "string \<Rightarrow> nat \<Rightarrow> string" where
  "request_name session k = ''apr-'' @ session @ ''-'' @ nat_str k"

definition gate_ask :: "string \<Rightarrow> string \<Rightarrow> plan_step list \<Rightarrow> int \<Rightarrow> approval_gate \<Rightarrow>
    approval_request option \<times> approval_gate" where
  "gate_ask session goal steps now g =
     (if \<not> list_ex ps_requires_approval steps then (None, g)
      else let seq = ag_seq g + 1;
          rq = \<lparr>rq_id = request_name session (unat seq), rq_session = session, rq_goal = goal,
                rq_steps = steps, rq_created = now, rq_expires = now + ag_ttl g\<rparr>
        in (Some rq, g\<lparr>ag_seq := seq, ag_pending := Some (rq, False)\<rparr>))"

definition gate_decide :: "string \<Rightarrow> decision \<Rightarrow> int \<Rightarrow> approval_gate \<Rightarrow>
    (approval_error + plan_step list) \<times> approval_gate" where
  "gate_decide rid d now g = (case ag_pending g of
     None \<Rightarrow> (Err UnknownRequest, g)
   | Some (rq, decided) \<Rightarrow>
       if rq_id rq \<noteq> rid then (Err UnknownRequest, g)
       else if decided then (Err AlreadyDecided, g)
       else let g' = g\<lparr>ag_pending := Some (rq, True)\<rparr> in
         if now > rq_expires rq then (Err Expired, g')
         else (case d of
             Approve \<Rightarrow> (Ok (rq_steps rq), g')
           | ApproveEdited doc \<Rightarrow>
               (case validate_doc doc of
                  Inl e \<Rightarrow> (Err (InvalidPlan e), g')
                | Inr _ \<Rightarrow> (Ok (pd_steps doc), g'))
           | Reject \<Rightarrow> (Ok [], g')))"

definition gate_cancel :: "string \<Rightarrow> approval_gate \<Rightarrow> (approval_error + unit) \<times> approval_gate" where
  "gate_cancel rid g =
     (let g' = g\<lparr>ag_pending := None\<rparr> in
      case ag_pending g of
        Some (rq, decided) \<Rightarrow>
          (if rq_id rq = rid \<and> \<not> decided then (Ok (), g') else (Err UnknownRequest, g'))
      | None \<Rightarrow> (Err UnknownRequest, g'))"

definition gate_pending_request :: "int \<Rightarrow> approval_gate \<Rightarrow> approval_request option" where
  "gate_pending_request now g = (case ag_pending g of
     Some (rq, decided) \<Rightarrow> (if \<not> decided \<and> now \<le> rq_expires rq then Some rq else None)
   | None \<Rightarrow> None)"

section \<open>Request names\<close>

text \<open>The counter can be read off a request id whatever the session id is: digits hold no dash.\<close>

lemma digit_not_dash:
  assumes "d < 10"
  shows "digit d \<noteq> CHR ''-''"
proof
  assume "digit d = CHR ''-''"
  then have "byte (digit d) = byte (CHR ''-'')" by simp
  with byte_digit [OF assms] show False by (simp add: byte_def)
qed

lemma nat_str_no_dash: "CHR ''-'' \<notin> set (nat_str n)"
proof (induction n rule: nat_str.induct)
  case (1 n)
  then show ?case
    using digit_not_dash [of "n mod 10"] digit_not_dash [of n] by (auto simp: nat_str.simps [of n])
qed

lemma last_dash_cancel:
  assumes "CHR ''-'' \<notin> set x" "CHR ''-'' \<notin> set y" "a @ CHR ''-'' # x = b @ CHR ''-'' # y"
  shows "x = y"
proof -
  have "rev (a @ CHR ''-'' # x) = rev (b @ CHR ''-'' # y)" using assms(3) by (rule arg_cong)
  then have "takeWhile (\<lambda>c. c \<noteq> CHR ''-'') (rev x @ CHR ''-'' # rev a)
    = takeWhile (\<lambda>c. c \<noteq> CHR ''-'') (rev y @ CHR ''-'' # rev b)" by simp
  moreover have "takeWhile (\<lambda>c. c \<noteq> CHR ''-'') (rev x @ CHR ''-'' # rev a) = rev x"
    "takeWhile (\<lambda>c. c \<noteq> CHR ''-'') (rev y @ CHR ''-'' # rev b) = rev y"
    using assms(1,2) by (auto simp: takeWhile_append)
  ultimately show ?thesis by simp
qed

lemma request_name_counter: "request_name s j = request_name t k \<Longrightarrow> j = k"
proof -
  assume "request_name s j = request_name t k"
  then have "(''apr-'' @ s) @ CHR ''-'' # nat_str j = (''apr-'' @ t) @ CHR ''-'' # nat_str k"
    by (simp add: request_name_def)
  from last_dash_cancel [OF nat_str_no_dash nat_str_no_dash this] show "j = k" by simp
qed

section \<open>Histories of one gate\<close>

datatype gate_op =
    GateAsk string string "plan_step list" int
  | GateDecide string decision int
  | GateCancel string

fun gate_call :: "gate_op \<Rightarrow> approval_gate \<Rightarrow> approval_gate" where
  "gate_call (GateAsk s u steps now) g = snd (gate_ask s u steps now g)"
| "gate_call (GateDecide rid d now) g = snd (gate_decide rid d now g)"
| "gate_call (GateCancel rid) g = snd (gate_cancel rid g)"

text \<open>Every pending request carries a number the counter has reached; a spent id is one with such a
  number that is not pending undecided any more.\<close>

definition gate_wf :: "approval_gate \<Rightarrow> bool" where
  "gate_wf g \<longleftrightarrow> (\<forall>rq b. ag_pending g = Some (rq, b) \<longrightarrow>
     (\<exists>s k. rq_id rq = request_name s k \<and> k \<le> unat (ag_seq g)))"

definition spent :: "string \<Rightarrow> approval_gate \<Rightarrow> bool" where
  "spent rid g \<longleftrightarrow> (\<exists>s k. rid = request_name s k \<and> k \<le> unat (ag_seq g))
     \<and> (\<forall>rq. ag_pending g = Some (rq, False) \<longrightarrow> rq_id rq \<noteq> rid)"

lemma gate_wf_new: "gate_wf (gate_new ttl)"
  by (simp add: gate_wf_def gate_new_def)

lemma gate_wf_call:
  assumes "gate_wf g" "unat (ag_seq g) < 2 ^ 64 - 1"
  shows "gate_wf (gate_call c g)" "unat (ag_seq (gate_call c g)) \<le> Suc (unat (ag_seq g))"
    "unat (ag_seq g) \<le> unat (ag_seq (gate_call c g))"
proof -
  have "gate_wf (gate_call c g) \<and> unat (ag_seq (gate_call c g)) \<le> Suc (unat (ag_seq g))
    \<and> unat (ag_seq g) \<le> unat (ag_seq (gate_call c g))"
  proof (cases c)
    case (GateAsk s u steps now)
    then show ?thesis
      using assms unat_plus_one [OF assms(2)] by (auto simp: gate_ask_def gate_wf_def Let_def)
  next
    case (GateDecide rid d now)
    then show ?thesis
      using assms by (auto simp: gate_decide_def gate_wf_def Let_def split: option.splits decision.splits sum.splits)
  next
    case (GateCancel rid)
    then show ?thesis by (auto simp: gate_cancel_def gate_wf_def Let_def split: option.splits)
  qed
  then show "gate_wf (gate_call c g)" "unat (ag_seq (gate_call c g)) \<le> Suc (unat (ag_seq g))"
    "unat (ag_seq g) \<le> unat (ag_seq (gate_call c g))" by auto
qed

lemma spent_call:
  assumes "spent rid g" "unat (ag_seq g) < 2 ^ 64 - 1"
  shows "spent rid (gate_call c g)"
proof (cases c)
  case (GateAsk s u steps now)
  have "unat (ag_seq g + 1) = Suc (unat (ag_seq g))" using assms(2) by (rule unat_plus_one)
  moreover from assms(1) obtain t k where k: "rid = request_name t k" "k \<le> unat (ag_seq g)"
    by (auto simp: spent_def)
  ultimately have "request_name s (unat (ag_seq g + 1)) \<noteq> rid" by (auto dest: request_name_counter)
  moreover have "\<exists>t k. rid = request_name t k \<and> k \<le> Suc (unat (ag_seq g))"
    using k le_SucI by blast
  ultimately show ?thesis
    using GateAsk assms(1) \<open>unat (ag_seq g + 1) = Suc (unat (ag_seq g))\<close>
    by (simp add: spent_def gate_ask_def Let_def)
next
  case (GateDecide r d now)
  then show ?thesis
    using assms(1) by (auto simp: spent_def gate_decide_def Let_def split: option.splits decision.splits sum.splits)
next
  case (GateCancel r)
  then show ?thesis
    using assms(1) by (auto simp: spent_def gate_cancel_def Let_def split: option.splits)
qed

lemma spent_no_decision: "spent rid g \<Longrightarrow> \<not> is_ok (fst (gate_decide rid d now g))"
  by (auto simp: spent_def gate_decide_def is_ok_iff Let_def split: option.splits)

lemma spent_history:
  "spent rid g \<Longrightarrow> unat (ag_seq g) + length cs < 2 ^ 64 \<Longrightarrow> gate_wf g \<Longrightarrow>
    \<not> is_ok (fst (gate_decide rid d now (fold gate_call cs g)))"
proof (induction cs arbitrary: g)
  case Nil
  then show ?case by (simp add: spent_no_decision)
next
  case (Cons c cs)
  then have "unat (ag_seq g) < 2 ^ 64 - 1" by simp
  with Cons gate_wf_call [of g c] spent_call [of rid g c] show ?case by simp
qed

lemma decide_spends:
  assumes "gate_wf g" "is_ok (fst (gate_decide rid d now g)) \<or> fst (gate_decide rid d now g) = Err Expired"
  shows "spent rid (snd (gate_decide rid d now g))"
  using assms
  by (auto simp: spent_def gate_decide_def gate_wf_def Let_def
      split: option.splits if_splits decision.splits sum.splits)

lemma decide_wf: "gate_wf g \<Longrightarrow> gate_wf (snd (gate_decide rid d now g))"
  by (auto simp: gate_decide_def gate_wf_def Let_def split: option.splits decision.splits sum.splits)

lemma decide_seq: "ag_seq (snd (gate_decide rid d now g)) = ag_seq g"
  by (auto simp: gate_decide_def Let_def split: option.splits decision.splits sum.splits)

text \<open>A decision that authorizes anything authorizes the pending plan of that id, or a valid
  replacement for it, before its expiry.\<close>

lemma decide_Ok:
  "fst (gate_decide rid d now g) = Ok steps \<Longrightarrow>
    \<exists>rq. ag_pending g = Some (rq, False) \<and> rq_id rq = rid \<and> now \<le> rq_expires rq
      \<and> (d = Approve \<and> steps = rq_steps rq
         \<or> (\<exists>doc. d = ApproveEdited doc \<and> doc_ok doc \<and> steps = pd_steps doc)
         \<or> d = Reject \<and> steps = [])"
  by (auto simp: gate_decide_def Let_def validate_doc_Ok [symmetric]
      split: option.splits if_splits decision.splits sum.splits)

lemma ask_then_pending:
  "gate_ask s u steps now g = (Some rq, g') \<Longrightarrow> ag_pending g' = Some (rq, False) \<and> rq_steps rq = steps
    \<and> rq_expires rq = now + ag_ttl g"
  by (auto simp: gate_ask_def Let_def split: if_splits)

end
