(* ===== verification/AiState.thy ===== *)
theory AiState
  imports AiContract
begin

text \<open>
  What an agent run keeps: the session state machine (\<open>launcher-ai/src/agent_session.rs\<close>), the
  event ring and metrics (\<open>telemetry.rs\<close>), the three memory classes (\<open>memory.rs\<close>) and the
  persisted session records (\<open>agent_session_store.rs\<close>). The session is an instance of
  \<open>frozen_states\<close>, the event ring and the run memory are instances of \<open>bounded_log\<close>, the
  session table of \<open>keyed_store\<close>.
\<close>

section \<open>The session state machine\<close>

datatype run_state =
    Created | Observing | Planning | Executing | WaitingForConfirmation | Replanning
  | Completed | RunFailed | Cancelled | BudgetExhausted

definition is_terminal :: "run_state \<Rightarrow> bool" where
  "is_terminal s \<longleftrightarrow> s \<in> {Completed, RunFailed, Cancelled, BudgetExhausted}"

definition legal :: "run_state \<Rightarrow> run_state \<Rightarrow> bool" where
  "legal from to =
     (if to = Cancelled \<or> to = BudgetExhausted
      then from \<notin> {Completed, RunFailed, Cancelled, BudgetExhausted}
      else (from, to) \<in> {(Created, Observing), (Observing, Planning), (Planning, Executing),
        (Planning, RunFailed), (Executing, Completed), (Executing, RunFailed),
        (Executing, Replanning), (Executing, WaitingForConfirmation), (Replanning, Planning),
        (Replanning, Executing), (WaitingForConfirmation, Executing),
        (WaitingForConfirmation, Replanning)})"

record agent_session =
  as_id :: string
  as_state :: run_state
  as_turns :: "64 word"
  as_max_turns :: "64 word"

datatype transition_error = Illegal run_state run_state | StepBudgetExhausted | AlreadyTerminal

definition session_new :: "string \<Rightarrow> 64 word \<Rightarrow> agent_session" where
  "session_new sid max_turns = \<lparr>as_id = sid, as_state = Created, as_turns = 0,
     as_max_turns = max max_turns 1\<rparr>"

definition transition :: "run_state \<Rightarrow> bool \<Rightarrow> agent_session \<Rightarrow>
    (transition_error + run_state) \<times> agent_session" where
  "transition to consumes s =
     (if is_terminal (as_state s) then (Err AlreadyTerminal, s)
      else if \<not> legal (as_state s) to then (Err (Illegal (as_state s) to), s)
      else if consumes \<and> as_turns s \<ge> as_max_turns s then (Err StepBudgetExhausted, s)
      else let s' = s\<lparr>as_turns := (if consumes then as_turns s + 1 else as_turns s), as_state := to\<rparr>
        in (Ok to, s'))"

definition session_step :: "run_state \<times> bool \<Rightarrow> agent_session \<Rightarrow> agent_session" where
  "session_step c s = snd (transition (fst c) (snd c) s)"

interpretation session: frozen_states session_step "\<lambda>s. is_terminal (as_state s)"
  by unfold_locales (simp add: session_step_def transition_def)

text \<open>The counter stays within the budget, without wrap-around.\<close>

definition session_inv :: "agent_session \<Rightarrow> bool" where
  "session_inv s \<longleftrightarrow> as_turns s \<le> as_max_turns s \<and> 1 \<le> as_max_turns s"

lemma session_inv_new: "session_inv (session_new sid n)"
  by (simp add: session_inv_def session_new_def)

lemma session_step_frame [simp]:
  "as_max_turns (session_step c s) = as_max_turns s" "as_id (session_step c s) = as_id s"
  by (simp_all add: session_step_def transition_def Let_def)

lemma session_inv_step: "session_inv s \<Longrightarrow> session_inv (session_step c s)"
  using word_incr_le [of "as_turns s" "as_max_turns s"]
  by (auto simp: session_inv_def session_step_def transition_def Let_def not_le)

lemma session_inv_fold: "session_inv s \<Longrightarrow> session_inv (fold session_step cs s)"
  by (induction cs arbitrary: s) (auto simp: session_inv_step)

text \<open>How the final states are reached.\<close>

lemma transition_steps:
  "session_step (to, c) s = snd (transition to c s)"
  by (simp add: session_step_def)

lemma transition_into:
  assumes "fst (transition to c s) = Ok q"
  shows "q = to" "as_state (snd (transition to c s)) = to" "legal (as_state s) to" "\<not> is_terminal (as_state s)"
  using assms by (auto simp: transition_def Let_def split: if_splits)

fun states_visited :: "(run_state \<times> bool) list \<Rightarrow> agent_session \<Rightarrow> run_state list" where
  "states_visited [] s = [as_state s]"
| "states_visited (c # cs) s = as_state s # states_visited cs (session_step c s)"

lemma last_states_visited: "last (states_visited cs s) = as_state (fold session_step cs s)"
  by (induction cs arbitrary: s) (auto simp: neq_Nil_conv elim: states_visited.elims)

lemma states_visited_Cons: "\<exists>xs. states_visited cs s = as_state s # xs"
  by (cases cs) auto

text \<open>A session that starts at the beginning and completes has been observing, planning and
  executing.\<close>

definition precedes :: "run_state \<Rightarrow> run_state set" where
  "precedes q = (case q of
     Observing \<Rightarrow> {Created} | Planning \<Rightarrow> {Observing, Replanning}
   | Executing \<Rightarrow> {Planning, Replanning, WaitingForConfirmation}
   | Completed \<Rightarrow> {Executing} | RunFailed \<Rightarrow> {Planning, Executing}
   | Replanning \<Rightarrow> {Executing, WaitingForConfirmation} | WaitingForConfirmation \<Rightarrow> {Executing}
   | Created \<Rightarrow> {} | Cancelled \<Rightarrow> UNIV | BudgetExhausted \<Rightarrow> UNIV)"

lemma session_step_state:
  "as_state (session_step c s) = as_state s \<or> as_state s \<in> precedes (as_state (session_step c s))"
  by (auto simp: session_step_def transition_def legal_def precedes_def Let_def split: run_state.splits)

text \<open>Facts about a history from a fresh session: what has been visited when a state is current.\<close>

definition been :: "run_state \<Rightarrow> run_state set \<Rightarrow> bool" where
  "been q V \<longleftrightarrow> q \<in> V
     \<and> (q \<notin> {Created, Cancelled, BudgetExhausted} \<longrightarrow> Observing \<in> V)
     \<and> (q \<notin> {Created, Observing, Cancelled, BudgetExhausted} \<longrightarrow> Planning \<in> V)
     \<and> (q \<in> {Completed, Replanning, WaitingForConfirmation, Executing} \<longrightarrow> Executing \<in> V)"

lemma been_next: "q' = q \<or> q \<in> precedes q' \<Longrightarrow> been q V \<Longrightarrow> been q' (insert q' V)"
  by (cases q'; cases q) (simp_all add: been_def precedes_def)

lemma been_step: "been (as_state s) V \<Longrightarrow> been (as_state (session_step c s)) (insert (as_state (session_step c s)) V)"
  by (rule been_next [OF session_step_state])

lemma been_fold:
  "been (as_state s) (insert (as_state s) V) \<Longrightarrow>
    been (as_state (fold session_step cs s)) (V \<union> set (states_visited cs s))"
proof (induction cs arbitrary: s V)
  case (Cons c cs)
  let ?s = "session_step c s"
  have "been (as_state ?s) (insert (as_state ?s) (insert (as_state s) V))"
    using been_step [OF Cons.prems] by simp
  from Cons.IH [OF this] show ?case by (simp add: insert_commute)
qed simp

section \<open>Telemetry\<close>

datatype agent_event =
    SessionCreated | PlanGenerated | PlanRejected | ApprovalRequested | ApprovalReceived
  | StepStarted | StepCompleted | StepFailed | Replanned | BudgetExceeded
  | RunSucceeded | RunFailedEv | RunCancelled

fun event_name :: "agent_event \<Rightarrow> string" where
  "event_name SessionCreated = ''agent_session_created''"
| "event_name PlanGenerated = ''agent_plan_generated''"
| "event_name PlanRejected = ''agent_plan_rejected''"
| "event_name ApprovalRequested = ''agent_approval_requested''"
| "event_name ApprovalReceived = ''agent_approval_received''"
| "event_name StepStarted = ''agent_step_started''"
| "event_name StepCompleted = ''agent_step_completed''"
| "event_name StepFailed = ''agent_step_failed''"
| "event_name Replanned = ''agent_replanned''"
| "event_name BudgetExceeded = ''agent_budget_exceeded''"
| "event_name RunSucceeded = ''agent_run_succeeded''"
| "event_name RunFailedEv = ''agent_run_failed''"
| "event_name RunCancelled = ''agent_run_cancelled''"

record event_record =
  er_at :: int
  er_event :: agent_event
  er_detail :: string

record event_log =
  el_records :: "event_record list"

definition EVENT_LOG_CAP :: nat where
  "EVENT_LOG_CAP = 128"

definition el_record :: "int \<Rightarrow> agent_event \<Rightarrow> string \<Rightarrow> event_log \<Rightarrow> event_log" where
  "el_record ts ev detail l =
     (let rs = (if length (el_records l) \<ge> EVENT_LOG_CAP then tl (el_records l) else el_records l)
      in l\<lparr>el_records := rs @ [\<lparr>er_at = ts, er_event = ev, er_detail = take_chars 128 detail\<rparr>]\<rparr>)"

definition el_clear :: "event_log \<Rightarrow> event_log" where
  "el_clear l = l\<lparr>el_records := []\<rparr>"

interpretation event_ring: bounded_log "\<lambda>(ts, ev, d). el_record ts ev d" el_records
  "\<lambda>(ts, ev, d). \<lparr>er_at = ts, er_event = ev, er_detail = take_chars 128 d\<rparr>" EVENT_LOG_CAP
  by unfold_locales (auto simp: el_record_def EVENT_LOG_CAP_def Let_def)

text \<open>Counters are \<open>u64\<close>; \<open>+=\<close> is written with wrap-around, as release builds do.\<close>

record agent_metrics =
  llm_latency_ms :: "64 word"
  planning_latency_ms :: "64 word"
  validation_latency_ms :: "64 word"
  approval_wait_ms :: "64 word"
  agent_run_latency_ms :: "64 word"
  tool_selection_count :: "64 word"
  replan_count :: "64 word"
  budget_exceeded_count :: "64 word"
  model_error_count :: "64 word"

definition metrics_zero :: agent_metrics where
  "metrics_zero = \<lparr>llm_latency_ms = 0, planning_latency_ms = 0, validation_latency_ms = 0,
     approval_wait_ms = 0, agent_run_latency_ms = 0, tool_selection_count = 0, replan_count = 0,
     budget_exceeded_count = 0, model_error_count = 0\<rparr>"

definition accumulate :: "agent_metrics \<Rightarrow> agent_metrics \<Rightarrow> agent_metrics" where
  "accumulate m d =
     \<lparr>llm_latency_ms = llm_latency_ms m + llm_latency_ms d,
      planning_latency_ms = planning_latency_ms m + planning_latency_ms d,
      validation_latency_ms = validation_latency_ms m + validation_latency_ms d,
      approval_wait_ms = approval_wait_ms m + approval_wait_ms d,
      agent_run_latency_ms = agent_run_latency_ms m + agent_run_latency_ms d,
      tool_selection_count = tool_selection_count m + tool_selection_count d,
      replan_count = replan_count m + replan_count d,
      budget_exceeded_count = budget_exceeded_count m + budget_exceeded_count d,
      model_error_count = model_error_count m + model_error_count d\<rparr>"

lemma accumulate_commute: "fold (\<lambda>d m. accumulate m d) (ds @ es) m = fold (\<lambda>d m. accumulate m d) (es @ ds) m"
proof -
  have swap: "accumulate (accumulate m d) e = accumulate (accumulate m e) d" for m d e
    by (simp add: accumulate_def)
  have one: "fold (\<lambda>d m. accumulate m d) es (accumulate m d) = accumulate (fold (\<lambda>d m. accumulate m d) es m) d" for m d es
    by (induction es arbitrary: m) (simp_all add: swap)
  show ?thesis
    by (induction ds arbitrary: m) (simp_all add: one)
qed

record telemetry =
  tm_log :: event_log
  tm_metrics :: agent_metrics

definition tm_event :: "int \<Rightarrow> agent_event \<Rightarrow> string \<Rightarrow> telemetry \<Rightarrow> telemetry" where
  "tm_event ts ev detail t = t\<lparr>tm_log := el_record ts ev detail (tm_log t)\<rparr>"

section \<open>Memory\<close>

definition MAX_SESSIONS :: nat where "MAX_SESSIONS = 8"
definition MAX_RUNS_PER_SESSION :: nat where "MAX_RUNS_PER_SESSION = 20"
definition MAX_PREFS :: nat where "MAX_PREFS = 32"
definition MAX_ENTRY_CHARS :: nat where "MAX_ENTRY_CHARS = 512"

definition kept_char :: "string \<Rightarrow> bool" where
  "kept_char c \<longleftrightarrow> c = [CHR 0x0A] \<or> c = [CHR 0x0D] \<or> c = [CHR 0x09] \<or> \<not> is_control c"

definition bounded :: "string \<Rightarrow> string" where
  "bounded t = concat (filter kept_char (take MAX_ENTRY_CHARS (utf8_chars t)))"

definition text_ok :: "string \<Rightarrow> bool" where
  "text_ok t \<longleftrightarrow> length (utf8_chars t) \<le> MAX_ENTRY_CHARS \<and> (\<forall>c \<in> set (utf8_chars t). kept_char c)"

lemma bounded_ok: "text_ok (bounded t)"
proof -
  have "utf8_chars (bounded t) = filter kept_char (take MAX_ENTRY_CHARS (utf8_chars t))"
    unfolding bounded_def by (rule utf8_chars_take_filter)
  moreover have "length (filter kept_char (take MAX_ENTRY_CHARS (utf8_chars t))) \<le> MAX_ENTRY_CHARS"
    by (rule order_trans [OF length_filter_le]) simp
  ultimately show ?thesis by (simp add: text_ok_def)
qed

lemma bounded_id: "text_ok t \<Longrightarrow> bounded t = t"
  by (simp add: text_ok_def bounded_def)

lemma bounded_idem [simp]: "bounded (bounded t) = bounded t"
  by (rule bounded_id [OF bounded_ok])

record memory_entry =
  me_kind :: string
  me_text :: string
  me_at :: int

subsection \<open>Session memory\<close>

record session_memory =
  sm_sessions :: "(string \<times> memory_entry list) list"

definition cap_oldest :: "nat \<Rightarrow> 'a list \<Rightarrow> 'a list" where
  "cap_oldest n xs = (if length xs > n then tl xs else xs)"

text \<open>\<open>iter_mut().find(..)\<close>: append to the first session with the id.\<close>

fun push_entry :: "string \<Rightarrow> memory_entry \<Rightarrow> (string \<times> memory_entry list) list \<Rightarrow>
    (string \<times> memory_entry list) list" where
  "push_entry sid e [] = []"
| "push_entry sid e ((i, es) # ss) =
     (if i = sid then (i, cap_oldest MAX_RUNS_PER_SESSION (es @ [e])) # ss
      else (i, es) # push_entry sid e ss)"

definition sm_push :: "string \<Rightarrow> string \<Rightarrow> string \<Rightarrow> int \<Rightarrow> session_memory \<Rightarrow> session_memory" where
  "sm_push sid kind text ts m =
     (let e = \<lparr>me_kind = kind, me_text = bounded text, me_at = ts\<rparr> in
      if sid \<in> fst ` set (sm_sessions m) then m\<lparr>sm_sessions := push_entry sid e (sm_sessions m)\<rparr>
      else m\<lparr>sm_sessions := cap_oldest MAX_SESSIONS (sm_sessions m @ [(sid, [e])])\<rparr>)"

definition sm_entries :: "session_memory \<Rightarrow> string \<Rightarrow> memory_entry list" where
  "sm_entries m sid = (case map_of (sm_sessions m) sid of Some es \<Rightarrow> es | None \<Rightarrow> [])"

definition sm_delete :: "string \<Rightarrow> session_memory \<Rightarrow> bool \<times> session_memory" where
  "sm_delete sid m =
     (let ss = filter (\<lambda>(i, _). i \<noteq> sid) (sm_sessions m)
      in (length ss \<noteq> length (sm_sessions m), m\<lparr>sm_sessions := ss\<rparr>))"

definition sm_clear :: "session_memory \<Rightarrow> session_memory" where
  "sm_clear m = m\<lparr>sm_sessions := []\<rparr>"

definition sm_ids :: "session_memory \<Rightarrow> string list" where
  "sm_ids m = map fst (sm_sessions m)"

datatype memory_op = MemPush string string string int | MemDelete string | MemClear

fun sm_apply :: "memory_op \<Rightarrow> session_memory \<Rightarrow> session_memory" where
  "sm_apply (MemPush sid kind text ts) m = sm_push sid kind text ts m"
| "sm_apply (MemDelete sid) m = snd (sm_delete sid m)"
| "sm_apply MemClear m = sm_clear m"

definition sm_inv :: "session_memory \<Rightarrow> bool" where
  "sm_inv m \<longleftrightarrow> distinct (map fst (sm_sessions m)) \<and> length (sm_sessions m) \<le> MAX_SESSIONS
     \<and> (\<forall>(i, es) \<in> set (sm_sessions m). length es \<le> MAX_RUNS_PER_SESSION \<and> (\<forall>e \<in> set es. text_ok (me_text e)))"

lemma set_cap_oldest: "set (cap_oldest n xs) \<subseteq> set xs"
  by (cases xs) (auto simp: cap_oldest_def)

lemma length_cap_oldest: "length xs \<le> Suc n \<Longrightarrow> length (cap_oldest n xs) \<le> n"
  by (simp add: cap_oldest_def, arith)

lemma map_fst_push_entry [simp]: "map fst (push_entry sid e ss) = map fst ss"
  by (induction sid e ss rule: push_entry.induct) auto

lemma push_entry_set:
  "(i, es) \<in> set (push_entry sid e ss) \<Longrightarrow>
    (i, es) \<in> set ss \<or> (\<exists>fs. (i, fs) \<in> set ss \<and> es = cap_oldest MAX_RUNS_PER_SESSION (fs @ [e]))"
  by (induction sid e ss rule: push_entry.induct) (auto split: if_splits)

lemma sm_inv_push:
  assumes "sm_inv m"
  shows "sm_inv (sm_push sid kind text ts m)"
proof (cases "sid \<in> fst ` set (sm_sessions m)")
  case True
  let ?e = "\<lparr>me_kind = kind, me_text = bounded text, me_at = ts\<rparr>"
  have "length (push_entry sid ?e (sm_sessions m)) = length (sm_sessions m)"
    using map_fst_push_entry [of sid ?e "sm_sessions m"] by (metis length_map)
  moreover have "length es \<le> MAX_RUNS_PER_SESSION \<and> (\<forall>e \<in> set es. text_ok (me_text e))"
    if "(i, es) \<in> set (push_entry sid ?e (sm_sessions m))" for i es
    using push_entry_set [OF that]
  proof
    assume "(i, es) \<in> set (sm_sessions m)"
    then show ?thesis using assms by (auto simp: sm_inv_def)
  next
    assume "\<exists>fs. (i, fs) \<in> set (sm_sessions m) \<and> es = cap_oldest MAX_RUNS_PER_SESSION (fs @ [?e])"
    then obtain fs where fs: "(i, fs) \<in> set (sm_sessions m)" "es = cap_oldest MAX_RUNS_PER_SESSION (fs @ [?e])" by blast
    then have "length fs \<le> MAX_RUNS_PER_SESSION" "\<forall>e \<in> set fs. text_ok (me_text e)"
      using assms by (auto simp: sm_inv_def)
    then show ?thesis
      using fs(2) length_cap_oldest [of "fs @ [?e]" MAX_RUNS_PER_SESSION] set_cap_oldest [of MAX_RUNS_PER_SESSION "fs @ [?e]"]
      by (auto simp: bounded_ok)
  qed
  ultimately show ?thesis using assms True by (auto simp: sm_inv_def sm_push_def Let_def)
next
  case False
  let ?new = "sm_sessions m @ [(sid, [\<lparr>me_kind = kind, me_text = bounded text, me_at = ts\<rparr>])]"
  have d: "distinct (map fst ?new)" using assms False by (auto simp: sm_inv_def)
  have "distinct (map fst (cap_oldest MAX_SESSIONS ?new))"
    using d distinct_tl [OF d] unfolding cap_oldest_def by (simp add: map_tl)
  moreover have "length (cap_oldest MAX_SESSIONS ?new) \<le> MAX_SESSIONS"
    using assms by (intro length_cap_oldest) (simp add: sm_inv_def)
  ultimately show ?thesis
    using assms False set_cap_oldest [of MAX_SESSIONS ?new]
    by (auto simp: sm_inv_def sm_push_def Let_def bounded_ok MAX_RUNS_PER_SESSION_def dest!: subsetD)
qed

lemma sm_inv_delete: "sm_inv m \<Longrightarrow> sm_inv (snd (sm_delete sid m))"
  by (auto simp: sm_inv_def sm_delete_def Let_def distinct_map_filter intro: order_trans [OF length_filter_le])

lemma sm_inv_apply: "sm_inv m \<Longrightarrow> sm_inv (sm_apply c m)"
  by (cases c) (simp_all add: sm_inv_push sm_inv_delete, simp add: sm_inv_def sm_clear_def)

lemma sm_inv_fold: "sm_inv m \<Longrightarrow> sm_inv (fold sm_apply cs m)"
  by (induction cs arbitrary: m) (auto simp: sm_inv_apply)

lemma sm_delete_forgets: "sm_entries (snd (sm_delete sid m)) sid = []"
proof -
  have "map_of (filter (\<lambda>(i, _). i \<noteq> sid) ss) sid = None" for ss :: "(string \<times> memory_entry list) list"
    by (induction ss) auto
  then show ?thesis by (simp add: sm_entries_def sm_delete_def Let_def)
qed

subsection \<open>Run memory\<close>

record run_record =
  rr_id :: string
  rr_goal :: string
  rr_status :: string
  rr_turns :: "64 word"
  rr_at :: int

record run_memory =
  rm_runs :: "run_record list"

definition rm_record :: "run_record \<Rightarrow> run_memory \<Rightarrow> run_memory" where
  "rm_record r m =
     (let r' = r\<lparr>rr_goal := bounded (rr_goal r)\<rparr>;
          rs = (if length (rm_runs m) \<ge> MAX_RUNS_PER_SESSION then tl (rm_runs m) else rm_runs m)
      in m\<lparr>rm_runs := rs @ [r']\<rparr>)"

definition rm_delete :: "string \<Rightarrow> run_memory \<Rightarrow> bool \<times> run_memory" where
  "rm_delete rid m =
     (let rs = filter (\<lambda>r. rr_id r \<noteq> rid) (rm_runs m)
      in (length rs \<noteq> length (rm_runs m), m\<lparr>rm_runs := rs\<rparr>))"

definition rm_clear :: "run_memory \<Rightarrow> run_memory" where
  "rm_clear m = m\<lparr>rm_runs := []\<rparr>"

interpretation run_log: bounded_log rm_record rm_runs "\<lambda>r. r\<lparr>rr_goal := bounded (rr_goal r)\<rparr>" MAX_RUNS_PER_SESSION
  by unfold_locales (auto simp: rm_record_def MAX_RUNS_PER_SESSION_def Let_def)

subsection \<open>User preferences\<close>

record user_prefs =
  up_prefs :: "(string \<times> string) list"

fun replace_value :: "'k \<Rightarrow> 'v \<Rightarrow> ('k \<times> 'v) list \<Rightarrow> ('k \<times> 'v) list" where
  "replace_value k v [] = []"
| "replace_value k v ((j, w) # ps) = (if j = k then (j, v) # ps else (j, w) # replace_value k v ps)"

definition up_set :: "string \<Rightarrow> string \<Rightarrow> user_prefs \<Rightarrow> user_prefs" where
  "up_set key v p =
     (let k = bounded key; w = bounded v in
      if k \<in> fst ` set (up_prefs p) then p\<lparr>up_prefs := replace_value k w (up_prefs p)\<rparr>
      else if length (up_prefs p) \<ge> MAX_PREFS then p
      else p\<lparr>up_prefs := up_prefs p @ [(k, w)]\<rparr>)"

definition up_get :: "user_prefs \<Rightarrow> string \<Rightarrow> string option" where
  "up_get p key = map_of (up_prefs p) key"

definition up_remove :: "string \<Rightarrow> user_prefs \<Rightarrow> bool \<times> user_prefs" where
  "up_remove key p =
     (let k = bounded key; ps = filter (\<lambda>(j, _). j \<noteq> k) (up_prefs p)
      in (length ps \<noteq> length (up_prefs p), p\<lparr>up_prefs := ps\<rparr>))"

definition up_clear :: "user_prefs \<Rightarrow> user_prefs" where
  "up_clear p = p\<lparr>up_prefs := []\<rparr>"

lemma map_of_replace_value:
  "map_of (replace_value k v ps) j = (if j = k \<and> map_of ps k \<noteq> None then Some v else map_of ps j)"
  by (induction k v ps rule: replace_value.induct) auto

lemma fst_replace_value [simp]: "map fst (replace_value k v ps) = map fst ps"
  by (induction k v ps rule: replace_value.induct) auto

lemma up_get_set:
  assumes "bounded key \<in> fst ` set (up_prefs p) \<or> length (up_prefs p) < MAX_PREFS"
  shows "up_get (up_set key v p) k = (if k = bounded key then Some (bounded v) else up_get p k)"
proof (cases "bounded key \<in> fst ` set (up_prefs p)")
  case True
  then have "map_of (up_prefs p) (bounded key) \<noteq> None" by (simp add: map_of_eq_None_iff)
  with True show ?thesis by (simp add: up_get_def up_set_def Let_def map_of_replace_value)
next
  case False
  then have "map_of (up_prefs p) (bounded key) = None" by (simp add: map_of_eq_None_iff)
  with False assms show ?thesis
    by (simp add: up_get_def up_set_def Let_def map_add_def split: option.splits)
qed

lemma up_set_full:
  "bounded key \<notin> fst ` set (up_prefs p) \<Longrightarrow> MAX_PREFS \<le> length (up_prefs p) \<Longrightarrow> up_set key v p = p"
  by (simp add: up_set_def Let_def)

section \<open>Session records\<close>

record session_row =
  sr_id :: string
  sr_goal :: string
  sr_turn :: "64 word"
  sr_status :: string
  sr_updated :: int

definition ss_save :: "bool \<Rightarrow> session_row \<Rightarrow> session_row list \<Rightarrow> bool \<times> session_row list" where
  "ss_save db_ok r rows = (if db_ok then (True, upsert sr_id r rows) else (False, rows))"

definition ss_load :: "bool \<Rightarrow> string \<Rightarrow> session_row list \<Rightarrow> session_row option option" where
  "ss_load db_ok sid rows = (if db_ok then Some (row_get sr_id rows sid) else None)"

definition ss_list_active :: "bool \<Rightarrow> session_row list \<Rightarrow> session_row list option" where
  "ss_list_active db_ok rows =
     (if db_ok then Some (sort_key sr_updated
        (filter (\<lambda>r. sr_status r = ''running'' \<or> sr_status r = ''paused'') rows)) else None)"

definition ss_finish :: "bool \<Rightarrow> string \<Rightarrow> session_row list \<Rightarrow> bool \<times> session_row list" where
  "ss_finish db_ok sid rows =
     (if db_ok then (True, filter (\<lambda>r. sr_id r \<noteq> sid) rows) else (False, rows))"

interpretation session_rows: keyed_store "\<lambda>rows k. the (ss_load True k rows)" "\<lambda>r rows. snd (ss_save True r rows)" sr_id
  by unfold_locales (simp add: ss_load_def ss_save_def rows.get_put)

lemma ss_finish_gone: "ss_load True sid (snd (ss_finish True sid rows)) = Some None"
  by (auto simp: ss_load_def ss_finish_def row_get_def find_None_iff)

end
