(* ===== verification/AiLoop.thy ===== *)
theory AiLoop
  imports AiPrompt AiApproval AiState ExecSemantics "HOL-Library.Sublist"
begin

text \<open>
  The agent pipeline (\<open>launcher-ai/src/pipeline.rs\<close>) and the agent loop
  (\<open>agent_loop.rs\<close>, \<open>run_agent\<close>). The host is the record \<open>agent_host\<close>: the language model, the step
  executor with what it says of a failed effect, the approval sink, the cancel flag, the clock and
  the elapsed times, the outside ones numbered by a counter in the state. The state keeps one
  history variable that the code does not have, the calls made to the executor, each with \<open>None\<close>
  for a success and with what the executor said of the effect for a failure.
\<close>

section \<open>The pipeline\<close>

datatype pipeline_outcome =
    Proposal agent_proposal "risk_level list" string
  | Clarify string string

definition raise_approval :: "plan_step \<Rightarrow> risk_level \<Rightarrow> plan_step" where
  "raise_approval s r = (if risk_requires_approval r then s\<lparr>ps_requires_approval := True\<rparr> else s)"

definition finish_proposal :: "agent_intent \<Rightarrow> agent_proposal \<Rightarrow> agent_proposal" where
  "finish_proposal intent p =
     p\<lparr>pr_intent := intent, pr_plan := map2 raise_approval (pr_plan p) (map classify (pr_plan p))\<rparr>"

definition run_pipeline :: "(string \<Rightarrow> string) \<Rightarrow> (string \<Rightarrow> string + agent_proposal) \<Rightarrow> string \<Rightarrow> string \<Rightarrow>
    string \<Rightarrow> (string \<Rightarrow> 's \<Rightarrow> (string + string) \<times> 's) \<Rightarrow> f64 \<Rightarrow> nat \<Rightarrow> 's \<Rightarrow>
    (string + pipeline_outcome) \<times> 's" where
  "run_pipeline lower read input context catalog llm min_confidence budget st =
     (let parsed = parse_intent lower input in
      case needs_clarification (pq_intent parsed) (pq_entities parsed) (Fin 1) min_confidence of
        Some c \<Rightarrow> (Ok (Clarify (cl_question c) []), st)
      | None \<Rightarrow>
          let prompt = build_agent_prompt input (pq_entities parsed) context catalog budget in
          (case llm prompt st of
             (Inl e, st') \<Rightarrow> (Err (''LLM call failed: '' @ e), st')
           | (Inr raw, st') \<Rightarrow>
               (case validate_llm_output read raw of
                  Inl e \<Rightarrow> (Err e, st')
                | Inr p \<Rightarrow>
                    let p' = finish_proposal (pq_intent parsed) p in
                    (case validate_proposal p' of
                       Inl e \<Rightarrow> (Err e, st')
                     | Inr _ \<Rightarrow> (Ok (Proposal p' (map classify (pr_plan p)) prompt), st')))))"

lemma raise_approval_frame [simp]:
  "ps_id (raise_approval s r) = ps_id s" "ps_action_ref (raise_approval s r) = ps_action_ref s"
  "ps_input (raise_approval s r) = ps_input s" "classify (raise_approval s r) = classify s"
  by (simp_all add: raise_approval_def classify_def)

lemma finish_plan: "pr_plan (finish_proposal i p) = map (\<lambda>s. raise_approval s (classify s)) (pr_plan p)"
  by (simp add: finish_proposal_def map2_map_map [where f = "\<lambda>s. s", simplified])

lemma run_pipeline_model:
  assumes "run_pipeline lower read input context catalog llm mc budget st = (Ok (Proposal p risks prompt), st')"
  shows "\<exists>raw q. llm prompt st = (Ok raw, st') \<and> validate_llm_output read raw = Ok q
    \<and> p = finish_proposal (pq_intent (parse_intent lower input)) q \<and> validate_proposal p = Ok ()
    \<and> risks = map classify (pr_plan q)"
  using assms by (auto simp: run_pipeline_def Let_def split: option.splits prod.splits sum.splits)

lemma run_pipeline_Proposal:
  assumes "run_pipeline lower read input context catalog llm mc budget st = (Ok (Proposal p risks prompt), st')"
  shows "proposal_ok p" "pr_intent p = pq_intent (parse_intent lower input)"
    "risks = map classify (pr_plan p)"
    "\<forall>s \<in> set (pr_plan p). step_requires_approval s \<longrightarrow> ps_requires_approval s"
    "\<exists>raw q. validate_llm_output read raw = Ok q
      \<and> list_all2 (\<lambda>s t. ps_id s = ps_id t \<and> ps_action_ref s = ps_action_ref t \<and> ps_input s = ps_input t
          \<and> (ps_requires_approval t \<longrightarrow> ps_requires_approval s)) (pr_plan p) (pr_plan q)"
proof -
  from run_pipeline_model [OF assms] obtain raw q where q: "validate_llm_output read raw = Ok q"
    and p: "p = finish_proposal (pq_intent (parse_intent lower input)) q" "validate_proposal p = Ok ()"
    and r: "risks = map classify (pr_plan q)"
    by blast
  show "proposal_ok p" using p(2) by (simp add: validate_proposal_Ok)
  show "pr_intent p = pq_intent (parse_intent lower input)" by (simp add: p(1) finish_proposal_def)
  show "risks = map classify (pr_plan p)" by (simp add: r p(1) finish_plan)
  show "\<forall>s \<in> set (pr_plan p). step_requires_approval s \<longrightarrow> ps_requires_approval s"
    by (auto simp: p(1) finish_plan step_requires_approval_def) (simp add: raise_approval_def)
  show "\<exists>raw q. validate_llm_output read raw = Ok q
      \<and> list_all2 (\<lambda>s t. ps_id s = ps_id t \<and> ps_action_ref s = ps_action_ref t \<and> ps_input s = ps_input t
          \<and> (ps_requires_approval t \<longrightarrow> ps_requires_approval s)) (pr_plan p) (pr_plan q)"
    using q by (intro exI [of _ raw] exI [of _ q])
      (auto simp: p(1) finish_plan list_all2_map1 raise_approval_def intro!: list_all2_refl)
qed

section \<open>Host and state of a run\<close>

datatype loop_stop = LoopCompleted | LoopFailed string string | LoopCancelled

record 'x agent_host =
  h_lower :: "string \<Rightarrow> string"
  h_read :: "string \<Rightarrow> string + agent_proposal"
  h_llm :: "nat \<Rightarrow> string \<Rightarrow> string + string"
  h_exec :: "string \<Rightarrow> json \<Rightarrow> 'x \<Rightarrow> (string + json) \<times> 'x"
  h_effect :: "string \<Rightarrow> 'x \<Rightarrow> effect_state"
  h_sink :: "nat \<Rightarrow> approval_request \<Rightarrow> approval_decision option"
  h_cancel :: "nat \<Rightarrow> bool"
  h_clock :: "nat \<Rightarrow> int"
  h_elapsed :: "nat \<Rightarrow> 64 word"

record 'x loop_state =
  ls_session :: agent_session
  ls_tm :: telemetry
  ls_exec :: 'x
  ls_tick :: nat
  ls_calls :: "(plan_step \<times> effect_state option) list"

definition tick :: "'x loop_state \<Rightarrow> 'x loop_state" where
  "tick st = st\<lparr>ls_tick := ls_tick st + 1\<rparr>"

definition ev :: "'x agent_host \<Rightarrow> agent_event \<Rightarrow> string \<Rightarrow> 'x loop_state \<Rightarrow> 'x loop_state" where
  "ev H e detail st = tick (st\<lparr>ls_tm := tm_event (h_clock H (ls_tick st)) e detail (ls_tm st)\<rparr>)"

definition metric :: "(agent_metrics \<Rightarrow> agent_metrics) \<Rightarrow> 'x loop_state \<Rightarrow> 'x loop_state" where
  "metric f st = st\<lparr>ls_tm := (ls_tm st)\<lparr>tm_metrics := f (tm_metrics (ls_tm st))\<rparr>\<rparr>"

definition enter :: "run_state \<Rightarrow> bool \<Rightarrow> 'x loop_state \<Rightarrow> 'x loop_state" where
  "enter to consumes st = st\<lparr>ls_session := snd (transition to consumes (ls_session st))\<rparr>"

text \<open>\<open>Telemetry::finish\<close>: the terminal event and the total latency.\<close>

definition finish_run :: "'x agent_host \<Rightarrow> int \<Rightarrow> loop_stop \<Rightarrow> 'x loop_state \<Rightarrow> 'x loop_state" where
  "finish_run H t0 stop st =
     (let (e, detail) = (case stop of LoopCompleted \<Rightarrow> (RunSucceeded, [])
          | LoopFailed sid _ \<Rightarrow> (RunFailedEv, sid) | LoopCancelled \<Rightarrow> (RunCancelled, []));
          st1 = ev H e detail st;
          ms = h_clock H (ls_tick st1) - t0
      in tick (metric (agent_run_latency_ms_update (\<lambda>_. word_of_int (max ms 0))) st1))"

definition stop_run :: "'x agent_host \<Rightarrow> int \<Rightarrow> run_state \<Rightarrow> loop_stop \<Rightarrow> 'x loop_state \<Rightarrow> loop_stop \<times> 'x loop_state" where
  "stop_run H t0 to stop st = (stop, finish_run H t0 stop (enter to False st))"

section \<open>Executing a plan\<close>

datatype steps_end = StepsDone | StepsCancelled | StepsFailed string string effect_state

text \<open>One pass over the plan: a step that succeeded or whose effect is unsettled is not executed
  again.\<close>

fun exec_steps :: "'x agent_host \<Rightarrow> plan_step list \<Rightarrow> (string \<Rightarrow> step_status option) \<Rightarrow> 'x loop_state \<Rightarrow>
    steps_end \<times> (string \<Rightarrow> step_status option) \<times> 'x loop_state" where
  "exec_steps H [] status st = (StepsDone, status, st)"
| "exec_steps H (s # ss) status st =
     (if h_cancel H (ls_tick st) then (StepsCancelled, status, tick st)
      else let st0 = tick st in
        if status (ps_id s) = Some StSucceeded \<or> status (ps_id s) = Some StUnknown
        then exec_steps H ss status st0
        else let st1 = metric (tool_selection_count_update (\<lambda>n. n + 1)) (ev H StepStarted (ps_action_ref s) st0) in
          (case h_exec H (ps_action_ref s) (ps_input s) (ls_exec st1) of
             (Inr out, x) \<Rightarrow>
               exec_steps H ss (status(ps_id s \<mapsto> StSucceeded))
                 (ev H StepCompleted (ps_id s) (st1\<lparr>ls_exec := x, ls_calls := ls_calls st1 @ [(s, None)]\<rparr>))
           | (Inl e, x) \<Rightarrow>
               let eff = h_effect H (ps_action_ref s) x in
               (StepsFailed (ps_id s) e eff,
                status(ps_id s \<mapsto> (if eff = EffUnknown then StUnknown else StFailed)),
                ev H StepFailed (ps_id s) (st1\<lparr>ls_exec := x, ls_calls := ls_calls st1 @ [(s, Some eff)]\<rparr>))))"

text \<open>The inner loop: one replanning at most.\<close>

function plan_rounds :: "'x agent_host \<Rightarrow> int \<Rightarrow> plan_step list \<Rightarrow> bool \<Rightarrow> (string \<Rightarrow> step_status option) \<Rightarrow>
    'x loop_state \<Rightarrow> loop_stop \<times> 'x loop_state" where
  "plan_rounds H t0 plan replanned status st =
     (case exec_steps H plan status st of
        (StepsCancelled, status', st') \<Rightarrow> stop_run H t0 Cancelled LoopCancelled st'
      | (StepsDone, status', st') \<Rightarrow> stop_run H t0 Completed LoopCompleted st'
      | (StepsFailed sid e eff, status', st') \<Rightarrow>
          if eff = EffUnknown
          then stop_run H t0 RunFailed (LoopFailed sid (''unsettled effect (recovery required): '' @ e)) st'
          else if replanned then stop_run H t0 RunFailed (LoopFailed sid e) st'
          else plan_rounds H t0 plan True status'
            (enter Executing False (enter Planning True (enter Replanning False
              (ev H Replanned sid (metric (replan_count_update (\<lambda>n. n + 1)) st'))))))"
  by pat_completeness auto
termination
  by (relation "measure (\<lambda>(H, t0, plan, replanned, status, st). if replanned then 0 else 1)") auto

declare plan_rounds.simps [simp del]

section \<open>The run\<close>

definition join_refs :: "plan_step list \<Rightarrow> string" where
  "join_refs plan = (case map ps_action_ref plan of [] \<Rightarrow> [] | r # rs \<Rightarrow> r @ concat (map (\<lambda>x. '','' @ x) rs))"

text \<open>The approval of a plan: the plan to execute, or \<open>None\<close> when the run is to be cancelled.\<close>

definition approve_plan :: "'x agent_host \<Rightarrow> string \<Rightarrow> plan_step list \<Rightarrow> 'x loop_state \<Rightarrow>
    plan_step list option \<times> 'x loop_state" where
  "approve_plan H input plan st =
     (if \<not> list_ex ps_requires_approval plan then (Some plan, st)
      else case gate_ask (as_id (ls_session st)) input plan (h_clock H (ls_tick st)) (gate_new DEFAULT_TTL_MS) of
        (None, gate) \<Rightarrow> (None, tick st)
      | (Some rq, gate) \<Rightarrow>
          let st1 = ev H ApprovalRequested (rq_id rq) (tick st);
              decision = h_sink H (ls_tick st1) rq;
              st2 = tick (metric (approval_wait_ms_update (\<lambda>n. n + h_elapsed H (ls_tick st1))) st1)
          in (case decision of
                Some d \<Rightarrow>
                  if ad_request d = rq_id rq then
                    let st3 = ev H ApprovalReceived (rq_id rq) st2 in
                    (case fst (gate_decide (rq_id rq) (ad_decision d) (h_clock H (ls_tick st3)) gate) of
                       Inr [] \<Rightarrow> (None, ev H PlanRejected (rq_id rq) (tick st3))
                     | Inr steps \<Rightarrow> (Some steps, tick st3)
                     | Inl _ \<Rightarrow> (None, tick st3))
                  else (None, st2)
              | None \<Rightarrow> (None, st2)))"

definition llm_timed :: "'x agent_host \<Rightarrow> string \<Rightarrow> 'x loop_state \<Rightarrow> (string + string) \<times> 'x loop_state" where
  "llm_timed H prompt st =
     (let r = h_llm H (ls_tick st) prompt;
          st1 = metric (llm_latency_ms_update (\<lambda>n. n + h_elapsed H (ls_tick st))) st;
          st2 = (if is_ok r then st1 else metric (model_error_count_update (\<lambda>n. n + 1)) st1)
      in (r, tick st2))"

text \<open>The outer \<open>loop\<close> of the code returns in its first turn on every path, so it is written
  straight.\<close>

definition plan_and_execute :: "'x agent_host \<Rightarrow> string \<Rightarrow> string \<Rightarrow> string \<Rightarrow> f64 \<Rightarrow> nat \<Rightarrow> int \<Rightarrow>
    'x loop_state \<Rightarrow> loop_stop \<times> 'x loop_state" where
  "plan_and_execute H input context catalog mc budget t0 st =
     (if h_cancel H (ls_tick st) then stop_run H t0 Cancelled LoopCancelled (tick st)
      else case run_pipeline (h_lower H) (h_read H) input context catalog (llm_timed H) mc budget (tick st) of
        (Inr (Clarify question _), st1) \<Rightarrow>
          stop_run H t0 RunFailed (LoopFailed ''(clarify)'' question)
            (tick (metric (planning_latency_ms_update (\<lambda>n. n + h_elapsed H (ls_tick st1))) st1))
      | (Inr (Proposal p _ _), st1) \<Rightarrow>
          let st2 = ev H PlanGenerated (join_refs (pr_plan p))
                (tick (metric (planning_latency_ms_update (\<lambda>n. n + h_elapsed H (ls_tick st1))) st1)) in
          (case approve_plan H input (pr_plan p) st2 of
             (None, st3) \<Rightarrow> stop_run H t0 Cancelled LoopCancelled st3
           | (Some plan, st3) \<Rightarrow> plan_rounds H t0 plan False (\<lambda>_. None) (enter Executing True st3))
      | (Inl e, st1) \<Rightarrow>
          stop_run H t0 RunFailed (LoopFailed ''(plan)'' e)
            (metric (model_error_count_update (\<lambda>n. n + 1)) st1))"

definition run_agent :: "'x agent_host \<Rightarrow> string \<Rightarrow> string \<Rightarrow> string \<Rightarrow> f64 \<Rightarrow> nat \<Rightarrow> 'x loop_state \<Rightarrow>
    loop_stop \<times> 'x loop_state" where
  "run_agent H input context catalog mc budget st =
     (let t0 = h_clock H (ls_tick st);
          st0 = tick st;
          st1 = st0\<lparr>ls_tm := tm_event t0 SessionCreated (as_id (ls_session st0)) (ls_tm st0)\<rparr>;
          observe = fst (transition Observing True (ls_session st1));
          st2 = enter Observing True st1
      in if observe = Err StepBudgetExhausted then
           (let st3 = metric (budget_exceeded_count_update (\<lambda>n. n + 1)) (ev H BudgetExceeded ''(budget)'' st2)
            in stop_run H t0 BudgetExhausted (LoopFailed ''(budget)'' ''step budget exhausted'') st3)
         else plan_and_execute H input context catalog mc budget t0 (enter Planning False st2))"

section \<open>What the calls of a run look like\<close>

lemma calls_frame [simp]:
  "ls_calls (tick st) = ls_calls st" "ls_calls (ev H e d st) = ls_calls st"
  "ls_calls (metric f st) = ls_calls st" "ls_calls (enter q c st) = ls_calls st"
  "ls_calls (finish_run H t0 stop st) = ls_calls st"
  "ls_calls (snd (stop_run H t0 q stop st)) = ls_calls st" "fst (stop_run H t0 q stop st) = stop"
  by (simp_all add: tick_def ev_def metric_def enter_def finish_run_def stop_run_def Let_def split: prod.split)

text \<open>What one pass adds: successes of steps that were still open, then one failure at most.\<close>

definition open_step :: "(string \<Rightarrow> step_status option) \<Rightarrow> plan_step \<Rightarrow> bool" where
  "open_step status s \<longleftrightarrow> status (ps_id s) \<noteq> Some StSucceeded \<and> status (ps_id s) \<noteq> Some StUnknown"

definition marked :: "plan_step list \<Rightarrow> (string \<Rightarrow> step_status option) \<Rightarrow> string \<Rightarrow> step_status option" where
  "marked dn status i = (if i \<in> ps_id ` set dn then Some StSucceeded else status i)"

lemma marked_Nil [simp]: "marked [] status = status"
  by (simp add: marked_def fun_eq_iff)

lemma marked_Cons: "marked (s # dn) status = marked dn (status(ps_id s \<mapsto> StSucceeded))"
  by (auto simp: marked_def fun_eq_iff)

definition failure_status :: "effect_state \<Rightarrow> step_status" where
  "failure_status eff = (if eff = EffUnknown then StUnknown else StFailed)"

definition pass_adds :: "plan_step list \<Rightarrow> (string \<Rightarrow> step_status option) \<Rightarrow> steps_end \<Rightarrow>
    (string \<Rightarrow> step_status option) \<Rightarrow> (plan_step \<times> effect_state option) list \<Rightarrow> bool" where
  "pass_adds ss status r status' new \<longleftrightarrow> (\<exists>dn.
     distinct (map ps_id dn) \<and> (\<forall>s \<in> set dn. open_step status s) \<and>
     (case r of
        StepsFailed sid e eff \<Rightarrow> (\<exists>s. ps_id s = sid \<and> open_step status s \<and> sid \<notin> ps_id ` set dn
          \<and> subseq (dn @ [s]) ss
          \<and> new = map (\<lambda>s. (s, None)) dn @ [(s, Some eff)]
          \<and> status' = (marked dn status)(sid \<mapsto> failure_status eff))
      | _ \<Rightarrow> subseq dn ss \<and> new = map (\<lambda>s. (s, None)) dn \<and> status' = marked dn status
          \<and> (r = StepsDone \<longrightarrow> (\<forall>s \<in> set ss. \<not> open_step status' s))))"

lemma pass_adds_skip:
  assumes "pass_adds ss status r status' new" "\<not> open_step status s"
  shows "pass_adds (s # ss) status r status' new"
proof -
  have still: "\<not> open_step (marked dn status) s" for dn
    using assms(2) by (simp add: open_step_def marked_def)
  from assms(1) obtain dn where d: "distinct (map ps_id dn)" "\<forall>s \<in> set dn. open_step status s"
    "case r of
        StepsFailed sid e eff \<Rightarrow> (\<exists>s. ps_id s = sid \<and> open_step status s \<and> sid \<notin> ps_id ` set dn
          \<and> subseq (dn @ [s]) ss
          \<and> new = map (\<lambda>s. (s, None)) dn @ [(s, Some eff)]
          \<and> status' = (marked dn status)(sid \<mapsto> failure_status eff))
      | _ \<Rightarrow> subseq dn ss \<and> new = map (\<lambda>s. (s, None)) dn \<and> status' = marked dn status
          \<and> (r = StepsDone \<longrightarrow> (\<forall>s \<in> set ss. \<not> open_step status' s))"
    unfolding pass_adds_def by blast
  then show ?thesis
    using still unfolding pass_adds_def
    by (cases r) (auto intro!: exI [of _ dn])
qed

lemma pass_adds_call:
  assumes "pass_adds ss (status(ps_id s \<mapsto> StSucceeded)) r status' new" "open_step status s"
  shows "pass_adds (s # ss) status r status' ((s, None) # new)"
proof -
  let ?st = "status(ps_id s \<mapsto> StSucceeded)"
  have open_bk: "open_step ?st t \<Longrightarrow> open_step status t \<and> ps_id t \<noteq> ps_id s" for t
    by (auto simp: open_step_def split: if_splits)
  have still: "\<not> open_step (marked dn ?st) s" for dn
    by (simp add: open_step_def marked_def)
  from assms(1) obtain dn where d: "distinct (map ps_id dn)" "\<forall>s \<in> set dn. open_step ?st s"
    "case r of
        StepsFailed sid e eff \<Rightarrow> (\<exists>s. ps_id s = sid \<and> open_step ?st s \<and> sid \<notin> ps_id ` set dn
          \<and> subseq (dn @ [s]) ss
          \<and> new = map (\<lambda>s. (s, None)) dn @ [(s, Some eff)]
          \<and> status' = (marked dn ?st)(sid \<mapsto> failure_status eff))
      | _ \<Rightarrow> subseq dn ss \<and> new = map (\<lambda>s. (s, None)) dn \<and> status' = marked dn ?st
          \<and> (r = StepsDone \<longrightarrow> (\<forall>s \<in> set ss. \<not> open_step status' s))"
    unfolding pass_adds_def by blast
  have "ps_id s \<notin> ps_id ` set dn" using d(2) open_bk by fastforce
  then have D: "distinct (map ps_id (s # dn))" "\<forall>t \<in> set (s # dn). open_step status t"
    using d(1,2) open_bk assms(2) by auto
  have "case r of
        StepsFailed sid e eff \<Rightarrow> (\<exists>t. ps_id t = sid \<and> open_step status t \<and> sid \<notin> ps_id ` set (s # dn)
          \<and> subseq ((s # dn) @ [t]) (s # ss)
          \<and> (s, None) # new = map (\<lambda>s. (s, None)) (s # dn) @ [(t, Some eff)]
          \<and> status' = (marked (s # dn) status)(sid \<mapsto> failure_status eff))
      | _ \<Rightarrow> subseq (s # dn) (s # ss) \<and> (s, None) # new = map (\<lambda>s. (s, None)) (s # dn)
          \<and> status' = marked (s # dn) status
          \<and> (r = StepsDone \<longrightarrow> (\<forall>t \<in> set (s # ss). \<not> open_step status' t))"
  proof (cases r)
    case (StepsFailed sid e eff)
    with d(3) obtain t where t: "ps_id t = sid" "open_step ?st t" "sid \<notin> ps_id ` set dn"
      "subseq (dn @ [t]) ss" "new = map (\<lambda>s. (s, None)) dn @ [(t, Some eff)]"
      "status' = (marked dn ?st)(sid \<mapsto> failure_status eff)" by auto
    then show ?thesis using StepsFailed open_bk [OF t(2)] by (auto simp: marked_Cons intro!: exI [of _ t])
  qed (use d(3) still in \<open>auto simp: marked_Cons\<close>)
  with D show ?thesis unfolding pass_adds_def by blast
qed

lemma exec_steps_calls:
  assumes "exec_steps H ss status st = (r, status', st')"
  shows "\<exists>new. ls_calls st' = ls_calls st @ new \<and> pass_adds ss status r status' new"
  using assms
proof (induction H ss status st rule: exec_steps.induct)
  case (1 H status st)
  then show ?case by (auto simp: pass_adds_def intro!: exI [of _ "[]"])
next
  case (2 H s ss status st)
  let ?st1 = "metric (tool_selection_count_update (\<lambda>n. n + 1)) (ev H StepStarted (ps_action_ref s) (tick st))"
  show ?case
  proof (cases "h_cancel H (ls_tick st)")
    case True
    with "2.prems" show ?thesis by (auto simp: pass_adds_def intro!: exI [of _ "[]"])
  next
    case nc: False
    show ?thesis
    proof (cases "open_step status s")
      case False
      then have skip: "status (ps_id s) = Some StSucceeded \<or> status (ps_id s) = Some StUnknown"
        by (auto simp: open_step_def)
      with nc "2.prems" have e: "exec_steps H ss status (tick st) = (r, status', st')" by simp
      from "2.IH"(1) [OF nc refl skip e] show ?thesis using False by (auto intro: pass_adds_skip)
    next
      case True
      then have ns: "\<not> (status (ps_id s) = Some StSucceeded \<or> status (ps_id s) = Some StUnknown)"
        by (simp add: open_step_def)
      obtain res x where ex: "h_exec H (ps_action_ref s) (ps_input s) (ls_exec ?st1) = (res, x)"
        by (cases "h_exec H (ps_action_ref s) (ps_input s) (ls_exec ?st1)")
      show ?thesis
      proof (cases res)
        case (Inl e)
        with ex ns nc "2.prems" have
          "r = StepsFailed (ps_id s) e (h_effect H (ps_action_ref s) x)"
          "status' = status(ps_id s \<mapsto> failure_status (h_effect H (ps_action_ref s) x))"
          "ls_calls st' = ls_calls st @ [(s, Some (h_effect H (ps_action_ref s) x))]"
          by (auto simp: Let_def failure_status_def)
        with True show ?thesis
          by (auto simp: pass_adds_def intro!: exI [of _ "[]"] exI [of _ s])
      next
        case (Inr out)
        let ?st2 = "ev H StepCompleted (ps_id s) (?st1\<lparr>ls_exec := x, ls_calls := ls_calls ?st1 @ [(s, None)]\<rparr>)"
        have e: "exec_steps H ss (status(ps_id s \<mapsto> StSucceeded)) ?st2 = (r, status', st')"
          using Inr ex ns nc "2.prems" by (simp add: Let_def)
        from "2.IH"(2) [OF nc refl ns refl ex [symmetric] Inr e]
        obtain new where "ls_calls st' = ls_calls ?st2 @ new"
          "pass_adds ss (status(ps_id s \<mapsto> StSucceeded)) r status' new" by blast
        with True show ?thesis by (auto intro: pass_adds_call)
      qed
    qed
  qed
qed

definition succeeded_ids :: "(plan_step \<times> effect_state option) list \<Rightarrow> string set" where
  "succeeded_ids calls = {ps_id (fst c) |c. c \<in> set calls \<and> snd c = None}"

lemma succeeded_ids_append [simp]: "succeeded_ids (xs @ ys) = succeeded_ids xs \<union> succeeded_ids ys"
  by (auto simp: succeeded_ids_def)

lemma succeeded_ids_mem: "c \<in> set calls \<Longrightarrow> snd c = None \<Longrightarrow> ps_id (fst c) \<in> succeeded_ids calls"
  unfolding succeeded_ids_def by blast

definition later_ok :: "plan_step \<times> effect_state option \<Rightarrow> plan_step \<times> effect_state option \<Rightarrow> bool" where
  "later_ok a b \<longleftrightarrow> snd a \<noteq> Some EffUnknown \<and> (snd a = None \<longrightarrow> ps_id (fst a) \<noteq> ps_id (fst b))"

definition failures :: "(plan_step \<times> effect_state option) list \<Rightarrow> nat" where
  "failures calls = length (filter (\<lambda>c. snd c \<noteq> None) calls)"

lemma failures_append [simp]: "failures (xs @ ys) = failures xs + failures ys"
  by (simp add: failures_def)

lemma subseq_in: "subseq xs ys \<Longrightarrow> x \<in> set xs \<Longrightarrow> x \<in> set ys"
  by (meson subseq_order.order_trans subseq_singleton_left)

lemma sorted_later: "distinct (map ps_id dn) \<Longrightarrow> sorted_wrt later_ok (map (\<lambda>s. (s, None)) dn)"
  by (induction dn) (auto simp: later_ok_def)

lemma pass_adds_facts:
  assumes "pass_adds ss status r status' new"
  shows "sorted_wrt later_ok new" "failures new \<le> 1" "fst ` set new \<subseteq> set ss"
    "\<forall>c \<in> set new. open_step status (fst c)"
    "status' i = Some StSucceeded \<longleftrightarrow> status i = Some StSucceeded \<or> i \<in> succeeded_ids new"
    "r = StepsDone \<Longrightarrow> \<forall>s \<in> set ss. \<not> open_step status' s"
    "status' i = Some StUnknown \<Longrightarrow> status i = Some StUnknown \<or> (\<exists>sid e. r = StepsFailed sid e EffUnknown)"
    "r = StepsFailed sid e eff \<Longrightarrow> \<exists>s. new \<noteq> [] \<and> last new = (s, Some eff) \<and> ps_id s = sid"
    "\<And>c. c \<in> set new \<Longrightarrow> snd c = Some EffUnknown \<Longrightarrow> \<exists>sid e. r = StepsFailed sid e EffUnknown"
proof -
  from assms obtain dn where d: "distinct (map ps_id dn)" "\<forall>s \<in> set dn. open_step status s"
    and r: "case r of
        StepsFailed sid e eff \<Rightarrow> (\<exists>s. ps_id s = sid \<and> open_step status s \<and> sid \<notin> ps_id ` set dn
          \<and> subseq (dn @ [s]) ss
          \<and> new = map (\<lambda>s. (s, None)) dn @ [(s, Some eff)]
          \<and> status' = (marked dn status)(sid \<mapsto> failure_status eff))
      | _ \<Rightarrow> subseq dn ss \<and> new = map (\<lambda>s. (s, None)) dn \<and> status' = marked dn status
          \<and> (r = StepsDone \<longrightarrow> (\<forall>s \<in> set ss. \<not> open_step status' s))"
    unfolding pass_adds_def by blast
  have nof: "failures (map (\<lambda>s. (s, None)) dn) = 0" "succeeded_ids (map (\<lambda>s. (s, None)) dn) = ps_id ` set dn"
    by (auto simp: failures_def succeeded_ids_def image_iff)
  show "r = StepsDone \<Longrightarrow> \<forall>s \<in> set ss. \<not> open_step status' s"
    using r by auto
  show "r = StepsFailed sid e eff \<Longrightarrow> \<exists>s. new \<noteq> [] \<and> last new = (s, Some eff) \<and> ps_id s = sid"
    using r by auto
  consider (F) sid' e' eff' s where "r = StepsFailed sid' e' eff'" "ps_id s = sid'" "open_step status s"
      "sid' \<notin> ps_id ` set dn" "subseq (dn @ [s]) ss"
      "new = map (\<lambda>s. (s, None)) dn @ [(s, Some eff')]"
      "status' = (marked dn status)(sid' \<mapsto> failure_status eff')"
    | (N) "subseq dn ss" "new = map (\<lambda>s. (s, None)) dn" "status' = marked dn status"
    using r by (cases r) auto
  then have "sorted_wrt later_ok new \<and> failures new \<le> 1 \<and> fst ` set new \<subseteq> set ss
    \<and> (\<forall>c \<in> set new. open_step status (fst c))
    \<and> (status' i = Some StSucceeded \<longleftrightarrow> status i = Some StSucceeded \<or> i \<in> succeeded_ids new)
    \<and> (status' i = Some StUnknown \<longrightarrow> status i = Some StUnknown \<or> (\<exists>sid e. r = StepsFailed sid e EffUnknown))
    \<and> (\<forall>c \<in> set new. snd c = Some EffUnknown \<longrightarrow> (\<exists>sid e. r = StepsFailed sid e EffUnknown))"
  proof cases
    case F
    have one: "failures [(s, Some eff')] = 1" "succeeded_ids [(s, Some eff')] = {}"
      by (auto simp: failures_def succeeded_ids_def)
    have "sorted_wrt later_ok new"
      using sorted_later [OF d(1)] F(2,4) by (auto simp: F(6) sorted_wrt_append later_ok_def image_iff)
    moreover have "fst ` set new \<subseteq> set ss"
      using subseq_in [OF F(5)] by (auto simp: F(6))
    moreover have "\<forall>c \<in> set new. open_step status (fst c)" using d(2) F(3) by (auto simp: F(6))
    moreover have "status' i = Some StSucceeded \<longleftrightarrow> status i = Some StSucceeded \<or> i \<in> succeeded_ids new"
      using F(2,3,4) by (auto simp: F(6,7) nof one marked_def failure_status_def open_step_def)
    moreover have "status' i = Some StUnknown \<longrightarrow> status i = Some StUnknown \<or> (\<exists>sid e. r = StepsFailed sid e EffUnknown)"
      by (auto simp: F(1,7) marked_def failure_status_def)
    moreover have "\<forall>c \<in> set new. snd c = Some EffUnknown \<longrightarrow> (\<exists>sid e. r = StepsFailed sid e EffUnknown)"
      by (auto simp: F(1,6))
    moreover have "failures new \<le> 1" by (simp add: F(6) nof one)
    ultimately show ?thesis by blast
  next
    case N
    have "fst ` set new \<subseteq> set ss" using subseq_in [OF N(1)] by (auto simp: N(2))
    moreover have "\<forall>c \<in> set new. open_step status (fst c) \<and> snd c = None" using d(2) by (auto simp: N(2))
    moreover have "status' i = Some StSucceeded \<longleftrightarrow> status i = Some StSucceeded \<or> i \<in> succeeded_ids new"
      by (auto simp: N(2,3) nof marked_def)
    moreover have "status' i = Some StUnknown \<longrightarrow> status i = Some StUnknown"
      by (auto simp: N(3) marked_def)
    ultimately show ?thesis using sorted_later [OF d(1)] nof(1) by (auto simp: N(2))
  qed
  then show "sorted_wrt later_ok new" "failures new \<le> 1" "fst ` set new \<subseteq> set ss"
    "\<forall>c \<in> set new. open_step status (fst c)"
    "status' i = Some StSucceeded \<longleftrightarrow> status i = Some StSucceeded \<or> i \<in> succeeded_ids new"
    "status' i = Some StUnknown \<Longrightarrow> status i = Some StUnknown \<or> (\<exists>sid e. r = StepsFailed sid e EffUnknown)"
    "\<And>c. c \<in> set new \<Longrightarrow> snd c = Some EffUnknown \<Longrightarrow> \<exists>sid e. r = StepsFailed sid e EffUnknown"
    by (elim conjE; (assumption | blast))+
qed

text \<open>Everything a run may do to the outside world with one plan.\<close>

definition calls_ok :: "plan_step list \<Rightarrow> (plan_step \<times> effect_state option) list \<Rightarrow> bool" where
  "calls_ok plan calls \<longleftrightarrow> sorted_wrt later_ok calls \<and> failures calls \<le> 2 \<and> fst ` set calls \<subseteq> set plan"

definition completes :: "plan_step list \<Rightarrow> (plan_step \<times> effect_state option) list \<Rightarrow> bool" where
  "completes plan calls \<longleftrightarrow> ps_id ` set plan \<subseteq> succeeded_ids calls"

lemma second_round:
  assumes "plan_rounds H t0 plan True status st = (stop, st')"
  shows "\<exists>r status' new. ls_calls st' = ls_calls st @ new \<and> pass_adds plan status r status' new
    \<and> (stop = LoopCompleted \<longrightarrow> r = StepsDone)"
proof -
  obtain r status' st1 where e: "exec_steps H plan status st = (r, status', st1)"
    by (metis prod_cases3)
  have "ls_calls st' = ls_calls st1 \<and> (stop = LoopCompleted \<longrightarrow> r = StepsDone)"
    using assms unfolding plan_rounds.simps [of H t0 plan True status st] e
    by (cases r) (auto simp: stop_run_def split: if_splits)
  with exec_steps_calls [OF e] show ?thesis by metis
qed

lemma first_round:
  assumes "plan_rounds H t0 plan False status st = (stop, st')"
  obtains (one) r status' new where "ls_calls st' = ls_calls st @ new" "pass_adds plan status r status' new"
      "stop = LoopCompleted \<longrightarrow> r = StepsDone"
    | (two) sid e eff status1 new1 r status2 new2 where "ls_calls st' = ls_calls st @ new1 @ new2"
      "pass_adds plan status (StepsFailed sid e eff) status1 new1" "eff \<noteq> EffUnknown"
      "pass_adds plan status1 r status2 new2" "stop = LoopCompleted \<longrightarrow> r = StepsDone"
proof -
  obtain r status1 st1 where e: "exec_steps H plan status st = (r, status1, st1)"
    by (metis prod_cases3)
  from exec_steps_calls [OF e] obtain new1 where n1: "ls_calls st1 = ls_calls st @ new1"
    "pass_adds plan status r status1 new1" by blast
  show thesis
  proof (cases "\<exists>sid e eff. r = StepsFailed sid e eff \<and> eff \<noteq> EffUnknown")
    case True
    then obtain sid e1 eff where r: "r = StepsFailed sid e1 eff" "eff \<noteq> EffUnknown" by blast
    define st2 where "st2 = enter Executing False (enter Planning True (enter Replanning False
              (ev H Replanned sid (metric (replan_count_update (\<lambda>n. n + 1)) st1))))"
    have "plan_rounds H t0 plan True status1 st2 = (stop, st')"
      using assms r unfolding plan_rounds.simps [of H t0 plan False status st] e st2_def by simp
    from second_round [OF this] obtain r2 status2 new2 where
      "ls_calls st' = ls_calls st2 @ new2" "pass_adds plan status1 r2 status2 new2" "stop = LoopCompleted \<longrightarrow> r2 = StepsDone"
      by blast
    moreover have "ls_calls st2 = ls_calls st @ new1" by (simp add: st2_def n1)
    ultimately show thesis using n1(2) r by (intro two) auto
  next
    case False
    then have "ls_calls st' = ls_calls st1 \<and> (stop = LoopCompleted \<longrightarrow> r = StepsDone)"
      using assms unfolding plan_rounds.simps [of H t0 plan False status st] e
      by (cases r) (auto simp: stop_run_def split: if_splits)
    with n1 show thesis by (intro one) auto
  qed
qed

lemma plan_rounds_calls:
  assumes "plan_rounds H t0 plan False (\<lambda>_. None) st = (stop, st')"
  shows "\<exists>new. ls_calls st' = ls_calls st @ new \<and> calls_ok plan new \<and> (stop = LoopCompleted \<longrightarrow> completes plan new)"
  using assms
proof (cases rule: first_round)
  case (one r status' new)
  note f = pass_adds_facts [OF one(2)]
  have "completes plan new" if "r = StepsDone"
  proof -
    have "status' (ps_id s) = Some StSucceeded" if "s \<in> set plan" for s
      using f(6) [OF \<open>r = StepsDone\<close>] that f(7) [of "ps_id s"] \<open>r = StepsDone\<close> by (auto simp: open_step_def)
    then show ?thesis using f(5) by (auto simp: completes_def)
  qed
  with one f(1-3) show ?thesis by (auto simp: calls_ok_def)
next
  case (two sid e eff status1 new1 r status2 new2)
  note f = pass_adds_facts [OF two(2)] and g = pass_adds_facts [OF two(4)]
  have "later_ok a b" if "a \<in> set new1" "b \<in> set new2" for a b
  proof -
    have "snd a \<noteq> Some EffUnknown" using f(9) [OF that(1)] two(3) by auto
    moreover have "ps_id (fst a) \<noteq> ps_id (fst b)" if "snd a = None"
    proof
      assume "ps_id (fst a) = ps_id (fst b)"
      with that \<open>a \<in> set new1\<close> have "ps_id (fst b) \<in> succeeded_ids new1"
        using succeeded_ids_mem [of a new1] by simp
      then show False using g(4) \<open>b \<in> set new2\<close> f(5) by (auto simp: open_step_def)
    qed
    ultimately show ?thesis by (simp add: later_ok_def)
  qed
  then have ok: "calls_ok plan (new1 @ new2)"
    using f(1-3) g(1-3) by (auto simp: calls_ok_def sorted_wrt_append)
  have "completes plan (new1 @ new2)" if "r = StepsDone"
  proof -
    have "status2 (ps_id s) = Some StSucceeded" if "s \<in> set plan" for s
      using g(6) [OF \<open>r = StepsDone\<close>] that g(7) [of "ps_id s"] f(7) [of "ps_id s"] \<open>r = StepsDone\<close> two(3)
      by (auto simp: open_step_def)
    then show ?thesis using f(5) g(5) by (auto simp: completes_def)
  qed
  with two ok show ?thesis by auto
qed

section \<open>Whole runs\<close>

definition authorized :: "'x agent_host \<Rightarrow> string \<Rightarrow> plan_step list \<Rightarrow> plan_step list \<Rightarrow> bool" where
  "authorized H input plan plan' \<longleftrightarrow>
     (\<not> list_ex ps_requires_approval plan \<and> plan' = plan)
     \<or> (\<exists>k rq d. h_sink H k rq = Some d \<and> ad_request d = rq_id rq \<and> rq_goal rq = input \<and> rq_steps rq = plan
        \<and> (ad_decision d = Approve \<and> plan' = plan
           \<or> (\<exists>doc. ad_decision d = ApproveEdited doc \<and> doc_ok doc \<and> plan' = pd_steps doc)))"

definition from_model :: "'x agent_host \<Rightarrow> string \<Rightarrow> agent_proposal \<Rightarrow> bool" where
  "from_model H input p \<longleftrightarrow> (\<exists>k prompt raw q. h_llm H k prompt = Ok raw \<and> validate_llm_output (h_read H) raw = Ok q
     \<and> p = finish_proposal (pq_intent (parse_intent (h_lower H) input)) q)"

lemma ask_fields:
  "gate_ask s u steps now g = (Some rq, g') \<Longrightarrow> rq_goal rq = u \<and> rq_steps rq = steps"
  by (auto simp: gate_ask_def Let_def split: if_splits)

lemma approve_plan_calls:
  assumes "approve_plan H input plan st = (r, st')"
  shows "ls_calls st' = ls_calls st" "ls_session st' = ls_session st"
  using assms
  by (auto simp: approve_plan_def Let_def ev_def tick_def metric_def
      split: if_splits prod.splits option.splits sum.splits list.splits)

lemma approve_plan_authorized:
  assumes "approve_plan H input plan st = (Some plan', st')"
  shows "authorized H input plan plan'"
proof (cases "list_ex ps_requires_approval plan")
  case False
  with assms show ?thesis by (simp add: approve_plan_def authorized_def)
next
  case True
  obtain rqo gate where ask: "gate_ask (as_id (ls_session st)) input plan (h_clock H (ls_tick st)) (gate_new DEFAULT_TTL_MS) = (rqo, gate)"
    by (metis prod.exhaust)
  with assms True obtain rq where rq: "rqo = Some rq"
    by (cases rqo) (auto simp: approve_plan_def)
  from assms True ask rq obtain k d now where d: "h_sink H k rq = Some d" "ad_request d = rq_id rq"
    "fst (gate_decide (rq_id rq) (ad_decision d) now gate) = Ok plan'" "plan' \<noteq> []"
    by (auto simp: approve_plan_def Let_def split: if_splits option.splits sum.splits list.splits)
  from ask rq have a: "gate_ask (as_id (ls_session st)) input plan (h_clock H (ls_tick st)) (gate_new DEFAULT_TTL_MS) = (Some rq, gate)"
    by simp
  have p: "ag_pending gate = Some (rq, False)" using ask_then_pending [OF a] by simp
  from decide_Ok [OF d(3)] p d(4) have
    "ad_decision d = Approve \<and> plan' = rq_steps rq
      \<or> (\<exists>doc. ad_decision d = ApproveEdited doc \<and> doc_ok doc \<and> plan' = pd_steps doc)" by auto
  with d(1,2) ask_fields [OF a] show ?thesis unfolding authorized_def by blast
qed

lemma llm_timed_frame:
  "llm_timed H prompt st = (r, st') \<Longrightarrow> ls_calls st' = ls_calls st \<and> ls_session st' = ls_session st
    \<and> (\<exists>k. r = h_llm H k prompt)"
  by (auto simp: llm_timed_def Let_def tick_def metric_def)

lemma pipeline_frame:
  assumes "run_pipeline lower read input context catalog (llm_timed H) mc budget st = (r, st')"
  shows "ls_calls st' = ls_calls st" "ls_session st' = ls_session st"
  using assms llm_timed_frame [of H]
  by (auto simp: run_pipeline_def Let_def split: option.splits prod.splits sum.splits)

definition run_facts_of :: "'x agent_host \<Rightarrow> string \<Rightarrow> loop_stop \<Rightarrow> (plan_step \<times> effect_state option) list \<Rightarrow> bool" where
  "run_facts_of H input stop calls \<longleftrightarrow> (calls = [] \<and> stop \<noteq> LoopCompleted)
     \<or> (\<exists>p plan. from_model H input p \<and> proposal_ok p \<and> authorized H input (pr_plan p) plan
          \<and> calls_ok plan calls \<and> (stop = LoopCompleted \<longrightarrow> completes plan calls))"

lemma stop_run_eq: "stop_run H t0 q stop st = (stop', st') \<Longrightarrow> stop' = stop \<and> ls_calls st' = ls_calls st"
  by (auto simp: stop_run_def)

lemma plan_and_execute_facts:
  assumes "plan_and_execute H input context catalog mc budget t0 st = (stop, st')" "ls_calls st = []"
  shows "run_facts_of H input stop (ls_calls st')"
proof (cases "h_cancel H (ls_tick st)")
  case True
  with assms show ?thesis
    by (auto simp: plan_and_execute_def run_facts_of_def dest!: stop_run_eq)
next
  case False
  obtain r st1 where pl: "run_pipeline (h_lower H) (h_read H) input context catalog (llm_timed H) mc budget (tick st) = (r, st1)"
    by (metis prod.exhaust)
  from pipeline_frame(1) [OF pl] have c1: "ls_calls st1 = []" by (simp add: assms(2))
  consider (E) e where "r = Inl e" | (C) q cr where "r = Ok (Clarify q cr)"
    | (P) p risks prompt where "r = Ok (Proposal p risks prompt)"
    by (metis sum.exhaust pipeline_outcome.exhaust)
  then show ?thesis
  proof cases
    case E
    with assms False pl c1 show ?thesis
      by (auto simp: plan_and_execute_def run_facts_of_def dest!: stop_run_eq)
  next
    case C
    with assms False pl c1 show ?thesis
      by (auto simp: plan_and_execute_def run_facts_of_def dest!: stop_run_eq)
  next
    case P
    note pl' = pl [unfolded P]
    from run_pipeline_model [OF pl'] obtain raw q where
      q: "llm_timed H prompt (tick st) = (Ok raw, st1)" "validate_llm_output (h_read H) raw = Ok q"
        "p = finish_proposal (pq_intent (parse_intent (h_lower H) input)) q" by blast
    have fm: "from_model H input p" using q llm_timed_frame [OF q(1)] unfolding from_model_def by metis
    have ok: "proposal_ok p" by (rule run_pipeline_Proposal(1) [OF pl'])
    define st2 where "st2 = ev H PlanGenerated (join_refs (pr_plan p))
                (tick (metric (planning_latency_ms_update (\<lambda>n. n + h_elapsed H (ls_tick st1))) st1))"
    obtain ap st3 where ap: "approve_plan H input (pr_plan p) st2 = (ap, st3)" by (metis prod.exhaust)
    have c3: "ls_calls st3 = []" using approve_plan_calls(1) [OF ap] by (simp add: st2_def c1)
    show ?thesis
    proof (cases ap)
      case None
      with assms False pl P ap c3 show ?thesis
        by (auto simp: plan_and_execute_def run_facts_of_def st2_def [symmetric] Let_def dest!: stop_run_eq)
    next
      case (Some plan)
      then have "plan_rounds H t0 plan False (\<lambda>_. None) (enter Executing True st3) = (stop, st')"
        using assms(1) False pl P ap by (simp add: plan_and_execute_def st2_def [symmetric] Let_def)
      from plan_rounds_calls [OF this] c3 have
        "calls_ok plan (ls_calls st') \<and> (stop = LoopCompleted \<longrightarrow> completes plan (ls_calls st'))" by simp
      moreover have "authorized H input (pr_plan p) plan"
        using ap Some by (intro approve_plan_authorized) simp
      ultimately show ?thesis using fm ok unfolding run_facts_of_def by blast
    qed
  qed
qed

lemma run_agent_facts:
  assumes "run_agent H input context catalog mc budget st = (stop, st')" "ls_calls st = []"
  shows "run_facts_of H input stop (ls_calls st')"
proof -
  define st2 where "st2 = enter Observing True ((tick st)\<lparr>ls_tm := tm_event (h_clock H (ls_tick st)) SessionCreated
    (as_id (ls_session (tick st))) (ls_tm (tick st))\<rparr>)"
  have c2: "ls_calls st2 = []" by (simp add: st2_def assms(2))
  show ?thesis
  proof (cases "fst (transition Observing True (ls_session ((tick st)\<lparr>ls_tm := tm_event (h_clock H (ls_tick st)) SessionCreated
    (as_id (ls_session (tick st))) (ls_tm (tick st))\<rparr>))) = Err StepBudgetExhausted")
    case True
    with assms(1) have "stop_run H (h_clock H (ls_tick st)) BudgetExhausted (LoopFailed ''(budget)'' ''step budget exhausted'')
       (metric (budget_exceeded_count_update (\<lambda>n. n + 1)) (ev H BudgetExceeded ''(budget)'' st2)) = (stop, st')"
      by (simp add: run_agent_def Let_def st2_def)
    from stop_run_eq [OF this] show ?thesis by (auto simp: c2 run_facts_of_def)
  next
    case False
    with assms(1) have "plan_and_execute H input context catalog mc budget (h_clock H (ls_tick st)) (enter Planning False st2) = (stop, st')"
      by (simp add: run_agent_def Let_def st2_def)
    then show ?thesis by (rule plan_and_execute_facts) (simp add: c2)
  qed
qed

text \<open>Where the session ends.\<close>

definition stop_state :: "loop_stop \<Rightarrow> run_state" where
  "stop_state stop = (case stop of LoopCompleted \<Rightarrow> Completed | LoopFailed _ _ \<Rightarrow> RunFailed | LoopCancelled \<Rightarrow> Cancelled)"

lemma session_frame [simp]:
  "ls_session (tick st) = ls_session st" "ls_session (ev H e d st) = ls_session st"
  "ls_session (metric f st) = ls_session st"
  "ls_session (finish_run H t0 stop st) = ls_session st"
  "ls_session (enter q c st) = snd (transition q c (ls_session st))"
  by (simp_all add: tick_def ev_def metric_def enter_def finish_run_def Let_def split: loop_stop.split)

lemma exec_steps_session: "exec_steps H ss status st = (r, status', st') \<Longrightarrow> ls_session st' = ls_session st"
proof (induction ss arbitrary: status st)
  case (Cons s ss)
  then show ?case by (fastforce simp: Let_def split: if_splits prod.splits sum.splits)
qed simp

lemma stop_run_state:
  "stop_run H t0 q stop st = (stop', st') \<Longrightarrow> q = stop_state stop \<Longrightarrow> as_state (ls_session st) \<in> {Planning, Executing} \<Longrightarrow>
    q = Completed \<longrightarrow> as_state (ls_session st) = Executing \<Longrightarrow>
    as_state (ls_session st') = stop_state stop'"
  by (cases stop) (auto simp: stop_run_def stop_state_def transition_def legal_def is_terminal_def Let_def)

lemma replan_moves:
  "as_state s = Executing \<Longrightarrow>
    as_state (snd (transition Executing False (snd (transition Planning True (snd (transition Replanning False s)))))) = Executing"
  by (simp add: transition_def legal_def is_terminal_def Let_def)

lemma plan_rounds_state:
  "plan_rounds H t0 plan replanned status st = (stop, st') \<Longrightarrow> as_state (ls_session st) = Executing \<Longrightarrow>
    as_state (ls_session st') = stop_state stop"
proof (induction H t0 plan replanned status st rule: plan_rounds.induct)
  case (1 H t0 plan replanned status st)
  obtain r status1 st1 where e: "exec_steps H plan status st = (r, status1, st1)"
    by (metis prod_cases3)
  have s1: "as_state (ls_session st1) = Executing" using exec_steps_session [OF e] "1.prems"(2) by simp
  note u = "1.prems"(1) [unfolded plan_rounds.simps [of H t0 plan replanned status st] e prod.case]
  show ?case
  proof (cases r)
    case StepsDone
    with u have "stop_run H t0 Completed LoopCompleted st1 = (stop, st')" by simp
    from stop_run_state [OF this] s1 show ?thesis by (simp add: stop_state_def)
  next
    case StepsCancelled
    with u have "stop_run H t0 Cancelled LoopCancelled st1 = (stop, st')" by simp
    from stop_run_state [OF this] s1 show ?thesis by (simp add: stop_state_def)
  next
    case (StepsFailed sid er eff)
    show ?thesis
    proof (cases "eff = EffUnknown \<or> replanned")
      case True
      then obtain msg where "stop_run H t0 RunFailed (LoopFailed sid msg) st1 = (stop, st')"
        using u StepsFailed by (cases "eff = EffUnknown") simp_all
      from stop_run_state [OF this] s1 show ?thesis by (simp add: stop_state_def)
    next
      case False
      then have n: "eff \<noteq> EffUnknown" "\<not> replanned" by auto
      have "plan_rounds H t0 plan True status1 (enter Executing False (enter Planning True (enter Replanning False
              (ev H Replanned sid (metric (replan_count_update (\<lambda>n. n + 1)) st1))))) = (stop, st')"
        using u StepsFailed n by simp
      from "1.IH" [OF e [symmetric] StepsFailed refl n this] show ?thesis by (simp add: replan_moves s1)
    qed
  qed
qed

lemma plan_and_execute_state:
  assumes "plan_and_execute H input context catalog mc budget t0 st = (stop, st')"
    "as_state (ls_session st) = Planning" "as_turns (ls_session st) < as_max_turns (ls_session st)"
  shows "as_state (ls_session st') = stop_state stop"
proof (cases "h_cancel H (ls_tick st)")
  case True
  with assms(1) have "stop_run H t0 Cancelled LoopCancelled (tick st) = (stop, st')" by (simp add: plan_and_execute_def)
  from stop_run_state [OF this] assms(2) show ?thesis by (simp add: stop_state_def)
next
  case False
  obtain r st1 where pl: "run_pipeline (h_lower H) (h_read H) input context catalog (llm_timed H) mc budget (tick st) = (r, st1)"
    by (metis prod.exhaust)
  have s1: "ls_session st1 = ls_session st" using pipeline_frame(2) [OF pl] by simp
  consider (E) e where "r = Inl e" | (C) q cr where "r = Ok (Clarify q cr)"
    | (P) p risks prompt where "r = Ok (Proposal p risks prompt)"
    by (metis sum.exhaust pipeline_outcome.exhaust)
  then show ?thesis
  proof cases
    case E
    with assms(1) False pl have "stop_run H t0 RunFailed (LoopFailed ''(plan)'' e)
            (metric (model_error_count_update (\<lambda>n. n + 1)) st1) = (stop, st')" by (simp add: plan_and_execute_def)
    from stop_run_state [OF this] s1 assms(2) show ?thesis by (simp add: stop_state_def)
  next
    case C
    with assms(1) False pl have "stop_run H t0 RunFailed (LoopFailed ''(clarify)'' q)
            (tick (metric (planning_latency_ms_update (\<lambda>n. n + h_elapsed H (ls_tick st1))) st1)) = (stop, st')"
      by (simp add: plan_and_execute_def)
    from stop_run_state [OF this] s1 assms(2) show ?thesis by (simp add: stop_state_def)
  next
    case P
    define st2 where "st2 = ev H PlanGenerated (join_refs (pr_plan p))
                (tick (metric (planning_latency_ms_update (\<lambda>n. n + h_elapsed H (ls_tick st1))) st1))"
    obtain ap st3 where ap: "approve_plan H input (pr_plan p) st2 = (ap, st3)" by (metis prod.exhaust)
    have s3: "ls_session st3 = ls_session st" using approve_plan_calls(2) [OF ap] by (simp add: st2_def s1)
    show ?thesis
    proof (cases ap)
      case None
      with assms(1) False pl P ap have "stop_run H t0 Cancelled LoopCancelled st3 = (stop, st')"
        by (simp add: plan_and_execute_def st2_def [symmetric] Let_def)
      from stop_run_state [OF this] s3 assms(2) show ?thesis by (simp add: stop_state_def)
    next
      case (Some plan)
      then have "plan_rounds H t0 plan False (\<lambda>_. None) (enter Executing True st3) = (stop, st')"
        using assms(1) False pl P ap by (simp add: plan_and_execute_def st2_def [symmetric] Let_def)
      from plan_rounds_state [OF this] show ?thesis
        using assms(2,3) s3 by (simp add: transition_def legal_def is_terminal_def Let_def)
    qed
  qed
qed

lemma run_agent_state:
  assumes "run_agent H input context catalog mc budget st = (stop, st')"
    "ls_session st = session_new sid n" "2 \<le> n"
  shows "as_state (ls_session st') = stop_state stop"
proof -
  define st2 where "st2 = enter Observing True ((tick st)\<lparr>ls_tm := tm_event (h_clock H (ls_tick st)) SessionCreated
    (as_id (ls_session (tick st))) (ls_tm (tick st))\<rparr>)"
  have m: "max n 1 = n" "1 < n" "0 < n" using assms(3) by (auto simp: max_def word_le_nat_alt word_less_nat_alt)
  then have obs: "fst (transition Observing True (ls_session st)) \<noteq> Err StepBudgetExhausted"
    by (simp add: assms(2) session_new_def transition_def legal_def is_terminal_def Let_def)
  with assms(1) have run: "plan_and_execute H input context catalog mc budget (h_clock H (ls_tick st)) (enter Planning False st2) = (stop, st')"
    by (simp add: run_agent_def Let_def st2_def)
  have "as_state (ls_session (enter Planning False st2)) = Planning"
    "as_turns (ls_session (enter Planning False st2)) = 1" "as_max_turns (ls_session (enter Planning False st2)) = n"
    using m by (simp_all add: st2_def assms(2) session_new_def transition_def legal_def is_terminal_def Let_def)
  with m show ?thesis by (intro plan_and_execute_state [OF run]) simp_all
qed

end
