(* ===== verification/AiPlanner.thy ===== *)
theory AiPlanner
  imports WfRunner AiPrompt
begin

text \<open>
  Planners: what they see (\<open>ActionCatalogItem\<close>), the keyword planner and the default replanning of
  \<open>launcher-workflow/src/proposal.rs\<close>, and the planner over a language model with its strict output
  and catalog binding (\<open>launcher-ai/src/planner.rs\<close>, \<open>provider_caps.rs\<close>). The model is a function
  from the user prompt (the system prompt is a constant), the typed JSON reader of the strict
  output is an argument, and so is Unicode lower-casing. Diagnostics keep the counts, not the latency.
\<close>

section \<open>The planner's view\<close>

fun action_type_of :: "action_kind \<Rightarrow> string" where
  "action_type_of ActOpen = ''system.open''"
| "action_type_of ActCopy = ''system.copy_to_clipboard''"
| "action_type_of ActReveal = ''system.reveal''"
| "action_type_of ActOpenTerminalHere = ''system.open_terminal_here''"
| "action_type_of ActExecute = ''system.execute''"
| "action_type_of ActRunAsAdmin = ''system.run_as_admin''"
| "action_type_of ActPaste = ''system.paste''"
| "action_type_of ActPluginInvoke = ''plugin.invoke''"

definition unwrap_or_default :: "string option \<Rightarrow> string" where
  "unwrap_or_default v = (case v of Some s \<Rightarrow> s | None \<Rightarrow> [])"

definition items_from_command :: "command \<Rightarrow> action_item list" where
  "items_from_command c = map (\<lambda>a. \<lparr>ai_provider = cmd_provider c, ai_command = cmd_id c,
     ai_action = unwrap_or_default (ac_id a), ai_title = cmd_title c, ai_description = cmd_subtitle c,
     ai_action_title = ac_title a, ai_action_type = action_type_of (ac_kind a), ai_input_schema = None\<rparr>)
     (cmd_actions c)"

section \<open>Keyword planner\<close>

definition keyword_match :: "(string \<Rightarrow> string) \<Rightarrow> string \<Rightarrow> command \<Rightarrow> bool" where
  "keyword_match lower text c \<longleftrightarrow>
     (contains_str (lower (cmd_title c)) text \<and> text \<noteq> [])
     \<or> list_ex (\<lambda>k. text \<noteq> [] \<and> (lower k = text \<or> contains_str text (lower k))) (cmd_keywords c)"

definition keyword_proposal :: "(string \<Rightarrow> string) \<Rightarrow> string \<Rightarrow> command \<Rightarrow> action_proposal list" where
  "keyword_proposal lower text c =
     (if list_all (\<lambda>a. ac_disabled a \<noteq> None) (cmd_actions c) then []
      else if keyword_match lower text c then
        (case primary_action c of
           Some a \<Rightarrow> [\<lparr>pr_provider = cmd_provider c, pr_command = cmd_id c,
             pr_action = unwrap_or_default (ac_id a), pr_input = JNull\<rparr>]
         | None \<Rightarrow> [])
      else [])"

definition keyword_plan :: "(string \<Rightarrow> string) \<Rightarrow> string \<Rightarrow> command list \<Rightarrow> action_proposal list" where
  "keyword_plan lower input catalog = concat (map (keyword_proposal lower (lower input)) catalog)"

text \<open>The default \<open>replan\<close> of the trait.\<close>

definition default_replan :: "(string \<Rightarrow> command list \<Rightarrow> action_proposal list) \<Rightarrow> string \<Rightarrow> command list \<Rightarrow>
    (string \<times> string) list \<Rightarrow> action_proposal list" where
  "default_replan plan input catalog failed =
     filter (\<lambda>p. (pr_command p, pr_action p) \<notin> set failed) (plan input catalog)"

section \<open>The planner over a language model\<close>

datatype llm_error = LlmUnavailable string | LlmTimeout | LlmInvalidOutput string

text \<open>\<open>s.split(p)\<close> for a text \<open>p\<close>, \<open>trim_start\<close>, \<open>trim_start_matches\<close>.\<close>

function split_text :: "string \<Rightarrow> string \<Rightarrow> string \<Rightarrow> string list" where
  "split_text p acc s =
     (if p = [] \<or> s = [] then [rev acc @ s]
      else if starts_with s p then rev acc # split_text p [] (drop (length p) s)
      else split_text p (hd s # acc) (tl s))"
  by pat_completeness auto
termination
  by (relation "measure (\<lambda>(p, acc, s). length s)") (auto simp: neq_Nil_conv)

definition trim_start :: "string \<Rightarrow> string" where
  "trim_start s = concat (dropWhile is_whitespace (utf8_chars s))"

function trim_start_matches :: "string \<Rightarrow> string \<Rightarrow> string" where
  "trim_start_matches p s =
     (if p \<noteq> [] \<and> s \<noteq> [] \<and> starts_with s p then trim_start_matches p (drop (length p) s) else s)"
  by pat_completeness auto
termination
  by (relation "measure (\<lambda>(p, s). length s)") auto

declare split_text.simps [simp del] trim_start_matches.simps [simp del]

definition strict_json_text :: "string \<Rightarrow> llm_error + string" where
  "strict_json_text text =
     (let t = str_trim text in
      if starts_with t [CHR 0x7B] then Ok t
      else case find (\<lambda>seg. starts_with (trim_start seg) [CHR 0x7B]) (split_text (replicate 3 (CHR 0x60)) [] t) of
          Some seg \<Rightarrow> Ok (trim_start (trim_start_matches ''json'' (trim_start seg)))
        | None \<Rightarrow> Err (LlmInvalidOutput ''no json object found''))"

definition parse_strict :: "(string \<Rightarrow> string + action_proposal list) \<Rightarrow> string \<Rightarrow> llm_error + action_proposal list" where
  "parse_strict read text = (case strict_json_text text of
     Inl e \<Rightarrow> Err e
   | Inr js \<Rightarrow> (case read js of Inl e \<Rightarrow> Err (LlmInvalidOutput (''schema: '' @ e)) | Inr ps \<Rightarrow> Ok ps))"

definition route_exists :: "command list \<Rightarrow> action_proposal \<Rightarrow> bool" where
  "route_exists catalog p \<longleftrightarrow> list_ex (\<lambda>c. cmd_provider c = pr_provider p \<and> cmd_id c = pr_command p
     \<and> list_ex (\<lambda>a. ac_id a = Some (pr_action p)) (cmd_actions c)) catalog"

text \<open>Identity fields of the input must agree with the route.\<close>

definition input_text :: "action_proposal \<Rightarrow> string \<Rightarrow> string option" where
  "input_text p key = Option.bind (json_get (pr_input p) key) json_as_str"

definition bound_route :: "command list \<Rightarrow> action_proposal \<Rightarrow> bool" where
  "bound_route catalog p \<longleftrightarrow> route_exists catalog p
     \<and> (case input_text p ''server_id'' of Some sid \<Rightarrow> pr_provider p = ''mcp:'' @ sid | None \<Rightarrow> True)
     \<and> (case input_text p ''tool_name'' of Some tn \<Rightarrow> tn = pr_command p | None \<Rightarrow> True)"

record llm_planner =
  lp_max_proposals :: nat
  lp_max_catalog :: nat
  lp_fallback :: bool

definition llm_planner_new :: llm_planner where
  "llm_planner_new = \<lparr>lp_max_proposals = 8, lp_max_catalog = 50, lp_fallback = True\<rparr>"

record planner_diagnostics =
  pd_candidates :: nat
  pd_generated :: nat
  pd_rejected :: nat
  pd_fallback :: bool

record planner_env =
  pe_generate :: "string \<Rightarrow> llm_error + string"
  pe_read :: "string \<Rightarrow> string + action_proposal list"
  pe_lower :: "string \<Rightarrow> string"
  pe_serde :: serde

definition fallback_or_empty :: "planner_env \<Rightarrow> llm_planner \<Rightarrow> string \<Rightarrow> command list \<Rightarrow> nat \<Rightarrow>
    action_proposal list \<times> planner_diagnostics" where
  "fallback_or_empty E lp input catalog candidates =
     (if lp_fallback lp then
        (let ps = keyword_plan (pe_lower E) input catalog
         in (ps, \<lparr>pd_candidates = candidates, pd_generated = length ps, pd_rejected = 0, pd_fallback = True\<rparr>))
      else ([], \<lparr>pd_candidates = candidates, pd_generated = 0, pd_rejected = 0, pd_fallback = False\<rparr>))"

definition plan_with_diagnostics :: "planner_env \<Rightarrow> llm_planner \<Rightarrow> string \<Rightarrow> command list \<Rightarrow>
    action_proposal list \<times> planner_diagnostics" where
  "plan_with_diagnostics E lp input catalog =
     (let items = concat (map items_from_command catalog); candidates = length items in
      case pe_generate E (build_user_prompt (pe_serde E) input items (lp_max_catalog lp)) of
        Inl e \<Rightarrow> fallback_or_empty E lp input catalog candidates
      | Inr text \<Rightarrow> (case parse_strict (pe_read E) text of
          Inl e \<Rightarrow> fallback_or_empty E lp input catalog candidates
        | Inr strict \<Rightarrow>
            let taken = take (lp_max_proposals lp) strict; ps = filter (bound_route catalog) taken
            in (ps, \<lparr>pd_candidates = candidates, pd_generated = length ps,
                 pd_rejected = length (filter (\<lambda>p. \<not> bound_route catalog p) taken), pd_fallback = False\<rparr>)))"

definition llm_plan :: "planner_env \<Rightarrow> llm_planner \<Rightarrow> string \<Rightarrow> command list \<Rightarrow> action_proposal list" where
  "llm_plan E lp input catalog = fst (plan_with_diagnostics E lp input catalog)"

section \<open>Every planned proposal comes from the catalog\<close>

lemma route_exists_iff:
  "route_exists catalog p \<longleftrightarrow> (\<exists>c \<in> set catalog. cmd_provider c = pr_provider p \<and> cmd_id c = pr_command p
     \<and> (\<exists>a \<in> set (cmd_actions c). ac_id a = Some (pr_action p)))"
  by (simp add: route_exists_def list_ex_iff)

lemma primary_action_Some:
  "primary_action c = Some a \<Longrightarrow> a \<in> set (cmd_actions c) \<and> ac_disabled a = None"
  by (auto simp: primary_action_def find_Some_iff)

lemma keyword_plan_routes:
  assumes "p \<in> set (keyword_plan lower input catalog)"
  shows "\<exists>c \<in> set catalog. \<exists>a \<in> set (cmd_actions c). cmd_provider c = pr_provider p \<and> cmd_id c = pr_command p
    \<and> ac_disabled a = None \<and> pr_action p = unwrap_or_default (ac_id a) \<and> lower input \<noteq> []"
proof -
  from assms obtain c where c: "c \<in> set catalog" "p \<in> set (keyword_proposal lower (lower input) c)"
    by (auto simp: keyword_plan_def)
  from c(2) have hit: "keyword_match lower (lower input) c" "primary_action c \<noteq> None"
    unfolding keyword_proposal_def
    by (cases "list_all (\<lambda>a. ac_disabled a \<noteq> None) (cmd_actions c)";
        cases "keyword_match lower (lower input) c"; cases "primary_action c"; simp)+
  then obtain a where a: "primary_action c = Some a" by blast
  from c(2) a hit(1) have "pr_provider p = cmd_provider c" "pr_command p = cmd_id c" "pr_action p = unwrap_or_default (ac_id a)"
    unfolding keyword_proposal_def
    by (cases "list_all (\<lambda>a. ac_disabled a \<noteq> None) (cmd_actions c)"; simp)+
  moreover have "lower input \<noteq> []" using hit(1) by (auto simp: keyword_match_def list_ex_iff)
  ultimately show ?thesis using c(1) primary_action_Some [OF a] by metis
qed

lemma llm_plan_routes:
  assumes "p \<in> set (llm_plan E lp input catalog)"
  shows "bound_route catalog p \<or> p \<in> set (keyword_plan (pe_lower E) input catalog)"
  using assms by (auto simp: llm_plan_def plan_with_diagnostics_def fallback_or_empty_def Let_def
      split: sum.splits if_splits)

lemma llm_plan_fallback:
  "pd_fallback (snd (plan_with_diagnostics E lp input catalog)) \<Longrightarrow>
    llm_plan E lp input catalog = keyword_plan (pe_lower E) input catalog"
  by (auto simp: llm_plan_def plan_with_diagnostics_def fallback_or_empty_def Let_def
      split: sum.splits if_splits)

lemma llm_plan_bound:
  "\<not> pd_fallback (snd (plan_with_diagnostics E lp input catalog)) \<Longrightarrow>
    p \<in> set (llm_plan E lp input catalog) \<Longrightarrow> bound_route catalog p"
  by (auto simp: llm_plan_def plan_with_diagnostics_def fallback_or_empty_def Let_def
      split: sum.splits if_splits)

lemma plan_counts:
  assumes "plan_with_diagnostics E lp input catalog = (ps, dg)"
  shows "pd_generated dg = length ps"
    "\<not> pd_fallback dg \<Longrightarrow> pd_generated dg + pd_rejected dg \<le> lp_max_proposals lp"
proof -
  have "length (filter Q xs) + length (filter (\<lambda>x. \<not> Q x) xs) \<le> n" if "length xs \<le> n" for Q n and xs :: "action_proposal list"
    using sum_length_filter_compl [of Q xs] that by simp
  then show "pd_generated dg = length ps"
    "\<not> pd_fallback dg \<Longrightarrow> pd_generated dg + pd_rejected dg \<le> lp_max_proposals lp"
    using assms by (auto simp: plan_with_diagnostics_def fallback_or_empty_def Let_def split: sum.splits if_splits)
qed

section \<open>Fenced output\<close>

text \<open>A fence labelled \<open>json\<close>: the segment begins with the label, so the search for a segment that
  begins with a brace passes it by.\<close>

definition fenced :: "string \<Rightarrow> string \<Rightarrow> string" where
  "fenced label body = replicate 3 (CHR 0x60) @ label @ [CHR 0x0A] @ body @ [CHR 0x0A] @ replicate 3 (CHR 0x60)"

end
