(* ===== verification/AiBounded.thy ===== *)
theory AiBounded
  imports AiPlanner AiState
begin

text \<open>
  The bounded decision loop of \<open>launcher-ai/src/agent.rs\<close>: budgets, the turn, the loop. The host and
  the planner are the record \<open>agent_port\<close> with their states; the time since the start at the check
  before turn \<open>n + 1\<close> is \<open>elapsed n\<close>, in any one unit of the limits. A ghost list records every call of the host's \<open>execute\<close>.
\<close>

section \<open>Budgets\<close>

record agent_limits =
  al_turns :: "32 word"
  al_proposals :: nat
  al_executions :: nat
  al_failures :: nat
  al_replans :: nat
  al_wall_time :: nat
  al_planner_timeout :: nat \<comment> \<open>no code of the agent reads it\<close>

datatype budget_verdict = BudgetContinue | Exhausted string

record budget =
  bg_limits :: agent_limits
  bg_turns :: "32 word"
  bg_proposals :: nat
  bg_executions :: nat
  bg_failures :: nat
  bg_replans :: nat

definition budget_new :: "agent_limits \<Rightarrow> budget" where
  "budget_new l = \<lparr>bg_limits = l, bg_turns = 0, bg_proposals = 0, bg_executions = 0, bg_failures = 0,
     bg_replans = 0\<rparr>"

definition can_start_turn :: "nat \<Rightarrow> budget \<Rightarrow> budget_verdict" where
  "can_start_turn time b =
     (if bg_turns b \<ge> al_turns (bg_limits b) then Exhausted ''max_turns''
      else if time \<ge> al_wall_time (bg_limits b) then Exhausted ''max_wall_time'' else BudgetContinue)"

definition can_execute :: "budget \<Rightarrow> budget_verdict" where
  "can_execute b =
     (if bg_executions b \<ge> al_executions (bg_limits b) then Exhausted ''max_total_executions''
      else if bg_failures b \<ge> al_failures (bg_limits b) then Exhausted ''max_failures'' else BudgetContinue)"

definition can_replan :: "budget \<Rightarrow> budget_verdict" where
  "can_replan b = (if bg_replans b \<ge> al_replans (bg_limits b) then Exhausted ''max_replans'' else BudgetContinue)"

definition record_turn :: "budget \<Rightarrow> budget" where
  "record_turn b = b\<lparr>bg_turns := bg_turns b + 1\<rparr>"
definition record_proposals :: "nat \<Rightarrow> budget \<Rightarrow> budget" where
  "record_proposals n b = b\<lparr>bg_proposals := bg_proposals b + n\<rparr>"
definition record_execution :: "budget \<Rightarrow> budget" where
  "record_execution b = b\<lparr>bg_executions := bg_executions b + 1\<rparr>"
definition record_failure :: "budget \<Rightarrow> budget" where
  "record_failure b = b\<lparr>bg_failures := bg_failures b + 1\<rparr>"
definition record_replan :: "budget \<Rightarrow> budget" where
  "record_replan b = b\<lparr>bg_replans := bg_replans b + 1\<rparr>"

lemmas budget_defs = can_start_turn_def can_execute_def can_replan_def record_turn_def record_proposals_def
  record_execution_def record_failure_def record_replan_def

section \<open>The loop\<close>

record execution_record =
  er_execution :: "string option"
  er_action :: string
  er_ok :: bool
  er_error :: "string option"
  er_result :: "json option"

record agent_turn_record =
  at_turn :: "32 word"
  at_objective :: string
  at_proposals :: nat
  at_executed :: "string list"
  at_failed :: "string list"

type_synonym replan_context = "(string \<times> string) list"

record ('h, 'p) agent_port =
  port_catalog :: "'h \<Rightarrow> command list \<times> 'h"
  port_execute :: "'h \<Rightarrow> action_proposal \<Rightarrow> execution_record list \<times> 'h"
  port_confirm :: "'h \<Rightarrow> action_proposal \<Rightarrow> bool"
  port_plan :: "'p \<Rightarrow> string \<Rightarrow> command list \<Rightarrow> action_proposal list \<times> 'p"
  port_replan :: "'p \<Rightarrow> string \<Rightarrow> command list \<Rightarrow> replan_context \<Rightarrow> action_proposal list \<times> 'p"

text \<open>A call of \<open>execute\<close>: the turn, the proposal, whether a record of it is a failure.\<close>

type_synonym agent_call = "32 word \<times> action_proposal \<times> bool"

record 'h turn_state =
  tn_budget :: budget
  tn_host :: 'h
  tn_executed :: "string list"
  tn_failed :: "string list"
  tn_observed :: replan_context
  tn_calls :: "agent_call list"

definition failing :: "execution_record list \<Rightarrow> execution_record list" where
  "failing rs = filter (\<lambda>r. \<not> er_ok r) rs"

definition execute_one :: "('h, 'p) agent_port \<Rightarrow> action_proposal \<Rightarrow> 'h turn_state \<Rightarrow> 'h turn_state" where
  "execute_one P p t =
     (case port_execute P (tn_host t) p of (rs, h) \<Rightarrow>
       \<lparr>tn_budget = record_execution (tn_budget t), tn_host = h,
        tn_executed = tn_executed t @ map (unwrap_or_default \<circ> er_execution) (filter er_ok rs),
        tn_failed = tn_failed t @ map (unwrap_or_default \<circ> er_execution) (failing rs),
        tn_observed = tn_observed t @ map (\<lambda>_. (pr_command p, pr_action p)) (failing rs),
        tn_calls = tn_calls t @ [(bg_turns (tn_budget t), p, failing rs \<noteq> [])]\<rparr>)"

text \<open>The loop over the proposals; the flag is \<open>needs_confirmation\<close>.\<close>

fun run_proposals :: "('h, 'p) agent_port \<Rightarrow> action_proposal list \<Rightarrow> 'h turn_state \<Rightarrow> bool \<times> 'h turn_state" where
  "run_proposals P [] t = (False, t)"
| "run_proposals P (p # ps) t =
     (if port_confirm P (tn_host t) p then (True, t)
      else if can_execute (tn_budget t) \<noteq> BudgetContinue then (False, t)
      else run_proposals P ps (execute_one P p t))"

record ('h, 'p) bounded_state =
  bs_budget :: budget
  bs_host :: 'h
  bs_planner :: 'p
  bs_observed :: replan_context
  bs_is_replan :: bool
  bs_status :: run_state
  bs_records :: "agent_turn_record list"
  bs_calls :: "agent_call list"

text \<open>Observe and plan: the turn's proposals and the state after planning.\<close>

definition plan_turn :: "('h, 'p) agent_port \<Rightarrow> string \<Rightarrow> ('h, 'p) bounded_state \<Rightarrow>
    action_proposal list \<times> ('h, 'p) bounded_state" where
  "plan_turn P goal s =
     (let b = record_turn (bs_budget s); (catalog, h) = port_catalog P (bs_host s);
          (planned, p) = (if bs_is_replan s then port_replan P (bs_planner s) goal catalog (bs_observed s)
             else port_plan P (bs_planner s) goal catalog);
          proposals = take (al_proposals (bg_limits b)) planned
      in (proposals, s\<lparr>bs_budget := record_proposals (length proposals) b, bs_host := h, bs_planner := p\<rparr>))"

text \<open>After the proposals ran: go on (\<open>True\<close>) or \<open>break\<close>.\<close>

definition judge_turn :: "string \<Rightarrow> nat \<Rightarrow> 'h turn_state \<Rightarrow> ('h, 'p) bounded_state \<Rightarrow> bool \<times> ('h, 'p) bounded_state" where
  "judge_turn goal n t s =
     (let b = (if tn_failed t \<noteq> [] then record_failure (tn_budget t) else tn_budget t);
          s = s\<lparr>bs_budget := b, bs_records := bs_records s @ [\<lparr>at_turn = bg_turns b, at_objective = goal,
                 at_proposals = n, at_executed = tn_executed t, at_failed = tn_failed t\<rparr>]\<rparr>
      in if tn_failed t = [] \<and> length (tn_executed t) = n then (False, s\<lparr>bs_status := Completed\<rparr>)
      else if can_replan b \<noteq> BudgetContinue then (False, s\<lparr>bs_status := BudgetExhausted\<rparr>)
      else (True, s\<lparr>bs_budget := record_replan b, bs_status := Replanning, bs_is_replan := True\<rparr>))"

definition turn_start :: "('h, 'p) bounded_state \<Rightarrow> 'h turn_state" where
  "turn_start s = \<lparr>tn_budget = bs_budget s, tn_host = bs_host s, tn_executed = [], tn_failed = [],
     tn_observed = bs_observed s, tn_calls = bs_calls s\<rparr>"

definition take_turn :: "'h turn_state \<Rightarrow> ('h, 'p) bounded_state \<Rightarrow> ('h, 'p) bounded_state" where
  "take_turn t s = s\<lparr>bs_budget := tn_budget t, bs_host := tn_host t, bs_observed := tn_observed t, bs_calls := tn_calls t\<rparr>"

definition agent_turn :: "('h, 'p) agent_port \<Rightarrow> string \<Rightarrow> ('h, 'p) bounded_state \<Rightarrow> bool \<times> ('h, 'p) bounded_state" where
  "agent_turn P goal s = (case plan_turn P goal s of (proposals, s) \<Rightarrow>
     if proposals = [] then (False, s\<lparr>bs_status := Completed\<rparr>)
     else case run_proposals P proposals (turn_start s) of (confirm, t) \<Rightarrow>
       if confirm then (False, (take_turn t s)\<lparr>bs_status := WaitingForConfirmation\<rparr>)
       else judge_turn goal (length proposals) t (take_turn t s))"

lemma turn_frames [simp]:
  "tn_budget (turn_start s) = bs_budget s" "tn_calls (turn_start s) = bs_calls s"
  "tn_observed (turn_start s) = bs_observed s" "tn_failed (turn_start s) = []"
  "bs_budget (take_turn t s) = tn_budget t" "bs_calls (take_turn t s) = tn_calls t"
  "bs_observed (take_turn t s) = tn_observed t"
  by (simp_all add: turn_start_def take_turn_def)

text \<open>What a turn changes, whatever its way out.\<close>

lemma run_proposals_frame:
  "run_proposals P ps t = (c, t') \<Longrightarrow>
    bg_turns (tn_budget t') = bg_turns (tn_budget t) \<and> bg_limits (tn_budget t') = bg_limits (tn_budget t)
    \<and> bg_replans (tn_budget t') = bg_replans (tn_budget t) \<and> bg_failures (tn_budget t') = bg_failures (tn_budget t)
    \<and> (bg_executions (tn_budget t) \<le> al_executions (bg_limits (tn_budget t)) \<longrightarrow>
        bg_executions (tn_budget t') \<le> al_executions (bg_limits (tn_budget t)))
    \<and> length (tn_calls t') + bg_executions (tn_budget t) = length (tn_calls t) + bg_executions (tn_budget t')
    \<and> bg_executions (tn_budget t') \<le> bg_executions (tn_budget t) + length ps
    \<and> (tn_failed t' \<noteq> [] \<longrightarrow> tn_failed t \<noteq> [] \<or> bg_failures (tn_budget t) < al_failures (bg_limits (tn_budget t)))"
proof (induction P ps t rule: run_proposals.induct)
  case (2 P p ps t)
  show ?case
  proof (cases "port_confirm P (tn_host t) p \<or> can_execute (tn_budget t) \<noteq> BudgetContinue")
    case True
    with "2.prems" show ?thesis by (auto split: if_splits)
  next
    case False
    then have "can_execute (tn_budget t) = BudgetContinue" by blast
    then have room: "bg_executions (tn_budget t) < al_executions (bg_limits (tn_budget t))"
      "bg_failures (tn_budget t) < al_failures (bg_limits (tn_budget t))"
      by (auto simp: can_execute_def split: if_splits)
    from False "2.prems" have rest: "run_proposals P ps (execute_one P p t) = (c, t')" by simp
    have one: "tn_budget (execute_one P p t) = record_execution (tn_budget t)"
      "length (tn_calls (execute_one P p t)) = Suc (length (tn_calls t))"
      by (simp_all add: execute_one_def split: prod.split)
    from "2.IH" [OF _ _ rest] False one room show ?thesis by (auto simp: record_execution_def)
  qed
qed simp

text \<open>The part of the state a turn is judged by.\<close>

definition calls_in_turn :: "32 word \<Rightarrow> agent_call list \<Rightarrow> agent_call list" where
  "calls_in_turn n calls = filter (\<lambda>c. fst c = n) calls"

definition turn_ok :: "('h, 'p) bounded_state \<Rightarrow> bool" where
  "turn_ok s \<longleftrightarrow> (let b = bs_budget s; l = bg_limits b in
     bg_turns b \<le> al_turns l \<and> bg_executions b \<le> al_executions l \<and> bg_failures b \<le> al_failures l
     \<and> bg_replans b \<le> al_replans l \<and> length (bs_calls s) = bg_executions b
     \<and> (\<forall>c \<in> set (bs_calls s). fst c \<le> bg_turns b)
     \<and> (\<forall>n. length (calls_in_turn n (bs_calls s)) \<le> al_proposals l))"

lemma calls_in_turn_append: "calls_in_turn n (xs @ ys) = calls_in_turn n xs @ calls_in_turn n ys"
  by (simp add: calls_in_turn_def)

lemma calls_in_turn_new:
  assumes "\<forall>c \<in> set cs. fst c \<le> m" "m < m + 1" "\<forall>c \<in> set new. fst c = m + 1"
    and "length new \<le> k" "length (calls_in_turn n cs) \<le> k"
  shows "length (calls_in_turn n (cs @ new)) \<le> k"
proof (cases "n = m + 1")
  case True
  have "fst c \<noteq> n" if "c \<in> set cs" for c
    using assms(1,2) that unfolding True by (metis leD)
  then have "calls_in_turn n cs = []" by (simp add: calls_in_turn_def filter_empty_conv)
  moreover have "length (calls_in_turn n new) \<le> length new" by (simp add: calls_in_turn_def)
  ultimately show ?thesis using assms(4) by (simp add: calls_in_turn_append)
next
  case False
  then have "calls_in_turn n new = []" using assms(3) by (auto simp: calls_in_turn_def filter_empty_conv)
  with assms(5) show ?thesis by (simp add: calls_in_turn_append)
qed

lemma run_proposals_new:
  "run_proposals P ps t = (c, t') \<Longrightarrow> \<exists>new. tn_calls t' = tn_calls t @ new
    \<and> (\<forall>x \<in> set new. fst x = bg_turns (tn_budget t)) \<and> length new \<le> length ps"
proof (induction P ps t rule: run_proposals.induct)
  case (2 P p ps t)
  show ?case
  proof (cases "port_confirm P (tn_host t) p \<or> can_execute (tn_budget t) \<noteq> BudgetContinue")
    case True
    with "2.prems" show ?thesis by (auto split: if_splits)
  next
    case False
    obtain rs h where rs: "port_execute P (tn_host t) p = (rs, h)" by (cases "port_execute P (tn_host t) p")
    then obtain x where one: "tn_calls (execute_one P p t) = tn_calls t @ [x]" "fst x = bg_turns (tn_budget t)"
      "bg_turns (tn_budget (execute_one P p t)) = bg_turns (tn_budget t)"
      by (simp add: execute_one_def record_execution_def)
    from False "2.prems" have "run_proposals P ps (execute_one P p t) = (c, t')" by simp
    moreover have "\<not> port_confirm P (tn_host t) p" "\<not> can_execute (tn_budget t) \<noteq> BudgetContinue"
      using False by blast+
    ultimately obtain new where "tn_calls t' = (tn_calls t @ [x]) @ new"
      "\<forall>x \<in> set new. fst x = bg_turns (tn_budget t)" "length new \<le> length ps"
      using "2.IH" unfolding one by blast
    with one(2) show ?thesis by (intro exI [of _ "x # new"]) simp
  qed
qed simp

lemma plan_turn_frame:
  assumes "plan_turn P goal s = (ps, s1)"
  shows "bg_limits (bs_budget s1) = bg_limits (bs_budget s)" "bg_turns (bs_budget s1) = bg_turns (bs_budget s) + 1"
    "bg_executions (bs_budget s1) = bg_executions (bs_budget s)" "bg_failures (bs_budget s1) = bg_failures (bs_budget s)"
    "bg_replans (bs_budget s1) = bg_replans (bs_budget s)" "bs_calls s1 = bs_calls s" "bs_observed s1 = bs_observed s"
    "bs_status s1 = bs_status s" "length ps \<le> al_proposals (bg_limits (bs_budget s))"
    "\<exists>cat planned. set ps \<subseteq> set planned
      \<and> (bs_is_replan s \<longrightarrow> planned = fst (port_replan P (bs_planner s) goal cat (bs_observed s)))"
proof -
  obtain cat h where cat: "port_catalog P (bs_host s) = (cat, h)" by (cases "port_catalog P (bs_host s)")
  obtain planned p where planned: "(if bs_is_replan s then port_replan P (bs_planner s) goal cat (bs_observed s)
      else port_plan P (bs_planner s) goal cat) = (planned, p)" by fastforce
  let ?ps = "take (al_proposals (bg_limits (record_turn (bs_budget s)))) planned"
  have eq: "ps = ?ps" "s1 = s\<lparr>bs_budget := record_proposals (length ?ps) (record_turn (bs_budget s)), bs_host := h, bs_planner := p\<rparr>"
    using assms cat planned by (auto simp: plan_turn_def Let_def)
  show "bg_limits (bs_budget s1) = bg_limits (bs_budget s)" "bg_turns (bs_budget s1) = bg_turns (bs_budget s) + 1"
    "bg_executions (bs_budget s1) = bg_executions (bs_budget s)" "bg_failures (bs_budget s1) = bg_failures (bs_budget s)"
    "bg_replans (bs_budget s1) = bg_replans (bs_budget s)" "bs_calls s1 = bs_calls s" "bs_observed s1 = bs_observed s"
    "bs_status s1 = bs_status s" "length ps \<le> al_proposals (bg_limits (bs_budget s))"
    unfolding eq by (simp_all add: record_turn_def record_proposals_def)
  show "\<exists>cat planned. set ps \<subseteq> set planned
      \<and> (bs_is_replan s \<longrightarrow> planned = fst (port_replan P (bs_planner s) goal cat (bs_observed s)))"
    using planned set_take_subset [of "al_proposals (bg_limits (record_turn (bs_budget s)))" planned] eq(1)
    by (intro exI [of _ cat] exI [of _ planned]) auto
qed

lemma judge_turn_frame:
  assumes "judge_turn goal n t s = (go, s')"
  shows "bs_calls s' = bs_calls s" "bs_observed s' = bs_observed s"
    "bg_turns (bs_budget s') = bg_turns (tn_budget t)" "bg_limits (bs_budget s') = bg_limits (tn_budget t)"
    "bg_executions (bs_budget s') = bg_executions (tn_budget t)"
    "bg_failures (bs_budget s') = bg_failures (tn_budget t) + (if tn_failed t = [] then 0 else 1)"
    "bg_replans (tn_budget t) \<le> al_replans (bg_limits (tn_budget t)) \<Longrightarrow> bg_replans (bs_budget s') \<le> al_replans (bg_limits (tn_budget t))"
    "go \<Longrightarrow> bs_is_replan s' \<and> bs_status s' = Replanning" "\<not> go \<Longrightarrow> bs_status s' \<in> {Completed, BudgetExhausted}"
  using assms
  by (auto simp: judge_turn_def Let_def record_failure_def record_replan_def can_replan_def split: if_splits)

text \<open>The three ways of a turn.\<close>

lemma agent_turn_cases:
  assumes "agent_turn P goal s = (go, s')"
  obtains (none) s1 where "plan_turn P goal s = ([], s1)" "\<not> go" "s' = s1\<lparr>bs_status := Completed\<rparr>"
  | (confirm) ps s1 t where "plan_turn P goal s = (ps, s1)" "run_proposals P ps (turn_start s1) = (True, t)" "\<not> go"
      "s' = (take_turn t s1)\<lparr>bs_status := WaitingForConfirmation\<rparr>"
  | (judged) ps s1 t where "plan_turn P goal s = (ps, s1)" "run_proposals P ps (turn_start s1) = (False, t)"
      "judge_turn goal (length ps) t (take_turn t s1) = (go, s')"
proof -
  obtain ps s1 where ps: "plan_turn P goal s = (ps, s1)" by (cases "plan_turn P goal s")
  obtain c t where run: "run_proposals P ps (turn_start s1) = (c, t)" by (cases "run_proposals P ps (turn_start s1)")
  show thesis
    using that(1) [of s1] that(2,3) [of ps s1 t] ps run assms
    by (cases "ps = []"; cases c) (simp_all add: agent_turn_def)
qed

lemma agent_turn_counts:
  assumes "agent_turn P goal s = (go, s')"
  shows "bg_turns (bs_budget s') = bg_turns (bs_budget s) + 1 \<and> bg_limits (bs_budget s') = bg_limits (bs_budget s)"
  using assms
proof (cases rule: agent_turn_cases)
  case (none s1)
  with plan_turn_frame [OF none(1)] show ?thesis by simp
next
  case (confirm ps s1 t)
  with plan_turn_frame [OF confirm(1)] run_proposals_frame [OF confirm(2)] show ?thesis by simp
next
  case (judged ps s1 t)
  with plan_turn_frame [OF judged(1)] run_proposals_frame [OF judged(2)] judge_turn_frame [OF judged(3)]
  show ?thesis by simp
qed

lemma agent_turn_ok:
  assumes turn: "agent_turn P goal s = (go, s')" and ok: "turn_ok s"
    and room: "bg_turns (bs_budget s) < al_turns (bg_limits (bs_budget s))"
  shows "turn_ok s'"
proof -
  let ?l = "bg_limits (bs_budget s)"
  have turns: "unat (bg_turns (bs_budget s) + 1) = Suc (unat (bg_turns (bs_budget s)))"
    "bg_turns (bs_budget s) + 1 \<le> al_turns ?l"
    using room by (simp_all add: unat_incr inc_le)
  have grow: "bg_turns (bs_budget s) < bg_turns (bs_budget s) + 1"
    using turns(1) by (simp add: word_less_nat_alt)
  have old: "bg_executions (bs_budget s) \<le> al_executions ?l" "bg_failures (bs_budget s) \<le> al_failures ?l"
    "bg_replans (bs_budget s) \<le> al_replans ?l" "length (bs_calls s) = bg_executions (bs_budget s)"
    "\<forall>c \<in> set (bs_calls s). fst c \<le> bg_turns (bs_budget s)"
    "\<forall>n. length (calls_in_turn n (bs_calls s)) \<le> al_proposals ?l"
    using ok by (simp_all add: turn_ok_def Let_def)
  have spent: "bg_executions (tn_budget t) \<le> al_executions ?l \<and> length (tn_calls t) = bg_executions (tn_budget t)
      \<and> (\<forall>c \<in> set (tn_calls t). fst c \<le> bg_turns (bs_budget s) + 1)
      \<and> (\<forall>n. length (calls_in_turn n (tn_calls t)) \<le> al_proposals ?l)
      \<and> bg_turns (tn_budget t) = bg_turns (bs_budget s) + 1 \<and> bg_limits (tn_budget t) = ?l
      \<and> bg_replans (tn_budget t) = bg_replans (bs_budget s) \<and> bg_failures (tn_budget t) = bg_failures (bs_budget s)
      \<and> (tn_failed t \<noteq> [] \<longrightarrow> bg_failures (bs_budget s) < al_failures ?l)"
    if ps: "plan_turn P goal s = (ps, s1)" and run: "run_proposals P ps (turn_start s1) = (c, t)" for ps s1 c t
  proof -
    obtain new where new: "tn_calls t = bs_calls s @ new" "\<forall>c \<in> set new. fst c = bg_turns (bs_budget s) + 1"
      "length new \<le> al_proposals ?l"
      using run_proposals_new [OF run] plan_turn_frame [OF ps] by auto
    have "\<forall>c \<in> set (tn_calls t). fst c \<le> bg_turns (bs_budget s) + 1"
      using new(2) old(5) grow unfolding new(1) by (auto dest: order_less_imp_le order_trans)
    moreover have "\<forall>n. length (calls_in_turn n (tn_calls t)) \<le> al_proposals ?l"
      using calls_in_turn_new [OF old(5) grow new(2,3)] old(6) unfolding new(1) by blast
    ultimately show ?thesis using run_proposals_frame [OF run] plan_turn_frame(1-9) [OF ps] old by auto
  qed
  from turn show ?thesis
  proof (cases rule: agent_turn_cases)
    case (none s1)
    have "\<forall>c \<in> set (bs_calls s). fst c \<le> bg_turns (bs_budget s) + 1"
      using old(5) grow by (auto dest: order_trans [OF _ order_less_imp_le])
    with plan_turn_frame(1-9) [OF none(1)] none(3) old turns show ?thesis by (simp add: turn_ok_def Let_def)
  next
    case (confirm ps s1 t)
    with spent [OF confirm(1,2)] old turns show ?thesis by (simp add: turn_ok_def Let_def)
  next
    case (judged ps s1 t)
    with spent [OF judged(1,2)] judge_turn_frame(1-7) [OF judged(3)] old turns show ?thesis
      by (cases "tn_failed t = []") (simp_all add: turn_ok_def Let_def)
  qed
qed

function agent_loop :: "('h, 'p) agent_port \<Rightarrow> string \<Rightarrow> (nat \<Rightarrow> nat) \<Rightarrow> ('h, 'p) bounded_state \<Rightarrow> ('h, 'p) bounded_state" where
  "agent_loop P goal elapsed s =
     (if can_start_turn (elapsed (unat (bg_turns (bs_budget s)))) (bs_budget s) \<noteq> BudgetContinue then s
      else case agent_turn P goal s of
        (False, s') \<Rightarrow> s'
      | (True, s') \<Rightarrow> agent_loop P goal elapsed s')"
  by pat_completeness auto
termination
  by (relation "measure (\<lambda>(P, goal, elapsed, s). unat (al_turns (bg_limits (bs_budget s))) - unat (bg_turns (bs_budget s)))")
    (auto simp: can_start_turn_def unat_incr word_less_nat_alt not_le diff_less_mono2 dest!: sym [THEN agent_turn_counts] split: if_splits)

declare agent_loop.simps [simp del]

record agent_run_outcome =
  ao_status :: run_state
  ao_turns :: "32 word"
  ao_executions :: nat
  ao_failures :: nat
  ao_replans :: nat
  ao_records :: "agent_turn_record list"

definition bounded_start :: "agent_limits \<Rightarrow> 'h \<Rightarrow> 'p \<Rightarrow> ('h, 'p) bounded_state" where
  "bounded_start l h p = \<lparr>bs_budget = budget_new l, bs_host = h, bs_planner = p, bs_observed = [],
     bs_is_replan = False, bs_status = Created, bs_records = [], bs_calls = []\<rparr>"

definition run_outcome :: "('h, 'p) bounded_state \<Rightarrow> agent_run_outcome" where
  "run_outcome s =
     \<lparr>ao_status = (if bs_status s = Created \<or> bs_status s = Replanning then RunFailed else bs_status s),
      ao_turns = bg_turns (bs_budget s), ao_executions = bg_executions (bs_budget s),
      ao_failures = bg_failures (bs_budget s), ao_replans = bg_replans (bs_budget s), ao_records = bs_records s\<rparr>"

definition run_bounded_agent :: "('h, 'p) agent_port \<Rightarrow> string \<Rightarrow> agent_limits \<Rightarrow> (nat \<Rightarrow> nat) \<Rightarrow> 'h \<Rightarrow> 'p \<Rightarrow>
    agent_run_outcome \<times> agent_call list" where
  "run_bounded_agent P goal l elapsed h p =
     (let s = agent_loop P goal elapsed (bounded_start l h p) in (run_outcome s, bs_calls s))"

section \<open>Budgets are kept\<close>

lemma can_start_room: "can_start_turn x b = BudgetContinue \<Longrightarrow> bg_turns b < al_turns (bg_limits b)"
  by (auto simp: can_start_turn_def not_le split: if_splits)

lemma agent_loop_ok:
  "turn_ok s \<Longrightarrow> turn_ok (agent_loop P goal elapsed s) \<and> bg_limits (bs_budget (agent_loop P goal elapsed s)) = bg_limits (bs_budget s)"
proof (induction P goal elapsed s rule: agent_loop.induct)
  case (1 P goal elapsed s)
  show ?case
  proof (cases "can_start_turn (elapsed (unat (bg_turns (bs_budget s)))) (bs_budget s) \<noteq> BudgetContinue")
    case True
    with 1(2) show ?thesis by (simp add: agent_loop.simps [of P goal elapsed s])
  next
    case False
    obtain go s' where turn: "agent_turn P goal s = (go, s')" by (cases "agent_turn P goal s")
    note ok = agent_turn_ok [OF turn 1(2)] can_start_room agent_turn_counts [OF turn]
    show ?thesis
    proof (cases go)
      case True
      then have "go = True" by simp
      from "1.IH" [OF False turn [symmetric] this] ok False turn True show ?thesis
        by (simp add: agent_loop.simps [of P goal elapsed s])
    next
      case stop: False
      from ok False turn stop show ?thesis by (simp add: agent_loop.simps [of P goal elapsed s])
    qed
  qed
qed

text \<open>No turn starts after the wall time.\<close>

lemma agent_loop_time:
  "turn_ok s \<Longrightarrow> unat (bg_turns (bs_budget s)) \<le> i \<Longrightarrow> i < unat (bg_turns (bs_budget (agent_loop P goal elapsed s)))
    \<Longrightarrow> elapsed i < al_wall_time (bg_limits (bs_budget s))"
proof (induction P goal elapsed s rule: agent_loop.induct)
  case (1 P goal elapsed s)
  let ?n = "unat (bg_turns (bs_budget s))"
  show ?case
  proof (cases "can_start_turn (elapsed ?n) (bs_budget s) \<noteq> BudgetContinue")
    case True
    with "1.prems" show ?thesis by (simp add: agent_loop.simps [of P goal elapsed s])
  next
    case False
    then have now: "elapsed ?n < al_wall_time (bg_limits (bs_budget s))"
      and room: "bg_turns (bs_budget s) < al_turns (bg_limits (bs_budget s))"
      by (auto simp: can_start_turn_def not_le split: if_splits)
    obtain go s' where turn: "agent_turn P goal s = (go, s')" by (cases "agent_turn P goal s")
    note counts = agent_turn_counts [OF turn] unat_incr [OF room]
    show ?thesis
    proof (cases "i = ?n")
      case True
      with now show ?thesis by simp
    next
      case i: False
      then have "go = True" using "1.prems"(2,3) False turn counts
        by (cases go) (simp_all add: agent_loop.simps [of P goal elapsed s])
      moreover from this have "i < unat (bg_turns (bs_budget (agent_loop P goal elapsed s')))"
        using "1.prems"(3) False turn by (simp add: agent_loop.simps [of P goal elapsed s])
      moreover have "unat (bg_turns (bs_budget s')) \<le> i" using i "1.prems"(2) counts by simp
      ultimately show ?thesis
        using "1.IH" [OF False turn [symmetric]] agent_turn_ok [OF turn "1.prems"(1) room] counts by simp
    qed
  qed
qed

lemma bounded_budgets:
  assumes "run_bounded_agent P goal l elapsed h p = (out, calls)"
  shows "ao_turns out \<le> al_turns l \<and> ao_executions out \<le> al_executions l \<and> ao_failures out \<le> al_failures l
    \<and> ao_replans out \<le> al_replans l \<and> length calls = ao_executions out
    \<and> (\<forall>n. length (calls_in_turn n calls) \<le> al_proposals l)
    \<and> (\<forall>i < unat (ao_turns out). elapsed i < al_wall_time l)"
proof -
  have start: "turn_ok (bounded_start l h p)"
    by (simp add: turn_ok_def bounded_start_def budget_new_def calls_in_turn_def)
  from agent_loop_ok [OF start, of P goal elapsed] assms agent_loop_time [OF start, of _ P goal elapsed] show ?thesis
    by (auto simp: run_bounded_agent_def run_outcome_def turn_ok_def Let_def bounded_start_def budget_new_def)
qed

section \<open>A failure is not proposed again\<close>

text \<open>What the loop needs of a planner that replans from an observation.\<close>

locale replanner =
  fixes replan :: "'p \<Rightarrow> string \<Rightarrow> command list \<Rightarrow> replan_context \<Rightarrow> action_proposal list \<times> 'p"
  assumes forgets_failed: "q \<in> set (fst (replan p goal cat failed)) \<Longrightarrow> (pr_command q, pr_action q) \<notin> set failed"

definition call_key :: "agent_call \<Rightarrow> string \<times> string" where
  "call_key c = (case c of (_, q, _) \<Rightarrow> (pr_command q, pr_action q))"

text \<open>Failed calls are observed; a call of a later turn has no key that was observed before.\<close>

definition no_replay :: "agent_call list \<Rightarrow> bool" where
  "no_replay cs \<longleftrightarrow> (\<forall>i j. i < j \<and> j < length cs \<and> snd (snd (cs ! i)) \<and> fst (cs ! i) < fst (cs ! j)
     \<longrightarrow> call_key (cs ! i) \<noteq> call_key (cs ! j))"

definition observed_all :: "agent_call list \<Rightarrow> replan_context \<Rightarrow> bool" where
  "observed_all cs ob \<longleftrightarrow> (\<forall>c \<in> set cs. snd (snd c) \<longrightarrow> call_key c \<in> set ob)"

text \<open>The calls of one turn: all of turn \<open>n\<close>, of proposals in \<open>ps\<close>.\<close>

lemma run_proposals_calls:
  "run_proposals P ps t = (c, t') \<Longrightarrow> \<exists>new. tn_calls t' = tn_calls t @ new
    \<and> (\<forall>x \<in> set new. fst x = bg_turns (tn_budget t) \<and> fst (snd x) \<in> set ps)
    \<and> (observed_all (tn_calls t) (tn_observed t) \<longrightarrow> observed_all (tn_calls t') (tn_observed t'))
    \<and> (\<exists>more. tn_observed t' = tn_observed t @ more)"
proof (induction P ps t rule: run_proposals.induct)
  case (2 P p ps t)
  show ?case
  proof (cases "port_confirm P (tn_host t) p \<or> can_execute (tn_budget t) \<noteq> BudgetContinue")
    case True
    with "2.prems" show ?thesis by (auto split: if_splits)
  next
    case False
    obtain rs h where rs: "port_execute P (tn_host t) p = (rs, h)" by (cases "port_execute P (tn_host t) p")
    let ?c = "(bg_turns (tn_budget t), p, failing rs \<noteq> [])"
    let ?more = "map (\<lambda>_. (pr_command p, pr_action p)) (failing rs)"
    have one: "tn_calls (execute_one P p t) = tn_calls t @ [?c]" "tn_observed (execute_one P p t) = tn_observed t @ ?more"
      "bg_turns (tn_budget (execute_one P p t)) = bg_turns (tn_budget t)"
      by (simp_all add: execute_one_def rs record_execution_def)
    have obs: "observed_all (tn_calls t) (tn_observed t) \<Longrightarrow>
        observed_all (tn_calls t @ [?c]) (tn_observed t @ ?more)"
      by (auto simp: observed_all_def call_key_def neq_Nil_conv)
    from False "2.prems" have "run_proposals P ps (execute_one P p t) = (c, t')" by simp
    moreover have "\<not> port_confirm P (tn_host t) p" "\<not> can_execute (tn_budget t) \<noteq> BudgetContinue"
      using False by blast+
    ultimately obtain new more where "tn_calls t' = (tn_calls t @ [?c]) @ new"
      "\<forall>x \<in> set new. fst x = bg_turns (tn_budget t) \<and> fst (snd x) \<in> set ps"
      "observed_all (tn_calls t @ [?c]) (tn_observed t @ ?more) \<longrightarrow> observed_all (tn_calls t') (tn_observed t')"
      "tn_observed t' = (tn_observed t @ ?more) @ more"
      using "2.IH" [unfolded one] by blast
    with obs show ?thesis by (intro exI [of _ "?c # new"]) auto
  qed
qed auto

lemma agent_turn_calls:
  assumes turn: "agent_turn P goal s = (go, s')"
  shows "\<exists>new cat planned. bs_calls s' = bs_calls s @ new
    \<and> (\<forall>x \<in> set new. fst x = bg_turns (bs_budget s) + 1 \<and> fst (snd x) \<in> set planned)
    \<and> (bs_is_replan s \<longrightarrow> planned = fst (port_replan P (bs_planner s) goal cat (bs_observed s)))
    \<and> (observed_all (bs_calls s) (bs_observed s) \<longrightarrow> observed_all (bs_calls s') (bs_observed s'))
    \<and> (go \<longrightarrow> bs_is_replan s')"
proof -
  have calls: "\<exists>new cat planned. tn_calls t = bs_calls s @ new
      \<and> (\<forall>x \<in> set new. fst x = bg_turns (bs_budget s) + 1 \<and> fst (snd x) \<in> set planned)
      \<and> (bs_is_replan s \<longrightarrow> planned = fst (port_replan P (bs_planner s) goal cat (bs_observed s)))
      \<and> (observed_all (bs_calls s) (bs_observed s) \<longrightarrow> observed_all (tn_calls t) (tn_observed t))"
    if ps: "plan_turn P goal s = (ps, s1)" and run: "run_proposals P ps (turn_start s1) = (c, t)" for ps s1 c t
    using run_proposals_calls [OF run] plan_turn_frame(10) [OF ps] unfolding turn_frames plan_turn_frame(2,6,7) [OF ps] by blast
  from turn show ?thesis
  proof (cases rule: agent_turn_cases)
    case (none s1)
    with plan_turn_frame(6,7) [OF none(1)] show ?thesis
      by (intro exI [of _ "[]"] exI [of _ "[]"]
          exI [of _ "fst (port_replan P (bs_planner s) goal [] (bs_observed s))"]) simp
  next
    case (confirm ps s1 t)
    with calls [OF confirm(1,2)] show ?thesis by simp
  next
    case (judged ps s1 t)
    with calls [OF judged(1,2)] judge_turn_frame(1,2,8) [OF judged(3)] show ?thesis by simp
  qed
qed

lemma no_replay_append:
  assumes "no_replay cs" "\<forall>x \<in> set new. fst x = n"
    and "\<And>c x. c \<in> set cs \<Longrightarrow> x \<in> set new \<Longrightarrow> snd (snd c) \<Longrightarrow> call_key c \<noteq> call_key x"
  shows "no_replay (cs @ new)"
  unfolding no_replay_def
proof (intro allI impI, elim conjE)
  fix i j assume ij: "i < j" "j < length (cs @ new)" "snd (snd ((cs @ new) ! i))" "fst ((cs @ new) ! i) < fst ((cs @ new) ! j)"
  show "call_key ((cs @ new) ! i) \<noteq> call_key ((cs @ new) ! j)"
  proof (cases "j < length cs")
    case True
    with ij assms(1) show ?thesis by (simp add: no_replay_def nth_append)
  next
    case False
    then have j: "(cs @ new) ! j \<in> set new" using ij(2) by (simp add: nth_append)
    show ?thesis
    proof (cases "i < length cs")
      case True
      then have "(cs @ new) ! i \<in> set cs" by (simp add: nth_append)
      then show ?thesis using j ij(3) by (rule assms(3))
    next
      case i: False
      then have "(cs @ new) ! i \<in> set new" using ij(1,2) by (simp add: nth_append)
      with j assms(2) ij(4) show ?thesis by simp
    qed
  qed
qed

context replanner
begin

definition replay_inv :: "('h, 'p) bounded_state \<Rightarrow> bool" where
  "replay_inv s \<longleftrightarrow> no_replay (bs_calls s) \<and> observed_all (bs_calls s) (bs_observed s)
     \<and> (\<not> bs_is_replan s \<longrightarrow> bs_calls s = [])"

lemma turn_no_replay:
  assumes "port_replan P = replan" "agent_turn P goal s = (go, s')" "replay_inv s"
  shows "no_replay (bs_calls s') \<and> (go \<longrightarrow> replay_inv s')"
proof -
  from agent_turn_calls [OF assms(2)] obtain new cat planned where new: "bs_calls s' = bs_calls s @ new"
    "\<forall>x \<in> set new. fst x = bg_turns (bs_budget s) + 1 \<and> fst (snd x) \<in> set planned"
    "bs_is_replan s \<longrightarrow> planned = fst (port_replan P (bs_planner s) goal cat (bs_observed s))"
    "observed_all (bs_calls s) (bs_observed s) \<longrightarrow> observed_all (bs_calls s') (bs_observed s')" "go \<longrightarrow> bs_is_replan s'"
    by blast
  have "call_key c \<noteq> call_key x" if c: "c \<in> set (bs_calls s)" "snd (snd c)" and x: "x \<in> set new" for c x
  proof -
    have "bs_is_replan s" using assms(3) c(1) by (auto simp: replay_inv_def)
    with x new(2,3) assms(1) have "fst (snd x) \<in> set (fst (replan (bs_planner s) goal cat (bs_observed s)))" by simp
    from forgets_failed [OF this] have "call_key x \<notin> set (bs_observed s)"
      by (cases x) (simp add: call_key_def)
    moreover have "call_key c \<in> set (bs_observed s)" using assms(3) c by (simp add: replay_inv_def observed_all_def)
    ultimately show ?thesis by metis
  qed
  then have "no_replay (bs_calls s')" unfolding new(1) using new(2) assms(3)
    by (intro no_replay_append [where n = "bg_turns (bs_budget s) + 1"]) (auto simp: replay_inv_def)
  with new(4,5) assms(3) show ?thesis by (simp add: replay_inv_def)
qed

lemma loop_no_replay:
  "port_replan P = replan \<Longrightarrow> replay_inv s \<Longrightarrow> no_replay (bs_calls (agent_loop P goal elapsed s))"
proof (induction P goal elapsed s rule: agent_loop.induct)
  case (1 P goal elapsed s)
  show ?case
  proof (cases "can_start_turn (elapsed (unat (bg_turns (bs_budget s)))) (bs_budget s) \<noteq> BudgetContinue")
    case True
    with 1(3) show ?thesis by (simp add: agent_loop.simps [of P goal elapsed s] replay_inv_def)
  next
    case False
    obtain go s' where turn: "agent_turn P goal s = (go, s')" by (cases "agent_turn P goal s")
    note keep = turn_no_replay [OF "1.prems"(1) turn "1.prems"(2)]
    show ?thesis
    proof (cases "go = True")
      case True
      from "1.IH" [OF False turn [symmetric] True "1.prems"(1)] keep True False turn show ?thesis
        by (simp add: agent_loop.simps [of P goal elapsed s])
    next
      case stop: False
      with keep False turn show ?thesis by (simp add: agent_loop.simps [of P goal elapsed s])
    qed
  qed
qed

lemma run_no_replay:
  assumes "port_replan P = replan" "run_bounded_agent P goal l elapsed h p = (out, calls)"
  shows "no_replay calls"
proof -
  have "replay_inv (bounded_start l h p)"
    by (simp add: replay_inv_def bounded_start_def no_replay_def observed_all_def)
  from loop_no_replay [OF assms(1) this] assms(2) show ?thesis by (auto simp: run_bounded_agent_def Let_def)
qed

end

text \<open>Both planners take the trait's default \<open>replan\<close>.\<close>

interpretation trait_default: replanner "\<lambda>p goal cat failed. (default_replan plan goal cat failed, p)" for plan
  by unfold_locales (simp add: default_replan_def)

section \<open>Ways to end, confirmation\<close>

lemma agent_turn_status:
  "agent_turn P goal s = (False, s') \<Longrightarrow> bs_status s' \<in> {Completed, WaitingForConfirmation, BudgetExhausted}"
  "agent_turn P goal s = (True, s') \<Longrightarrow> bs_status s' = Replanning"
  by (erule agent_turn_cases; auto dest: judge_turn_frame(8,9))+

lemma agent_loop_status:
  "bs_status s \<in> {Created, Replanning} \<Longrightarrow>
    bs_status (agent_loop P goal elapsed s) \<in> {Created, Replanning, Completed, WaitingForConfirmation, BudgetExhausted}"
proof (induction P goal elapsed s rule: agent_loop.induct)
  case (1 P goal elapsed s)
  obtain go s' where turn: "agent_turn P goal s = (go, s')" by (cases "agent_turn P goal s")
  show ?case
  proof (cases "can_start_turn (elapsed (unat (bg_turns (bs_budget s)))) (bs_budget s) \<noteq> BudgetContinue")
    case True
    with 1(2) show ?thesis by (auto simp: agent_loop.simps [of P goal elapsed s])
  next
    case False
    show ?thesis
    proof (cases "go = True")
      case True
      with turn agent_turn_status(2) have "bs_status s' = Replanning" by blast
      with "1.IH" [OF False turn [symmetric] True] True False turn show ?thesis
        by (simp add: agent_loop.simps [of P goal elapsed s])
    next
      case stop: False
      with turn agent_turn_status(1) [of P goal s s'] False show ?thesis by (auto simp: agent_loop.simps [of P goal elapsed s])
    qed
  qed
qed

lemma bounded_status:
  assumes "run_bounded_agent P goal l elapsed h p = (out, calls)"
  shows "ao_status out \<in> {Completed, WaitingForConfirmation, BudgetExhausted, RunFailed}"
  using assms agent_loop_status [of "bounded_start l h p" P goal elapsed]
  by (auto simp: run_bounded_agent_def Let_def run_outcome_def bounded_start_def)

end
