(* ===== verification/AiSamples.thy ===== *)
theory AiSamples
  imports AiLoop AiBounded
begin

text \<open>Concrete hosts, planners and models for the agents: the inputs of the witnesses and the findings.\<close>

section \<open>A run of the agent loop\<close>

definition demo_plan :: "plan_step list" where
  "demo_plan = [\<lparr>ps_id = ''s1'', ps_action_ref = ''search:query'', ps_input = JNull, ps_rationale = None,
       ps_requires_approval = False\<rparr>,
     \<lparr>ps_id = ''s2'', ps_action_ref = ''shell:run'', ps_input = JNull, ps_rationale = None,
       ps_requires_approval = False\<rparr>]"

definition demo_proposal :: agent_proposal where
  "demo_proposal = \<lparr>pr_id = ''p'', pr_session = ''s'', pr_goal = ''find report'', pr_intent = ISearch,
     pr_plan = demo_plan, pr_confidence = Fin 1, pr_explanation = None\<rparr>"

text \<open>The model answers with a JSON text that reads as the proposal; the executor, whose state counts
  the calls, fails its second call; the user approves or stays silent.\<close>

definition demo_agent :: "bool \<Rightarrow> nat agent_host" where
  "demo_agent approves = \<lparr>h_lower = id, h_read = (\<lambda>_. Ok demo_proposal), h_llm = (\<lambda>_ _. Ok ''{ }''),
     h_exec = (\<lambda>r i n. (if n = 1 then Err ''busy'' else Ok JNull, n + 1)), h_effect = (\<lambda>_ _. EffFailed),
     h_sink = (\<lambda>_ rq. if approves then Some \<lparr>ad_request = rq_id rq, ad_decision = Approve\<rparr> else None),
     h_cancel = (\<lambda>_. False), h_clock = (\<lambda>_. 0), h_elapsed = (\<lambda>_. 1)\<rparr>"

definition loop_start :: "nat loop_state" where
  "loop_start = \<lparr>ls_session = session_new ''s'' 4,
     ls_tm = \<lparr>tm_log = \<lparr>el_records = []\<rparr>, tm_metrics = metrics_zero\<rparr>, ls_exec = 0, ls_tick = 0, ls_calls = []\<rparr>"

definition demo_agent_run :: "bool \<Rightarrow> loop_stop \<times> nat loop_state" where
  "demo_agent_run approves = run_agent (demo_agent approves) ''find report'' [] [] (Fin 0) 100 loop_start"

definition short_calls :: "'x loop_state \<Rightarrow> (string \<times> effect_state option) list" where
  "short_calls st = map (\<lambda>(s, e). (ps_id s, e)) (ls_calls st)"

section \<open>Runs of the bounded agent\<close>

definition wide_limits :: agent_limits where
  "wide_limits = \<lparr>al_turns = 4, al_proposals = 4, al_executions = 8, al_failures = 4, al_replans = 3,
     al_wall_time = 300, al_planner_timeout = 30\<rparr>"

definition note_command :: command where
  "note_command = \<lparr>cmd_id = ''c'', cmd_title = ''note'', cmd_subtitle = None, cmd_icon = None,
     cmd_provider = ''p'', cmd_score = Fin 1, cmd_keywords = [], cmd_category = CatCommand,
     cmd_actions = [\<lparr>ac_kind = ActOpen, ac_payload = None, ac_id = Some ''a'', ac_title = None,
       ac_disabled = None, ac_shortcut = None, ac_confirm = False\<rparr>], cmd_target = None\<rparr>"

text \<open>A host with one command whose execution fails, under the keyword planner.\<close>

definition failing_port :: "(unit, unit) agent_port" where
  "failing_port = \<lparr>port_catalog = (\<lambda>h. ([note_command], h)),
     port_execute = (\<lambda>h p. ([\<lparr>er_execution = None, er_action = pr_action p, er_ok = False,
       er_error = Some ''failed'', er_result = None\<rparr>], h)),
     port_confirm = (\<lambda>_ _. False),
     port_plan = (\<lambda>p goal cat. (keyword_plan id goal cat, p)),
     port_replan = (\<lambda>p goal cat failed. (default_replan (keyword_plan id) goal cat failed, p))\<rparr>"

definition failing_run :: "agent_run_outcome \<times> agent_call list" where
  "failing_run = run_bounded_agent failing_port ''note'' wide_limits (\<lambda>_. 0) () ()"

section \<open>A model that proposes a command twice\<close>

definition note_proposal :: "string \<Rightarrow> action_proposal" where
  "note_proposal cid = \<lparr>pr_provider = ''p'', pr_command = cid, pr_action = ''a'', pr_input = JNull\<rparr>"

definition demo_model :: planner_env where
  "demo_model = \<lparr>pe_generate = (\<lambda>_. Ok ''{ }''), pe_read = (\<lambda>_. Ok [note_proposal ''c'', note_proposal ''made up'']),
     pe_lower = id, pe_serde = \<lparr>json_text = (\<lambda>_. []), json_parse = (\<lambda>_. None), ids_text = (\<lambda>_. []),
       ids_parse = (\<lambda>_. None)\<rparr>\<rparr>"

section \<open>The run of the agent loop, evaluated\<close>

lemma demo_valid: "validate_proposal (finish_proposal ISearch demo_proposal) = Ok ()" "validate_proposal demo_proposal = Ok ()"
proof -
  have "\<not> str_blank ''find report''" by code_simp
  then show "validate_proposal (finish_proposal ISearch demo_proposal) = Ok ()" "validate_proposal demo_proposal = Ok ()"
    by (auto simp: validate_proposal_Ok proposal_ok_def finish_plan id_ok_def goal_ok_def step_ok_def demo_proposal_def
      demo_plan_def finish_proposal_def raise_approval_def input_str_len_def)
qed

lemma demo_model_output: "validate_llm_output (\<lambda>_. Ok demo_proposal) ''{ }'' = Ok demo_proposal"
proof -
  have "extract_json ''{ }'' = Ok ''{ }''" by code_simp
  then show ?thesis by (simp add: validate_llm_output_def demo_valid)
qed

lemma demo_intent: "pq_intent (parse_intent id ''find report'') = ISearch"
  "needs_clarification ISearch (pq_entities (parse_intent id ''find report'')) (Fin 1) (Fin 0) = None"
  by code_simp+

lemma demo_pipeline:
  "\<exists>risks prompt. run_pipeline (h_lower (demo_agent a)) (h_read (demo_agent a)) ''find report'' [] [] (llm_timed (demo_agent a)) (Fin 0) 100 st
    = (Ok (Proposal (finish_proposal ISearch demo_proposal) risks prompt), snd (llm_timed (demo_agent a) [] st))"
  by (simp add: run_pipeline_def demo_intent demo_model_output demo_valid demo_agent_def llm_timed_def Let_def)

lemma demo_finished: "pr_plan (finish_proposal ISearch demo_proposal) = [hd demo_plan, (last demo_plan)\<lparr>ps_requires_approval := True\<rparr>]"
  by code_simp

lemma demo_agent_fields [simp]:
  "h_exec (demo_agent a) r i n = (if n = 1 then Err ''busy'' else Ok JNull, n + 1)" "h_effect (demo_agent a) r n = EffFailed"
  "h_sink (demo_agent a) k rq = (if a then Some \<lparr>ad_request = rq_id rq, ad_decision = Approve\<rparr> else None)"
  "h_cancel (demo_agent a) k = False" "h_clock (demo_agent a) k = 0" "h_elapsed (demo_agent a) k = 1"
  "h_llm (demo_agent a) k pr = Ok ''{ }''"
  by (simp_all add: demo_agent_def)

lemma exec_frame [simp]:
  "ls_exec (tick st) = ls_exec st" "ls_exec (ev H e d st) = ls_exec st" "ls_exec (metric f st) = ls_exec st"
  "ls_exec (enter q c st) = ls_exec st"
  by (simp_all add: tick_def ev_def metric_def enter_def)

lemma demo_agent_runs:
  "fst (demo_agent_run False) = LoopCancelled" "ls_calls (snd (demo_agent_run False)) = []"
  "fst (demo_agent_run True) = LoopCompleted"
  "short_calls (snd (demo_agent_run True)) = [(''s1'', None), (''s2'', Some EffFailed), (''s2'', None)]"
proof -
  obtain risks prompt where p: "run_pipeline (h_lower (demo_agent a)) (h_read (demo_agent a)) ''find report'' [] [] (llm_timed (demo_agent a)) (Fin 0) 100 st
    = (Ok (Proposal (finish_proposal ISearch demo_proposal) (risks a st) (prompt a st)), snd (llm_timed (demo_agent a) [] st))" for a st
    using demo_pipeline by metis
  note run = demo_agent_run_def run_agent_def plan_and_execute_def p approve_plan_def demo_finished Let_def
    gate_ask_def gate_new_def plan_rounds.simps [of _ _ _ False, simplified] plan_rounds.simps [of _ _ _ True, simplified]
    demo_plan_def loop_start_def session_new_def transition_def legal_def is_terminal_def
    llm_timed_def gate_decide_def DEFAULT_TTL_MS_def short_calls_def
  show "fst (demo_agent_run False) = LoopCancelled" "ls_calls (snd (demo_agent_run False)) = []"
    by (simp_all add: run)
  show  "fst (demo_agent_run True) = LoopCompleted"
  "short_calls (snd (demo_agent_run True)) = [(''s1'', None), (''s2'', Some EffFailed), (''s2'', None)]"
    by (simp_all add: run)
qed

section \<open>The bounded agent, evaluated\<close>

lemma failing_run_result:
  "ao_status (fst failing_run) = Completed" "ao_failures (fst failing_run) = 1"
  "snd failing_run = [(1, note_proposal ''c'', True)]"
  by code_simp+


text \<open>Two proposals a turn; the second one is executed only once the first is out of the plan.\<close>

definition demo_ask :: "plan_step list" where
  "demo_ask = map (\<lambda>s. s\<lparr>ps_requires_approval := True\<rparr>) demo_plan"




section \<open>Agents\<close>

text \<open>C22: whatever the host, the model and the user do, the agent loop executes only steps of an
  authorized plan: a valid proposal of the model that needs no approval, that proposal approved by the
  user for this goal, or the valid edited plan of such a decision. It never executes a step again that
  succeeded, nothing after an effect it could not settle, and fails at most twice; when it reports
  completion every step of the plan has succeeded.\<close>

theorem agent_executes_authorized_plan:
  assumes "run_agent H input context catalog mc budget st = (stop, st')" and "ls_calls st = []"
    and "ls_calls st' \<noteq> [] \<or> stop = LoopCompleted"
  shows "\<exists>p plan. from_model H input p \<and> proposal_ok p \<and> authorized H input (pr_plan p) plan
    \<and> fst ` set (ls_calls st') \<subseteq> set plan
    \<and> sorted_wrt later_ok (ls_calls st') \<and> failures (ls_calls st') \<le> 2
    \<and> (stop = LoopCompleted \<longrightarrow> ps_id ` set plan \<subseteq> succeeded_ids (ls_calls st'))"
  using run_agent_facts [OF assms(1,2)] assms(3) unfolding run_facts_of_def calls_ok_def completes_def by blast

theorem agent_executes_authorized_plan_witness:
  "short_calls (snd (demo_agent_run True)) = [(''s1'', None), (''s2'', Some EffFailed), (''s2'', None)]
    \<and> (\<exists>p plan. from_model (demo_agent True) ''find report'' p
        \<and> authorized (demo_agent True) ''find report'' (pr_plan p) plan
        \<and> ps_id ` set plan \<subseteq> succeeded_ids (ls_calls (snd (demo_agent_run True))))"
proof -
  have r: "run_agent (demo_agent True) ''find report'' [] [] (Fin 0) 100 loop_start
      = (LoopCompleted, snd (demo_agent_run True))"
    using demo_agent_runs(3) by (simp add: demo_agent_run_def prod_eq_iff)
  have c: "ls_calls loop_start = []" by (simp add: loop_start_def)
  have "\<exists>p plan. from_model (demo_agent True) ''find report'' p
        \<and> authorized (demo_agent True) ''find report'' (pr_plan p) plan
        \<and> ps_id ` set plan \<subseteq> succeeded_ids (ls_calls (snd (demo_agent_run True)))"
    using agent_executes_authorized_plan [OF r c disjI2 [OF refl]]
    by (elim exE conjE) (intro exI conjI, assumption, assumption, erule mp, rule refl)
  with demo_agent_runs(4) show ?thesis by (rule conjI)
qed

text \<open>C23: an approval request is decided at most once: after a decision, accepted or late, no later call
  on the gate, whatever calls come between, gets a decision accepted under the same request id.\<close>

theorem approvals_are_single_use:
  assumes "gate_wf g" and "is_ok (fst (gate_decide rid d now g)) \<or> fst (gate_decide rid d now g) = Err Expired"
    and "unat (ag_seq g) + length cs < 2 ^ 64"
  shows "\<not> is_ok (fst (gate_decide rid d' now' (fold gate_call cs (snd (gate_decide rid d now g)))))"
proof (rule spent_history)
  show "spent rid (snd (gate_decide rid d now g))" using assms(1,2) by (rule decide_spends)
  show "unat (ag_seq (snd (gate_decide rid d now g))) + length cs < 2 ^ 64" using assms(3) by (simp add: decide_seq)
  show "gate_wf (snd (gate_decide rid d now g))" using assms(1) by (rule decide_wf)
qed

theorem approvals_are_single_use_witness:
  "\<exists>g. fst (gate_decide ''apr-s-1'' Approve 5 g) = Ok demo_ask
    \<and> \<not> is_ok (fst (gate_decide ''apr-s-1'' Approve 6 (fold gate_call [GateAsk ''s'' ''g'' demo_ask 5]
        (snd (gate_decide ''apr-s-1'' Approve 5 g)))))"
proof -
  let ?g = "gate_call (GateAsk ''s'' ''g'' demo_ask 0) (gate_new DEFAULT_TTL_MS)"
  have ok: "fst (gate_decide ''apr-s-1'' Approve 5 ?g) = Ok demo_ask" by code_simp
  have "unat (ag_seq ?g) = 1" by (simp add: gate_ask_def gate_new_def demo_ask_def demo_plan_def Let_def)
  moreover have "gate_wf ?g" by (rule gate_wf_call(1) [OF gate_wf_new]) (simp add: gate_new_def)
  ultimately show ?thesis
    using approvals_are_single_use [of ?g "''apr-s-1''" Approve 5 "[GateAsk ''s'' ''g'' demo_ask 5]" Approve 6] ok by auto
qed

text \<open>C24: the bounded agent keeps its limits on turns, total executions, failed turns and
  replannings; it makes one host call per counted execution, in each turn at most as many as the
  limit of proposals per turn, and it starts no turn once the wall time is over (a turn under way is
  not cut short). The planner timeout of its limits is not among them: nothing reads it.\<close>

theorem agent_budgets_hold:
  assumes "run_bounded_agent P goal l elapsed h p = (out, calls)"
  shows "ao_turns out \<le> al_turns l \<and> ao_executions out \<le> al_executions l \<and> ao_failures out \<le> al_failures l
    \<and> ao_replans out \<le> al_replans l \<and> length calls = ao_executions out
    \<and> (\<forall>n. length (calls_in_turn n calls) \<le> al_proposals l)
    \<and> (\<forall>i < unat (ao_turns out). elapsed i < al_wall_time l)"
  using assms by (rule bounded_budgets)

theorem agent_budgets_hold_witness:
  "ao_failures (fst failing_run) = 1 \<and> ao_failures (fst failing_run) \<le> al_failures wide_limits
    \<and> length (snd failing_run) = ao_executions (fst failing_run)
    \<and> length (calls_in_turn 1 (snd failing_run)) \<le> al_proposals wide_limits"
  using agent_budgets_hold [of failing_port "''note''" wide_limits "\<lambda>_. 0" "()" "()" "fst failing_run" "snd failing_run"]
    failing_run_result(2) by (simp add: failing_run_def)

text \<open>The planner timeout changes nothing.\<close>

lemma planner_timeout_is_ignored:
  "snd (run_bounded_agent failing_port ''note'' (wide_limits\<lparr>al_planner_timeout := 0\<rparr>) (\<lambda>_. 0) () ()) = snd failing_run"
  by code_simp





text \<open>The route check does not look at \<open>disabled_reason\<close>.\<close>

definition shut_command :: command where
  "shut_command = note_command\<lparr>cmd_actions := map (\<lambda>a. a\<lparr>ac_disabled := Some ''off''\<rparr>) (cmd_actions note_command)\<rparr>"

lemma disabled_route_is_planned:
  "llm_plan demo_model llm_planner_new ''note'' [shut_command] = [note_proposal ''c'']"
  by code_simp

text \<open>A run of the bounded agent in which the only action failed is reported as completed: the
  default replanning filters the failed action out, and an empty plan counts as completion.\<close>

theorem failed_goal_completes:
  "ao_status (fst failing_run) = Completed \<and> ao_failures (fst failing_run) = 1
    \<and> snd failing_run = [(1, note_proposal ''c'', True)]"
  by (simp add: failing_run_result)

text \<open>An answer of the model whose JSON object stands in a code fence labelled \<open>json\<close> is rejected,
  although the code goes on to strip such a label; the same object in an unlabelled fence is read.\<close>

theorem labelled_fence_is_rejected:
  "strict_json_text (fenced ''json'' ''{}'') = Err (LlmInvalidOutput ''no json object found'')
    \<and> strict_json_text (fenced [] ''{}'') = Ok (''{}'' @ [CHR 0x0A])"
  by code_simp

end
