(* ===== verification/ToolUi.thy ===== *)
theory ToolUi
  imports Domain
begin

text \<open>
  Plugin-facing declarations that are validated before use: interactive tools and their UI trees
  (\<open>launcher-domain/src/tool.rs\<close>) and the plugin manifest (\<open>launcher-domain/src/lib.rs\<close>), with the
  tool session states and the generation counter of UI updates.
\<close>

section \<open>Tools\<close>

definition UI_SCHEMA_VERSION :: "32 word" where "UI_SCHEMA_VERSION = 1"
definition MAX_UI_NODES :: nat where "MAX_UI_NODES = 256"
definition MAX_UI_DEPTH :: nat where "MAX_UI_DEPTH = 16"
definition MAX_TEXT_CHARS :: nat where "MAX_TEXT_CHARS = 8192"
definition MAX_ID_CHARS :: nat where "MAX_ID_CHARS = 128"

definition char_count :: "string \<Rightarrow> nat" where
  "char_count s = length (utf8_chars s)"

definition ascii_alnum :: "char \<Rightarrow> bool" where
  "ascii_alnum c \<longleftrightarrow> (48 \<le> byte c \<and> byte c \<le> 57) \<or> (65 \<le> byte c \<and> byte c \<le> 90) \<or> (97 \<le> byte c \<and> byte c \<le> 122)"

definition tool_id_char :: "char \<Rightarrow> bool" where
  "tool_id_char c \<longleftrightarrow> ascii_alnum c \<or> c = CHR ''.'' \<or> c = CHR ''_'' \<or> c = CHR ''-''"

definition tool_id_parse :: "string \<Rightarrow> string + string" where
  "tool_id_parse raw =
     (if raw = [] \<or> char_count raw > MAX_ID_CHARS then Err (''invalid tool id length: '' @ raw)
      else if \<not> list_all tool_id_char raw then Err (''invalid tool id characters: '' @ raw)
      else Ok raw)"

record tool_definition =
  td_id :: string
  td_name :: string
  td_description :: "string option"
  td_category :: "string option"
  td_icon :: "string option"
  td_version :: "32 word"
  td_entry :: string

definition td_validate :: "tool_definition \<Rightarrow> string + unit" where
  "td_validate t = (case tool_id_parse (td_id t) of
     Inl e \<Rightarrow> Err e
   | Inr _ \<Rightarrow>
      if td_name t = [] \<or> char_count (td_name t) > 256 then Err ''invalid tool name''
      else if (case td_description t of Some d \<Rightarrow> char_count d > 4096 | None \<Rightarrow> False) then Err ''description too long''
      else if td_version t \<noteq> 1 then Err (''unsupported tool schema_version '' @ nat_str (unat (td_version t)))
      else if td_entry t \<noteq> ''interactive'' then Err (''unknown entry_type '' @ td_entry t)
      else Ok ())"

record tool_function =
  tf_id :: string
  tf_input_schema :: json
  tf_output_schema :: json
  tf_deterministic :: bool
  tf_side_effect :: bool
  tf_capabilities :: "string list"

definition tf_validate :: "tool_function \<Rightarrow> string + unit" where
  "tf_validate f =
     (if tf_id f = [] \<or> char_count (tf_id f) > MAX_ID_CHARS then Err ''invalid function id''
      else if \<not> json_is_object (tf_input_schema f) \<or> \<not> json_is_object (tf_output_schema f)
      then Err ''schemas must be objects''
      else Ok ())"

section \<open>UI trees\<close>

text \<open>\<open>node_kind_parse\<close>: the kinds have one constructor per name, so the names stand for them.\<close>

definition ui_node_kinds :: "string list" where
  "ui_node_kinds = [''container'', ''section'', ''text'', ''markdown'', ''icon'', ''image'', ''text_field'',
     ''password_field'', ''text_area'', ''dropdown'', ''checkbox'', ''radio'', ''toggle'', ''number_input'',
     ''button'', ''action_button'', ''list'', ''list_item'', ''detail'', ''key_value'', ''progress'', ''status'',
     ''badge'', ''separator'', ''spacer'']"

datatype ui_node = UiNode (ui_kind: string) (ui_id: string) (ui_title: "string option") (ui_text: "string option")
  (ui_value: json) (ui_readonly: "bool option") (ui_children: "ui_node list") (ui_properties: "(string \<times> json) list")

record ui_schema =
  us_version :: "32 word"
  us_root :: ui_node

text \<open>\<open>validate_node\<close>: the id set and the node counter are threaded through the walk.\<close>

fun validate_node :: "ui_node \<Rightarrow> string list \<Rightarrow> nat \<Rightarrow> nat \<Rightarrow> string + (string list \<times> nat)"
  and validate_nodes :: "ui_node list \<Rightarrow> string list \<Rightarrow> nat \<Rightarrow> nat \<Rightarrow> string + (string list \<times> nat)" where
  "validate_node (UiNode kind nid title tx val ro children props) ids depth count =
     (if depth > MAX_UI_DEPTH then Err ''ui depth exceeds 16''
      else if count + 1 > MAX_UI_NODES then Err ''ui node count exceeds 256''
      else if kind = [] \<or> nid = [] \<or> char_count nid > MAX_ID_CHARS then Err (''invalid node id '' @ nid)
      else if kind \<notin> set ui_node_kinds then Err (''unknown ui node kind '' @ kind)
      else if nid \<in> set ids then Err (''duplicate ui node id '' @ nid)
      else if (case tx of Some t \<Rightarrow> char_count t > MAX_TEXT_CHARS | None \<Rightarrow> False) then Err ''node text too long''
      else validate_nodes children (hs_insert nid ids) (depth + 1) (count + 1))"
| "validate_nodes [] ids depth count = Ok (ids, count)"
| "validate_nodes (n # ns) ids depth count =
     (case validate_node n ids depth count of
        Inl e \<Rightarrow> Err e
      | Inr (ids', count') \<Rightarrow> validate_nodes ns ids' depth count')"

definition us_validate :: "ui_schema \<Rightarrow> string + unit" where
  "us_validate s =
     (if us_version s \<noteq> UI_SCHEMA_VERSION then Err (''unsupported ui schema_version '' @ nat_str (unat (us_version s)))
      else map_sum id (\<lambda>_. ()) (validate_node (us_root s) [] 1 0))"

text \<open>What a valid tree is.\<close>

primrec ui_nodes :: "ui_node \<Rightarrow> ui_node list" where
  "ui_nodes (UiNode kind nid title tx val ro children props) =
     UiNode kind nid title tx val ro children props # concat (map ui_nodes children)"

primrec ui_height :: "ui_node \<Rightarrow> nat" where
  "ui_height (UiNode kind nid title tx val ro children props) = Suc (fold max (map ui_height children) 0)"

definition ui_node_ok :: "ui_node \<Rightarrow> bool" where
  "ui_node_ok n \<longleftrightarrow> ui_kind n \<in> set ui_node_kinds \<and> ui_id n \<noteq> [] \<and> char_count (ui_id n) \<le> MAX_ID_CHARS
     \<and> (\<forall>t. ui_text n = Some t \<longrightarrow> char_count t \<le> MAX_TEXT_CHARS)"

definition ui_tree_ok :: "ui_node \<Rightarrow> bool" where
  "ui_tree_ok n \<longleftrightarrow> ui_height n \<le> MAX_UI_DEPTH \<and> length (ui_nodes n) \<le> MAX_UI_NODES
     \<and> distinct (map ui_id (ui_nodes n)) \<and> (\<forall>m \<in> set (ui_nodes n). ui_node_ok m)"

definition forest :: "ui_node list \<Rightarrow> ui_node list" where
  "forest ns = concat (map ui_nodes ns)"

lemma forest_simps [simp]: "forest [] = []" "forest (n # ns) = ui_nodes n @ forest ns"
  by (simp_all add: forest_def)

lemma fold_max_le: "fold max xs (a :: nat) \<le> b \<longleftrightarrow> a \<le> b \<and> (\<forall>x \<in> set xs. x \<le> b)"
  by (induction xs arbitrary: a) auto

lemma kind_nonempty: "[] \<notin> set ui_node_kinds"
  by (simp add: ui_node_kinds_def)

lemma hs_insert_new: "x \<notin> set xs \<Longrightarrow> hs_insert x xs = xs @ [x]"
  by (simp add: hs_insert_def)

lemma validate_node_iff:
  "validate_node n ids depth count = Ok r \<longleftrightarrow>
    depth + ui_height n \<le> Suc MAX_UI_DEPTH \<and> count + length (ui_nodes n) \<le> MAX_UI_NODES
    \<and> distinct (map ui_id (ui_nodes n)) \<and> ui_id ` set (ui_nodes n) \<inter> set ids = {}
    \<and> (\<forall>m \<in> set (ui_nodes n). ui_node_ok m)
    \<and> r = (ids @ map ui_id (ui_nodes n), count + length (ui_nodes n))"
  "validate_nodes ns ids depth count = Ok r \<longleftrightarrow>
    (\<forall>n \<in> set ns. depth + ui_height n \<le> Suc MAX_UI_DEPTH)
    \<and> (ns \<noteq> [] \<longrightarrow> count + length (forest ns) \<le> MAX_UI_NODES)
    \<and> distinct (map ui_id (forest ns)) \<and> ui_id ` set (forest ns) \<inter> set ids = {}
    \<and> (\<forall>m \<in> set (forest ns). ui_node_ok m)
    \<and> r = (ids @ map ui_id (forest ns), count + length (forest ns))"
proof (induction n ids depth count and ns ids depth count arbitrary: r and r rule: validate_node_validate_nodes.induct)
  case (1 kind nid title tx val ro children props ids depth count)
  let ?n = "UiNode kind nid title tx val ro children props"
  show ?case
  proof (cases "depth \<le> MAX_UI_DEPTH \<and> Suc count \<le> MAX_UI_NODES \<and> ui_node_ok ?n \<and> nid \<notin> set ids")
    case True
    have ih: "validate_nodes children (hs_insert nid ids) (depth + 1) (count + 1) = Ok r \<longleftrightarrow>
      (\<forall>n \<in> set children. Suc depth + ui_height n \<le> Suc MAX_UI_DEPTH)
      \<and> (children \<noteq> [] \<longrightarrow> Suc count + length (forest children) \<le> MAX_UI_NODES)
      \<and> distinct (map ui_id (forest children)) \<and> ui_id ` set (forest children) \<inter> set (ids @ [nid]) = {}
      \<and> (\<forall>m \<in> set (forest children). ui_node_ok m)
      \<and> r = ((ids @ [nid]) @ map ui_id (forest children), Suc count + length (forest children))"
    proof -
      have k: "kind \<noteq> []" using True kind_nonempty by (auto simp: ui_node_ok_def)
      from True have c: "\<not> depth > MAX_UI_DEPTH" "\<not> count + 1 > MAX_UI_NODES"
        "\<not> (kind = [] \<or> nid = [] \<or> char_count nid > MAX_ID_CHARS)" "\<not> kind \<notin> set ui_node_kinds" "\<not> nid \<in> set ids"
        "\<not> (case tx of Some t \<Rightarrow> char_count t > MAX_TEXT_CHARS | None \<Rightarrow> False)"
        using k by (auto simp: ui_node_ok_def split: option.splits)
      show ?thesis using "1.IH" [OF c] True by (simp add: hs_insert_new)
    qed
    have lhs: "validate_node ?n ids depth count = validate_nodes children (hs_insert nid ids) (depth + 1) (count + 1)"
      using True kind_nonempty by (auto simp: ui_node_ok_def split: option.splits)
    have "depth + ui_height ?n \<le> Suc MAX_UI_DEPTH \<longleftrightarrow> (\<forall>n \<in> set children. Suc depth + ui_height n \<le> Suc MAX_UI_DEPTH)"
      using True fold_max_le [of "map ui_height children" 0 "MAX_UI_DEPTH - depth"] by auto
    moreover have "count + length (ui_nodes ?n) \<le> MAX_UI_NODES \<longleftrightarrow>
      (children \<noteq> [] \<longrightarrow> Suc count + length (forest children) \<le> MAX_UI_NODES)"
      using True by (cases children) (auto simp: forest_def)
    moreover have "set (ui_nodes ?n) = insert ?n (set (forest children))"
      "map ui_id (ui_nodes ?n) = nid # map ui_id (forest children)"
      "length (ui_nodes ?n) = Suc (length (forest children))" by (simp_all add: forest_def)
    ultimately show ?thesis using True unfolding lhs ih by auto
  next
    case False
    have "validate_node ?n ids depth count \<noteq> Ok r"
      using False by (auto simp: ui_node_ok_def split: if_splits option.splits)
    moreover have "\<not> (depth + ui_height ?n \<le> Suc MAX_UI_DEPTH \<and> count + length (ui_nodes ?n) \<le> MAX_UI_NODES
      \<and> ui_id ` set (ui_nodes ?n) \<inter> set ids = {} \<and> (\<forall>m \<in> set (ui_nodes ?n). ui_node_ok m))"
      using False by auto
    ultimately show ?thesis by blast
  qed
next
  case (2 ids depth count)
  show ?case by auto
next
  case (3 n ns ids depth count)
  show ?case
  proof (cases "validate_node n ids depth count")
    case (Inl e)
    then have "\<not> (\<exists>r. validate_node n ids depth count = Ok r)" by simp
    then have "\<not> (depth + ui_height n \<le> Suc MAX_UI_DEPTH \<and> count + length (ui_nodes n) \<le> MAX_UI_NODES
      \<and> distinct (map ui_id (ui_nodes n)) \<and> ui_id ` set (ui_nodes n) \<inter> set ids = {}
      \<and> (\<forall>m \<in> set (ui_nodes n). ui_node_ok m))" unfolding "3.IH"(1) by simp
    moreover have "validate_nodes (n # ns) ids depth count \<noteq> Ok r" using Inl by simp
    ultimately show ?thesis by auto
  next
    case (Inr q)
    have n: "depth + ui_height n \<le> Suc MAX_UI_DEPTH" "count + length (ui_nodes n) \<le> MAX_UI_NODES"
      "distinct (map ui_id (ui_nodes n))" "ui_id ` set (ui_nodes n) \<inter> set ids = {}"
      "\<forall>m \<in> set (ui_nodes n). ui_node_ok m"
      and q: "q = (ids @ map ui_id (ui_nodes n), count + length (ui_nodes n))"
      using Inr unfolding "3.IH"(1) by simp_all
    have "validate_nodes (n # ns) ids depth count = validate_nodes ns (ids @ map ui_id (ui_nodes n)) depth (count + length (ui_nodes n))"
      by (simp add: Inr q)
    also have "\<dots> = Ok r \<longleftrightarrow>
      (\<forall>n \<in> set ns. depth + ui_height n \<le> Suc MAX_UI_DEPTH)
      \<and> (ns \<noteq> [] \<longrightarrow> count + length (ui_nodes n) + length (forest ns) \<le> MAX_UI_NODES)
      \<and> distinct (map ui_id (forest ns)) \<and> ui_id ` set (forest ns) \<inter> set (ids @ map ui_id (ui_nodes n)) = {}
      \<and> (\<forall>m \<in> set (forest ns). ui_node_ok m)
      \<and> r = ((ids @ map ui_id (ui_nodes n)) @ map ui_id (forest ns), count + length (ui_nodes n) + length (forest ns))"
      by (rule "3.IH"(2) [OF Inr q [symmetric]])
    finally have E: "validate_nodes (n # ns) ids depth count = Ok r \<longleftrightarrow>
      (\<forall>n \<in> set ns. depth + ui_height n \<le> Suc MAX_UI_DEPTH)
      \<and> (ns \<noteq> [] \<longrightarrow> count + length (ui_nodes n) + length (forest ns) \<le> MAX_UI_NODES)
      \<and> distinct (map ui_id (forest ns)) \<and> ui_id ` set (forest ns) \<inter> set (ids @ map ui_id (ui_nodes n)) = {}
      \<and> (\<forall>m \<in> set (forest ns). ui_node_ok m)
      \<and> r = ((ids @ map ui_id (ui_nodes n)) @ map ui_id (forest ns), count + length (ui_nodes n) + length (forest ns))" .
    have H: "(\<forall>m \<in> set (n # ns). depth + ui_height m \<le> Suc MAX_UI_DEPTH) \<longleftrightarrow> (\<forall>n \<in> set ns. depth + ui_height n \<le> Suc MAX_UI_DEPTH)"
      using n(1) by simp
    have L: "(n # ns \<noteq> [] \<longrightarrow> count + length (forest (n # ns)) \<le> MAX_UI_NODES) \<longleftrightarrow>
      (ns \<noteq> [] \<longrightarrow> count + length (ui_nodes n) + length (forest ns) \<le> MAX_UI_NODES)"
      using n(2) by (cases ns) (simp_all add: add.assoc)
    have D: "distinct (map ui_id (forest (n # ns))) \<and> ui_id ` set (forest (n # ns)) \<inter> set ids = {} \<longleftrightarrow>
      distinct (map ui_id (forest ns)) \<and> ui_id ` set (forest ns) \<inter> set (ids @ map ui_id (ui_nodes n)) = {}"
      using n(3,4) by (simp add: Int_Un_distrib Int_Un_distrib2 image_Un) (auto simp: Int_commute)
    have A: "(\<forall>m \<in> set (forest (n # ns)). ui_node_ok m) \<longleftrightarrow> (\<forall>m \<in> set (forest ns). ui_node_ok m)"
      using n(5) by auto
    have R: "(ids @ map ui_id (forest (n # ns)), count + length (forest (n # ns)))
      = ((ids @ map ui_id (ui_nodes n)) @ map ui_id (forest ns), count + length (ui_nodes n) + length (forest ns))"
      by (simp add: add.assoc)
    have D': "distinct (map ui_id (forest (n # ns))) \<and> ui_id ` set (forest (n # ns)) \<inter> set ids = {} \<and> Q \<longleftrightarrow>
      distinct (map ui_id (forest ns)) \<and> ui_id ` set (forest ns) \<inter> set (ids @ map ui_id (ui_nodes n)) = {} \<and> Q" for Q
      by (simp only: conj_assoc [symmetric] D)
    show ?thesis by (simp only: E H L A R D')
  qed
qed

lemma us_validate_Ok: "us_validate s = Ok () \<longleftrightarrow> us_version s = 1 \<and> ui_tree_ok (us_root s)"
proof -
  have "map_sum id (\<lambda>_. ()) x = Ok () \<longleftrightarrow> (\<exists>r. x = Ok r)" for x :: "string + (string list \<times> nat)"
    by (cases x) simp_all
  then show ?thesis
    by (auto simp: us_validate_def UI_SCHEMA_VERSION_def ui_tree_ok_def validate_node_iff)
qed

section \<open>Events and sessions\<close>

definition ui_event_kinds :: "string list" where
  "ui_event_kinds = [''click'', ''change'', ''submit'', ''select'', ''focus'', ''blur'', ''refresh'', ''copy'',
     ''paste'', ''close'']"

record ui_event =
  ue_session :: string
  ue_event_id :: string
  ue_node :: string
  ue_event :: string
  ue_value :: json

definition ue_validate :: "ui_event \<Rightarrow> string + string" where
  "ue_validate e =
     (if ue_session e = [] \<or> ue_event_id e = [] \<or> char_count (ue_event_id e) > MAX_ID_CHARS \<or> ue_node e = []
      then Err ''invalid ui event identity''
      else if ue_event e \<in> set ui_event_kinds then Ok (ue_event e)
      else Err (''unknown event '' @ ue_event e))"

datatype tool_state = TsCreated | TsStarting | TsReady | TsActive | TsIdle | TsClosing | TsClosed
  | TsFailed | TsCrashed | TsTimeout

definition can_transition_to :: "tool_state \<Rightarrow> tool_state \<Rightarrow> bool" where
  "can_transition_to from to =
     (if to = TsClosed then from \<noteq> TsClosed
      else (from, to) \<in> {(TsCreated, TsStarting), (TsStarting, TsReady), (TsStarting, TsFailed),
        (TsStarting, TsCrashed), (TsStarting, TsTimeout), (TsReady, TsActive), (TsReady, TsClosed),
        (TsActive, TsIdle), (TsActive, TsFailed), (TsActive, TsCrashed), (TsActive, TsTimeout),
        (TsActive, TsClosing), (TsIdle, TsActive), (TsIdle, TsClosing), (TsIdle, TsClosed),
        (TsClosing, TsClosed)})"

inductive tool_path :: "tool_state \<Rightarrow> tool_state \<Rightarrow> bool" where
  here: "tool_path s s"
| move: "tool_path s t \<Longrightarrow> can_transition_to t u \<Longrightarrow> tool_path s u"

text \<open>A session that ends in an error, or is closing, can only be closed; a closed one stays so.\<close>

lemma tool_path_ends:
  "tool_path s t \<Longrightarrow> s \<in> {TsFailed, TsCrashed, TsTimeout, TsClosing} \<Longrightarrow> t = s \<or> t = TsClosed"
  by (induction rule: tool_path.induct) (auto simp: can_transition_to_def split: if_splits)

lemma tool_path_closed: "tool_path s t \<Longrightarrow> s = TsClosed \<Longrightarrow> t = TsClosed"
  by (induction rule: tool_path.induct) (auto simp: can_transition_to_def split: if_splits)

lemma tool_path_close: "s \<noteq> TsClosed \<Longrightarrow> tool_path s TsClosed"
  by (rule tool_path.move [OF tool_path.here]) (simp add: can_transition_to_def)

record ui_generation =
  ug_value :: "64 word"
  ug_closed :: bool

definition ug_new :: ui_generation where
  "ug_new = \<lparr>ug_value = 0, ug_closed = False\<rparr>"

definition ug_accept :: "64 word \<Rightarrow> ui_generation \<Rightarrow> (string + 64 word) \<times> ui_generation" where
  "ug_accept base g =
     (if ug_closed g then (Err ''session closed'', g)
      else if base \<noteq> ug_value g
      then (Err (''stale update: base '' @ nat_str (unat base) @ '' != current '' @ nat_str (unat (ug_value g))), g)
      else (Ok (ug_value g + 1), g\<lparr>ug_value := ug_value g + 1\<rparr>))"

definition ug_close :: "ui_generation \<Rightarrow> ui_generation" where
  "ug_close g = g\<lparr>ug_closed := True\<rparr>"

datatype ug_op = UgAccept "64 word" | UgClose

fun ug_call :: "ug_op \<Rightarrow> ui_generation \<Rightarrow> ui_generation" where
  "ug_call (UgAccept base) g = snd (ug_accept base g)"
| "ug_call UgClose g = ug_close g"

interpretation generation: frozen_states ug_call ug_closed
proof
  fix s :: ui_generation and opn
  assume "ug_closed s"
  then show "ug_call opn s = s" by (cases opn) (simp_all add: ug_accept_def ug_close_def)
qed

text \<open>Of two updates made against the same generation, one is refused.\<close>

lemma ug_accept_once:
  assumes "ug_accept base g = (Ok v, g')"
  shows "v = base + 1" "ug_value g' = base + 1" "\<not> is_ok (fst (ug_accept base g'))"
proof -
  from assms have b: "base = ug_value g" "g' = g\<lparr>ug_value := ug_value g + 1\<rparr>" "v = ug_value g + 1"
    by (auto simp: ug_accept_def split: if_splits)
  then show "v = base + 1" "ug_value g' = base + 1" by simp_all
  have "base \<noteq> base + 1" by simp
  then show "\<not> is_ok (fst (ug_accept base g'))" using b by (simp add: ug_accept_def)
qed

section \<open>Plugin manifests\<close>

datatype plugin_lifetime = LtEphemeral | LtResident

record runtime_spec =
  rt_kind :: string
  rt_executable :: "string option"
  rt_args :: "string list"
  rt_lifetime :: plugin_lifetime

record plugin_manifest =
  pm_id :: string
  pm_name :: string
  pm_version :: "string option"
  pm_api_version :: string
  pm_schema_version :: "64 word option"
  pm_executable :: string
  pm_runtime :: "runtime_spec option"
  pm_capabilities :: "capability list"
  pm_window_ui :: bool
  pm_tools :: "tool_definition list"
  pm_timeout_ms :: "64 word"
  pm_idle_timeout_ms :: "64 word"

definition effective_executable :: "plugin_manifest \<Rightarrow> string" where
  "effective_executable m = (case pm_runtime m of
     Some rt \<Rightarrow> (case rt_executable rt of Some e \<Rightarrow> e | None \<Rightarrow> pm_executable m)
   | None \<Rightarrow> pm_executable m)"

definition spawn_args :: "plugin_manifest \<Rightarrow> string list" where
  "spawn_args m = (case pm_runtime m of Some rt \<Rightarrow> rt_args rt | None \<Rightarrow> [])"

definition pm_lifetime :: "plugin_manifest \<Rightarrow> plugin_lifetime" where
  "pm_lifetime m = (case pm_runtime m of Some rt \<Rightarrow> rt_lifetime rt | None \<Rightarrow> LtResident)"

definition pm_is_python :: "plugin_manifest \<Rightarrow> bool" where
  "pm_is_python m = (case pm_runtime m of Some rt \<Rightarrow> rt_kind rt = ''python'' | None \<Rightarrow> False)"

definition pm_requests :: "plugin_manifest \<Rightarrow> capability \<Rightarrow> bool" where
  "pm_requests m c \<longleftrightarrow> c \<in> set (pm_capabilities m)"

fun check_tools :: "tool_definition list \<Rightarrow> string + unit" where
  "check_tools [] = Ok ()"
| "check_tools (t # ts) = (case td_validate t of
     Inl e \<Rightarrow> Err (''tool '' @ td_id t @ '': '' @ e) | Inr _ \<Rightarrow> check_tools ts)"

definition pm_validate :: "plugin_manifest \<Rightarrow> string + unit" where
  "pm_validate m =
     (if str_blank (pm_id m) then Err ''id is required''
      else if str_blank (pm_name m) then Err ''name is required''
      else if pm_api_version m \<noteq> ''0.1'' then Err (''unsupported api_version: '' @ pm_api_version m)
      else if pm_schema_version m \<notin> {None, Some 1}
      then Err (''unsupported schema_version: '' @ nat_str (unat (the (pm_schema_version m))))
      else case check_tools (pm_tools m) of
        Inl e \<Rightarrow> Err e
      | Inr _ \<Rightarrow>
         if (case pm_runtime m of Some rt \<Rightarrow> rt_kind rt \<noteq> ''process'' \<and> rt_kind rt \<noteq> ''python'' | None \<Rightarrow> False)
         then Err (''unsupported runtime.type: '' @ rt_kind (the (pm_runtime m)) @ '' (only \"process\" and \"python\")'')
         else if str_blank (effective_executable m) then Err ''executable is required''
         else if pm_timeout_ms m = 0 \<or> pm_timeout_ms m > 60000 then Err ''timeout_ms out of range (1..=60000)''
         else Ok ())"

definition pm_parse :: "(string \<Rightarrow> string + plugin_manifest) \<Rightarrow> string \<Rightarrow> string + plugin_manifest" where
  "pm_parse read raw = (case read raw of
     Inl e \<Rightarrow> Err e
   | Inr m \<Rightarrow> (case pm_validate m of Inl e \<Rightarrow> Err e | Inr _ \<Rightarrow> Ok m))"

definition tool_ok :: "tool_definition \<Rightarrow> bool" where
  "tool_ok t \<longleftrightarrow> td_id t \<noteq> [] \<and> char_count (td_id t) \<le> 128 \<and> (\<forall>c \<in> set (td_id t). tool_id_char c)
     \<and> td_name t \<noteq> [] \<and> char_count (td_name t) \<le> 256 \<and> (\<forall>d. td_description t = Some d \<longrightarrow> char_count d \<le> 4096)
     \<and> td_version t = 1 \<and> td_entry t = ''interactive''"

definition manifest_ok :: "plugin_manifest \<Rightarrow> bool" where
  "manifest_ok m \<longleftrightarrow> \<not> str_blank (pm_id m) \<and> \<not> str_blank (pm_name m) \<and> pm_api_version m = ''0.1''
     \<and> (\<forall>v. pm_schema_version m = Some v \<longrightarrow> v = 1) \<and> (\<forall>t \<in> set (pm_tools m). tool_ok t)
     \<and> (\<forall>rt. pm_runtime m = Some rt \<longrightarrow> rt_kind rt \<in> {''process'', ''python''})
     \<and> \<not> str_blank (effective_executable m) \<and> 1 \<le> pm_timeout_ms m \<and> pm_timeout_ms m \<le> 60000"

lemma td_validate_Ok: "td_validate t = Ok () \<longleftrightarrow> tool_ok t"
  by (auto simp: td_validate_def tool_id_parse_def tool_ok_def MAX_ID_CHARS_def list_all_iff not_less split: option.splits)

lemma check_tools_Ok: "check_tools ts = Ok () \<longleftrightarrow> (\<forall>t \<in> set ts. tool_ok t)"
  by (induction ts) (auto simp: td_validate_Ok [symmetric] split: sum.splits)

lemma word_ge_one: "1 \<le> w \<longleftrightarrow> w \<noteq> 0" for w :: "64 word"
  by (simp add: word_le_nat_alt Suc_le_eq flip: unat_gt_0)

lemma pm_validate_Ok: "pm_validate m = Ok () \<longleftrightarrow> manifest_ok m"
  by (auto simp: pm_validate_def manifest_ok_def check_tools_Ok [symmetric] not_less word_ge_one
      split: sum.splits option.splits)

end
