(* ===== verification/SystemFx.thy ===== *)
theory SystemFx
  imports Domain
begin

text \<open>
  The gates in front of an effect: system commands, their policy resolver
  (\<open>launcher-domain/src/system.rs\<close>) and the engine's authorization of them, and the validation and
  dispatch of actions (\<open>launcher-action/src/lib.rs\<close>). The Win32 calls are the argument \<open>os\<close>; an
  execution returns the requests it made to it.
\<close>

section \<open>System commands\<close>

datatype system_capability = SysProcess | SysWindow | SysFile | SysClipboard | SysShell | SysUri
  | SysNotification | SysPower | SysSettings

datatype system_risk = RiskInfo | RiskReadOnly | RiskReversible | RiskDestructive | RiskPrivileged

fun system_risk_rank :: "system_risk \<Rightarrow> nat" where
  "system_risk_rank RiskInfo = 0"
| "system_risk_rank RiskReadOnly = 1"
| "system_risk_rank RiskReversible = 2"
| "system_risk_rank RiskDestructive = 3"
| "system_risk_rank RiskPrivileged = 4"

lemma system_risk_rank_inject [simp]: "system_risk_rank a = system_risk_rank b \<longleftrightarrow> a = b"
  by (cases a; cases b) simp_all

instantiation system_risk :: linorder
begin

definition less_eq_system_risk :: "system_risk \<Rightarrow> system_risk \<Rightarrow> bool" where
  "less_eq_system_risk a b \<longleftrightarrow> system_risk_rank a \<le> system_risk_rank b"

definition less_system_risk :: "system_risk \<Rightarrow> system_risk \<Rightarrow> bool" where
  "less_system_risk a b \<longleftrightarrow> system_risk_rank a < system_risk_rank b"

instance
  by standard (auto simp: less_eq_system_risk_def less_system_risk_def simp flip: system_risk_rank_inject)

end

definition sys_requires_confirmation :: "system_risk \<Rightarrow> bool" where
  "sys_requires_confirmation r \<longleftrightarrow> r = RiskDestructive \<or> r = RiskPrivileged"

datatype system_target =
    TargetProcess "32 word" string "int option"
  | TargetWindow "64 word" string "32 word option"
  | TargetFile string
  | TargetUri string
  | TargetSetting string

record system_command =
  sc_capability :: system_capability
  sc_operation :: string
  sc_target :: system_target
  sc_risk :: system_risk
  sc_origin :: string

definition op_char :: "char \<Rightarrow> bool" where
  "op_char c \<longleftrightarrow> (97 \<le> byte c \<and> byte c \<le> 122) \<or> c = CHR ''_'' \<or> (48 \<le> byte c \<and> byte c \<le> 57)"

definition sc_validate :: "system_command \<Rightarrow> string + unit" where
  "sc_validate c =
     (if sc_operation c = [] \<or> length (sc_operation c) > 64 then Err ''invalid operation''
      else if \<not> list_all op_char (sc_operation c) then Err (''invalid operation `'' @ sc_operation c @ ''`'')
      else if sc_origin c = [] \<or> length (sc_origin c) > 64 then Err ''invalid origin''
      else case sc_target c of
        TargetFile path \<Rightarrow> (if str_blank path then Err ''empty file target'' else Ok ())
      | _ \<Rightarrow> Ok ())"

record resolution =
  re_approved :: bool
  re_risk :: system_risk
  re_reason :: string
  re_origin :: string

record system_policy =
  sp_denied :: "string list"
  sp_allowed_origins :: "string list"
  sp_ceiling :: "(string \<times> system_risk) list"

record system_resolver =
  sv_denied :: "string list"
  sv_policy :: system_policy

definition origin_allowed :: "system_policy \<Rightarrow> string \<Rightarrow> bool" where
  "origin_allowed p origin \<longleftrightarrow> sp_allowed_origins p = [] \<or> origin \<in> set (sp_allowed_origins p)"

definition ceiling_for :: "system_policy \<Rightarrow> string \<Rightarrow> system_risk option" where
  "ceiling_for p origin = map_of (sp_ceiling p) origin"

fun risk_name :: "system_risk \<Rightarrow> string" where
  "risk_name RiskInfo = ''Info''"
| "risk_name RiskReadOnly = ''ReadOnly''"
| "risk_name RiskReversible = ''Reversible''"
| "risk_name RiskDestructive = ''Destructive''"
| "risk_name RiskPrivileged = ''Privileged''"

definition resolution_of :: "system_command \<Rightarrow> bool \<Rightarrow> string \<Rightarrow> resolution" where
  "resolution_of c approved reason =
     \<lparr>re_approved = approved, re_risk = sc_risk c, re_reason = reason, re_origin = sc_origin c\<rparr>"

definition sys_resolve :: "system_resolver \<Rightarrow> system_command \<Rightarrow> string + resolution" where
  "sys_resolve v c = (case sc_validate c of
     Inl e \<Rightarrow> Err e
   | Inr _ \<Rightarrow>
      if sc_operation c \<in> set (sv_denied v)
      then Ok (resolution_of c False (''operation `'' @ sc_operation c @ ''` denied by policy''))
      else if \<not> origin_allowed (sv_policy v) (sc_origin c)
      then Ok (resolution_of c False (''origin `'' @ sc_origin c @ ''` not allowed to resolve commands''))
      else if (case ceiling_for (sv_policy v) (sc_origin c) of Some l \<Rightarrow> l < sc_risk c | None \<Rightarrow> False)
      then Ok (resolution_of c False (''risk '' @ risk_name (sc_risk c) @ '' exceeds origin ceiling ''
             @ risk_name (the (ceiling_for (sv_policy v) (sc_origin c)))))
      else Ok (resolution_of c True
             (if sys_requires_confirmation (sc_risk c) then ''requires confirmation before effect'' else ''allowed'')))"

lemma sys_resolve_approved:
  "(\<exists>r. sys_resolve v c = Ok r \<and> re_approved r) \<longleftrightarrow>
    sc_validate c = Ok () \<and> sc_operation c \<notin> set (sv_denied v) \<and> origin_allowed (sv_policy v) (sc_origin c)
    \<and> (\<forall>l. ceiling_for (sv_policy v) (sc_origin c) = Some l \<longrightarrow> sc_risk c \<le> l)"
  by (auto simp: sys_resolve_def resolution_of_def not_less split: sum.splits option.splits)

section \<open>The engine\<close>

datatype action_error = MissingTarget | InvalidPath string | ActIo string | Unsupported | Disabled string
  | ConfirmationRequired | StaleTarget | ClipboardError string

datatype effect = Launched string | Copied string | Revealed string | Pasted
  | PluginInvoked "string option" json | SystemApplied string | Skipped

record system_authorization =
  sa_cmd :: system_command
  sa_confirmed :: bool
  sa_policy_approved :: bool
  sa_minted :: int

definition authorize_system_command :: "int \<Rightarrow> system_command \<Rightarrow> bool \<Rightarrow> action_error + system_authorization" where
  "authorize_system_command now c confirmed =
     (if \<not> is_ok (sc_validate c) then Err Unsupported
      else if sys_requires_confirmation (sc_risk c) \<and> \<not> confirmed then Err ConfirmationRequired
      else Ok \<lparr>sa_cmd = c, sa_confirmed = confirmed, sa_policy_approved = True, sa_minted = now\<rparr>)"

text \<open>\<open>execute_system_effect\<close> with the adapter as an argument; the second component lists the
  commands the adapter was given.\<close>

definition execute_system_effect :: "(system_authorization \<Rightarrow> action_error + effect) \<Rightarrow> int \<Rightarrow> system_resolver \<Rightarrow>
    system_command \<Rightarrow> bool \<Rightarrow> (action_error + effect) \<times> system_command list" where
  "execute_system_effect adapter now v c confirmed = (case sys_resolve v c of
     Inl _ \<Rightarrow> (Err Unsupported, [])
   | Inr r \<Rightarrow>
      if \<not> re_approved r then (Err Unsupported, [])
      else (case authorize_system_command now c confirmed of
         Inl e \<Rightarrow> (Err e, [])
       | Inr auth \<Rightarrow> (adapter auth, [sa_cmd auth])))"

lemma execute_system_effect_gated:
  assumes "snd (execute_system_effect adapter now v c confirmed) \<noteq> []"
  shows "snd (execute_system_effect adapter now v c confirmed) = [c]"
    "sc_validate c = Ok ()" "sc_operation c \<notin> set (sv_denied v)" "origin_allowed (sv_policy v) (sc_origin c)"
    "\<And>l. ceiling_for (sv_policy v) (sc_origin c) = Some l \<Longrightarrow> sc_risk c \<le> l"
    "sys_requires_confirmation (sc_risk c) \<Longrightarrow> confirmed"
proof -
  from assms obtain r where r: "sys_resolve v c = Ok r" "re_approved r"
    by (auto simp: execute_system_effect_def split: sum.splits if_splits)
  then have "\<exists>r. sys_resolve v c = Ok r \<and> re_approved r" by blast
  note ok = this [unfolded sys_resolve_approved]
  from ok show "sc_validate c = Ok ()" "sc_operation c \<notin> set (sv_denied v)" "origin_allowed (sv_policy v) (sc_origin c)"
    "\<And>l. ceiling_for (sv_policy v) (sc_origin c) = Some l \<Longrightarrow> sc_risk c \<le> l" by blast+
  show "snd (execute_system_effect adapter now v c confirmed) = [c]"
    "sys_requires_confirmation (sc_risk c) \<Longrightarrow> confirmed"
    using assms by (auto simp: execute_system_effect_def authorize_system_command_def split: sum.splits if_splits)
qed

text \<open>The list of denied operations in the policy is not the list the resolver reads: an operation the
  policy denies is executed.\<close>

definition denying_resolver :: system_resolver where
  "denying_resolver = \<lparr>sv_denied = [],
     sv_policy = \<lparr>sp_denied = [''format_disk''], sp_allowed_origins = [], sp_ceiling = []\<rparr>\<rparr>"

definition format_disk :: system_command where
  "format_disk = \<lparr>sc_capability = SysFile, sc_operation = ''format_disk'', sc_target = TargetFile ''C'',
     sc_risk = RiskReversible, sc_origin = ''ai''\<rparr>"

lemma policy_denial_is_ignored:
  "sc_operation format_disk \<in> set (sp_denied (sv_policy denying_resolver))
    \<and> execute_system_effect (\<lambda>a. Ok (SystemApplied [])) 0 denying_resolver format_disk False
      = (Ok (SystemApplied []), [format_disk])"
  by code_simp

section \<open>Actions\<close>

definition act_normalize_path :: "string \<Rightarrow> action_error + string" where
  "act_normalize_path raw =
     (if str_blank raw then Err (InvalidPath raw)
      else if CHR 0x00 \<in> set raw then Err (InvalidPath raw)
      else Ok raw)"

definition act_validate :: "action \<Rightarrow> action_error + unit" where
  "act_validate a = (case ac_disabled a of
     Some reason \<Rightarrow> Err (Disabled reason)
   | None \<Rightarrow>
      if ac_confirm a then Err ConfirmationRequired
      else (case ac_kind a of
        ActPaste \<Rightarrow> Ok ()
      | ActCopy \<Rightarrow> (case ac_payload a of
            Some (PlText _) \<Rightarrow> Ok () | Some (PlPath _) \<Rightarrow> Ok () | _ \<Rightarrow> Err MissingTarget)
      | ActPluginInvoke \<Rightarrow> (case ac_payload a of
            Some (PlJson v) \<Rightarrow> (if json_is_object v then Ok () else Err MissingTarget)
          | _ \<Rightarrow> Err MissingTarget)
      | _ \<Rightarrow> (case ac_payload a of
            Some (PlPath p) \<Rightarrow> map_sum id (\<lambda>_. ()) (act_normalize_path p)
          | Some (PlCommandLine p) \<Rightarrow> map_sum id (\<lambda>_. ()) (act_normalize_path p)
          | _ \<Rightarrow> Err MissingTarget)))"

datatype os_request = SendPaste "action_payload option" | SetClipboard string | RunAs string
  | ShellOpen string | RevealParent string | TerminalIn string

text \<open>One call of the operating system, then the effect when it worked.\<close>

definition request :: "(os_request \<Rightarrow> action_error option) \<Rightarrow> os_request \<Rightarrow> effect \<Rightarrow>
    (action_error + effect) \<times> os_request list" where
  "request os r eff = ((case os r of Some e \<Rightarrow> Err e | None \<Rightarrow> Ok eff), [r])"

definition on_path :: "(os_request \<Rightarrow> action_error option) \<Rightarrow> string \<Rightarrow> (string \<Rightarrow> os_request) \<Rightarrow> effect \<Rightarrow>
    (action_error + effect) \<times> os_request list" where
  "on_path os target r eff = (case act_normalize_path target of
     Inl e \<Rightarrow> (Err e, []) | Inr p \<Rightarrow> request os (r p) eff)"

definition act_execute :: "(os_request \<Rightarrow> action_error option) \<Rightarrow> action \<Rightarrow>
    (action_error + effect) \<times> os_request list" where
  "act_execute os a = (case act_validate a of
     Inl e \<Rightarrow> (Err e, [])
   | Inr _ \<Rightarrow>
      if ac_kind a = ActPaste then request os (SendPaste (ac_payload a)) Pasted
      else if ac_kind a = ActPluginInvoke then
        (Ok (PluginInvoked (ac_id a) (case ac_payload a of Some (PlJson v) \<Rightarrow> v | _ \<Rightarrow> JNull)), [])
      else (case (case ac_payload a of
                Some (PlPath p) \<Rightarrow> Some p | Some (PlCommandLine p) \<Rightarrow> Some p
              | Some (PlText t) \<Rightarrow> Some t | _ \<Rightarrow> None) of
          None \<Rightarrow> (Err MissingTarget, [])
        | Some target \<Rightarrow> (case ac_kind a of
            ActCopy \<Rightarrow> request os (SetClipboard target) (Copied target)
          | ActRunAsAdmin \<Rightarrow> on_path os target RunAs (Launched target)
          | ActReveal \<Rightarrow> on_path os target RevealParent (Revealed target)
          | ActOpenTerminalHere \<Rightarrow> on_path os target TerminalIn (Launched target)
          | _ \<Rightarrow> on_path os target ShellOpen (Launched target))))"

text \<open>The build without Win32: no effect, the same gate.\<close>

definition act_execute_dry :: "action \<Rightarrow> action_error + effect" where
  "act_execute_dry a = (case act_validate a of
     Inl e \<Rightarrow> Err e
   | Inr _ \<Rightarrow> (case ac_kind a of
       ActPaste \<Rightarrow> Ok Pasted
     | ActCopy \<Rightarrow> (case ac_payload a of
           Some (PlText t) \<Rightarrow> Ok (Copied t) | Some (PlPath p) \<Rightarrow> Ok (Copied p) | _ \<Rightarrow> Err MissingTarget)
     | _ \<Rightarrow> Ok Skipped))"

lemma act_validate_Ok:
  "act_validate a = Ok () \<Longrightarrow> ac_disabled a = None \<and> \<not> ac_confirm a"
  by (auto simp: act_validate_def split: option.splits if_splits)

lemma act_execute_gated:
  "act_execute os a = (r, reqs) \<Longrightarrow> reqs \<noteq> [] \<or> is_ok r \<Longrightarrow> act_validate a = Ok ()"
  by (cases "act_validate a") (auto simp: act_execute_def)

lemma act_execute_one: "act_execute os a = (r, reqs) \<Longrightarrow> length reqs \<le> 1"
  by (auto simp: act_execute_def request_def on_path_def
      split: sum.splits if_splits option.splits action_kind.splits)

text \<open>A valid action reaches exactly one request, or the plugin broker.\<close>

lemma act_execute_valid:
  assumes "act_validate a = Ok ()"
  shows "(ac_kind a = ActPluginInvoke \<and> (\<exists>m. ac_payload a = Some (PlJson (JObject m))
            \<and> act_execute os a = (Ok (PluginInvoked (ac_id a) (JObject m)), [])))
    \<or> (ac_kind a \<noteq> ActPluginInvoke \<and> (\<exists>q eff. act_execute os a = ((case os q of Some e \<Rightarrow> Err e | None \<Rightarrow> Ok eff), [q])))"
proof -
  have obj: "json_is_object v \<Longrightarrow> \<exists>m. v = JObject m" for v
    by (cases v) (simp_all add: json_is_object_def)
  have np: "act_normalize_path p = Ok u \<Longrightarrow> u = p" for p u
    by (simp add: act_normalize_path_def split: if_splits)
  note dc = act_validate_Ok [OF assms]
  show ?thesis
  proof (cases "ac_kind a")
    case ActPluginInvoke
    then obtain m where "ac_payload a = Some (PlJson (JObject m))"
      using assms dc obj by (auto simp: act_validate_def split: option.splits action_payload.splits if_splits)
    with ActPluginInvoke assms show ?thesis by (simp add: act_execute_def)
  qed (use assms dc in \<open>auto simp: act_validate_def act_execute_def request_def on_path_def
      split: option.splits action_payload.splits sum.splits\<close>)
qed

end
