(* ===== verification/CoreSearch.thy ===== *)
theory CoreSearch
  imports SearchCache SearchContext Favorites WfPolicy
begin

text \<open>
  The search of the launcher (\<open>Core\<close> of \<open>launcher-core/src/lib.rs\<close>): the fan-out over the registered
  providers, the usage history of \<open>launcher-indexer/src/lib.rs\<close>, the boost by usage, favorites and context,
  and the cache with the generations that invalidate it. Providers are the values of a type with the
  record \<open>provider_api\<close>; clocks are arguments, in milliseconds; whether SQLite executes a statement is an
  argument too.
\<close>

section \<open>Usage history\<close>

record history_row =
  hr_command :: string
  hr_provider :: string
  hr_title :: string
  hr_used :: int

record history =
  hs_rows :: "history_row list"
  hs_generation :: "64 word"









section \<open>The core\<close>


record 'p core =
  cr_providers :: "'p list"
  cr_history :: "history option"
  cr_favorites :: "favorite_tables option"
  cr_snapshot :: favorite_snapshot
  cr_user_generation :: "64 word"
  cr_cache :: search_cache
  cr_context :: "context_snapshot option"
  cr_context_generation :: "64 word"
  cr_application_generation :: "64 word"
  cr_ranking_generation :: "64 word"
  cr_last_context :: "(string option \<times> string option) option"
  cr_executions :: "64 word"




definition set_history :: "history \<Rightarrow> 'p core \<Rightarrow> 'p core" where
  "set_history h c = c\<lparr>cr_history := Some h\<rparr>"



definition refresh_favorites :: "bool \<Rightarrow> 'p core \<Rightarrow> 'p core" where
  "refresh_favorites ok c = (case cr_favorites c of
     Some t \<Rightarrow> (case fv_snapshot ok t of Some s \<Rightarrow> c\<lparr>cr_snapshot := s\<rparr> | None \<Rightarrow> c)
   | None \<Rightarrow> c)"







section \<open>The search\<close>









section \<open>Coherence of the cache\<close>













lemma refresh_frame [simp]:
  "cr_cache (refresh_favorites ok c) = cr_cache c" "cr_last_context (refresh_favorites ok c) = cr_last_context c"
  "cr_context (refresh_favorites ok c) = cr_context c" "cr_user_generation (refresh_favorites ok c) = cr_user_generation c"
  "cr_context_generation (refresh_favorites ok c) = cr_context_generation c"
  "cr_history (refresh_favorites ok c) = cr_history c" "cr_providers (refresh_favorites ok c) = cr_providers c"
  by (simp_all add: refresh_favorites_def split: option.split)





















end
