(* ===== verification/PluginPackages.thy ===== *)
theory PluginPackages
  imports Prelude
begin

text \<open>
  The package side of the plugin tool (\<open>apps/launcher-plugin-cli/src\<close>): the dependency resolver
  of \<open>resolver.rs\<close> and the transactional plan executor of \<open>transactional.rs\<close>.

  The resolver keeps a plan, the set of placed ids and the stack of ids being visited. The stack
  is pushed before the dependencies of a package and popped after them, and every error returns
  at once, so the model hands the longer stack down and leaves it out of the result.
\<close>

section \<open>resolver.rs: from an index and a request to an install plan\<close>

record package_meta =
  pm_id :: string
  pm_version :: string
  pm_depends :: "string list"

datatype resolve_error =
    MissingDependency string string \<comment> \<open>package, missing\<close>
  | DependencyCycle "string list"   \<comment> \<open>chain\<close>

type_synonym package_index = "package_meta list"

text \<open>\<open>index.iter().map(..).collect()\<close> into a \<open>HashMap\<close>: a later entry replaces an earlier one.\<close>

definition by_id :: "package_index \<Rightarrow> string \<Rightarrow> package_meta option" where
  "by_id index = map_of (rev (map (\<lambda>p. (pm_id p, p)) index))"

text \<open>The plan and the ids placed in it.\<close>

type_synonym placement = "package_meta list \<times> string set"

lemma by_id_Some: "by_id index i = Some p \<Longrightarrow> p \<in> set index \<and> pm_id p = i"
  by (auto simp: by_id_def dest: map_of_SomeD)

lemma by_id_None: "by_id index i = None \<longleftrightarrow> i \<notin> pm_id ` set index"
  by (force simp: by_id_def map_of_eq_None_iff)

lemma unvisited_decreases [simp]: "by_id index i = Some p \<Longrightarrow> i \<notin> set vis
    \<Longrightarrow> card (pm_id ` set index - insert i (set vis)) < card (pm_id ` set index - set vis)"
  by (rule psubset_card_mono) (auto dest: by_id_Some)

function emit :: "package_index \<Rightarrow> string \<Rightarrow> string list \<Rightarrow> placement
    \<Rightarrow> (placement, resolve_error) result"
  and emit_all :: "package_index \<Rightarrow> string list \<Rightarrow> string list \<Rightarrow> placement
    \<Rightarrow> (placement, resolve_error) result" where
  "emit index i visiting st =
    (if i \<in> snd st then Ok st
     else if i \<in> set visiting then Err (DependencyCycle (visiting @ [i]))
     else case by_id index i of
       None \<Rightarrow> Err (MissingDependency (if visiting = [] then '''' else last visiting) i)
     | Some meta \<Rightarrow>
         (case emit_all index (pm_depends meta) (visiting @ [i]) st of
            Err e \<Rightarrow> Err e
          | Ok (plan, placed) \<Rightarrow> Ok (plan @ [meta], insert i placed)))"
| "emit_all index [] visiting st = Ok st"
| "emit_all index (d # ds) visiting st =
    (case emit index d visiting st of
       Err e \<Rightarrow> Err e
     | Ok st' \<Rightarrow> emit_all index ds visiting st')"
  by pat_completeness auto
termination
  by (relation "inv_image (less_than <*lex*> less_than)
      (\<lambda>x. case x of
         Inl (index, i, visiting, st) \<Rightarrow> (card (pm_id ` set index - set visiting), 0)
       | Inr (index, ds, visiting, st) \<Rightarrow> (card (pm_id ` set index - set visiting), Suc (length ds)))")
    auto

definition resolve :: "package_index \<Rightarrow> string list \<Rightarrow> (package_meta list, resolve_error) result" where
  "resolve index requested =
    (case List.find (\<lambda>r. by_id index r = None) requested of
       Some r \<Rightarrow> Err (MissingDependency ''<request>'' r)
     | None \<Rightarrow>
         (case emit_all index requested [] ([], {}) of
            Err e \<Rightarrow> Err e
          | Ok (plan, _) \<Rightarrow> Ok plan))"

lemmas emit_induct = emit_emit_all.induct [case_names emit Nil Cons]
declare emit.simps [simp del]

subsection \<open>What a request asks for\<close>

text \<open>The edge from a package of the index to an id it depends on.\<close>

definition needs :: "package_index \<Rightarrow> (string \<times> string) set" where
  "needs index = {(a, b). \<exists>p. by_id index a = Some p \<and> b \<in> set (pm_depends p)}"

definition wanted :: "package_index \<Rightarrow> string list \<Rightarrow> string set" where
  "wanted index requested = (needs index)\<^sup>* `` set requested"

lemma needsI: "by_id index a = Some p \<Longrightarrow> b \<in> set (pm_depends p) \<Longrightarrow> (a, b) \<in> needs index"
  by (auto simp: needs_def)

lemma wanted_request: "r \<in> set requested \<Longrightarrow> r \<in> wanted index requested"
  by (auto simp: wanted_def)

lemma wanted_step: "a \<in> wanted index requested \<Longrightarrow> (a, b) \<in> needs index \<Longrightarrow> b \<in> wanted index requested"
  by (auto simp: wanted_def intro: rtrancl_into_rtrancl)

text \<open>A plan in which every package comes after the packages it depends on.\<close>

fun deps_first :: "string set \<Rightarrow> package_meta list \<Rightarrow> bool" where
  "deps_first done [] = True"
| "deps_first done (p # ps) =
    (set (pm_depends p) \<subseteq> done \<and> pm_id p \<notin> done \<and> deps_first (insert (pm_id p) done) ps)"

lemma deps_first_append:
  "deps_first D (ps @ qs) \<longleftrightarrow> deps_first D ps \<and> deps_first (D \<union> pm_id ` set ps) qs"
  by (induction ps arbitrary: D) auto

lemma deps_first_distinct: "deps_first D ps \<Longrightarrow> distinct (map pm_id ps) \<and> D \<inter> pm_id ` set ps = {}"
  by (induction ps arbitrary: D) auto

lemma deps_first_dep:
  "deps_first D (ps @ p # qs) \<Longrightarrow> d \<in> set (pm_depends p) \<Longrightarrow> d \<in> D \<union> pm_id ` set ps"
  by (auto simp: deps_first_append)

text \<open>The stack of visited ids: a path of dependencies that ends at the id being emitted.\<close>

fun dep_path :: "package_index \<Rightarrow> string list \<Rightarrow> bool" where
  "dep_path index (a # b # r) = ((a, b) \<in> needs index \<and> dep_path index (b # r))"
| "dep_path index _ = True"

lemma dep_path_snoc:
  "dep_path index (ps @ [a]) \<Longrightarrow> (a, b) \<in> needs index \<Longrightarrow> dep_path index (ps @ [a, b])"
  by (induction index "ps @ [a]" arbitrary: ps rule: dep_path.induct)
    (auto simp: Cons_eq_append_conv neq_Nil_conv)

lemma dep_path_append: "dep_path index (ps @ a # qs) \<Longrightarrow> dep_path index (a # qs)"
  by (induction ps) (auto elim: dep_path.elims)

lemma dep_path_trancl: "dep_path index (a # ps @ [b]) \<Longrightarrow> (a, b) \<in> (needs index)\<^sup>+"
proof (induction ps arbitrary: a)
  case (Cons c ps)
  then have "(a, c) \<in> needs index" "(c, b) \<in> (needs index)\<^sup>+" by auto
  then show ?case by (rule trancl_into_trancl2)
qed auto

lemma dep_path_wanted: "dep_path index ps \<Longrightarrow> ps \<noteq> [] \<Longrightarrow> hd ps \<in> wanted index requested
    \<Longrightarrow> set ps \<subseteq> wanted index requested"
  by (induction index ps rule: dep_path.induct) (auto intro: wanted_step)

subsection \<open>What an emitted plan satisfies\<close>

definition placed_ok :: "package_index \<Rightarrow> string set \<Rightarrow> placement \<Rightarrow> bool" where
  "placed_ok index W st \<longleftrightarrow> deps_first {} (fst st) \<and> snd st = pm_id ` set (fst st)
     \<and> (\<forall>p \<in> set (fst st). by_id index (pm_id p) = Some p) \<and> snd st \<subseteq> W"

definition closed_in :: "package_index \<Rightarrow> string set \<Rightarrow> bool" where
  "closed_in index W \<longleftrightarrow> needs index `` W \<subseteq> W"

lemma closed_wanted: "closed_in index (wanted index requested)"
  by (auto simp: closed_in_def intro: wanted_step)

lemma placed_ok_snoc:
  assumes "placed_ok index W (plan, placed)" "by_id index i = Some meta" "i \<notin> placed" "i \<in> W"
    and "set (pm_depends meta) \<subseteq> placed"
  shows "placed_ok index W (plan @ [meta], insert i placed)"
  using assms by_id_Some [OF assms(2)] by (auto simp: placed_ok_def deps_first_append)

lemma emit_Ok:
  "emit index i vis st = Ok st' \<Longrightarrow> closed_in index W \<Longrightarrow> i \<in> W \<Longrightarrow> placed_ok index W st
    \<Longrightarrow> snd st \<inter> set vis = {}
    \<Longrightarrow> placed_ok index W st' \<and> insert i (snd st) \<subseteq> snd st' \<and> snd st' \<inter> set vis = {}"
  "emit_all index ds vis st = Ok st' \<Longrightarrow> closed_in index W \<Longrightarrow> set ds \<subseteq> W \<Longrightarrow> placed_ok index W st
    \<Longrightarrow> snd st \<inter> set vis = {}
    \<Longrightarrow> placed_ok index W st' \<and> set ds \<union> snd st \<subseteq> snd st' \<and> snd st' \<inter> set vis = {}"
proof (induction index i vis st and index ds vis st arbitrary: st' and st' rule: emit_induct)
  case (emit index i vis st)
  show ?case
  proof (cases "i \<in> snd st")
    case True
    with emit.prems show ?thesis by (simp add: emit.simps)
  next
    case False
    from emit.prems(1) False obtain meta plan placed where v: "i \<notin> set vis"
      and b: "by_id index i = Some meta"
      and e: "emit_all index (pm_depends meta) (vis @ [i]) st = Ok (plan, placed)"
      and st': "st' = (plan @ [meta], insert i placed)"
      by (subst (asm) emit.simps) (auto split: if_splits option.splits sum.splits)
    have "set (pm_depends meta) \<subseteq> W"
      using emit.prems(2,3) b by (auto simp: closed_in_def needs_def)
    then have *: "placed_ok index W (plan, placed) \<and> set (pm_depends meta) \<union> snd st \<subseteq> placed
        \<and> placed \<inter> set (vis @ [i]) = {}"
      using emit.IH [OF False v b e emit.prems(2) _ emit.prems(4)] emit.prems(5) False by auto
    then have "placed_ok index W st'"
      using placed_ok_snoc [OF _ b, of W plan placed] emit.prems(3) by (auto simp: st')
    with * v show ?thesis by (auto simp: st')
  qed
next
  case (Nil index vis st)
  then show ?case by simp
next
  case (Cons index d ds vis st)
  from Cons.prems(1) obtain st1 where e: "emit index d vis st = Ok st1"
    and r: "emit_all index ds vis st1 = Ok st'"
    by (auto split: sum.splits)
  have 1: "placed_ok index W st1 \<and> insert d (snd st) \<subseteq> snd st1 \<and> snd st1 \<inter> set vis = {}"
    using Cons.IH(1) [OF e] Cons.prems by auto
  have "placed_ok index W st' \<and> set ds \<union> snd st1 \<subseteq> snd st' \<and> snd st' \<inter> set vis = {}"
    using Cons.IH(2) [OF e r] Cons.prems 1 by auto
  with 1 show ?case by auto
qed

subsection \<open>What an error reports\<close>

text \<open>A missing id is wanted by the package the error names and is not in the index; a chain is
  a path of dependencies from a requested id that runs into itself.\<close>

fun real_error :: "package_index \<Rightarrow> string list \<Rightarrow> resolve_error \<Rightarrow> bool" where
  "real_error index requested (MissingDependency p m) = (m \<notin> pm_id ` set index
     \<and> (p = ''<request>'' \<and> m \<in> set requested
        \<or> p \<in> wanted index requested \<and> (p, m) \<in> needs index))"
| "real_error index requested (DependencyCycle chain) = (dep_path index chain
     \<and> hd chain \<in> set requested \<and> last chain \<in> set (butlast chain))"

definition on_stack :: "package_index \<Rightarrow> string list \<Rightarrow> string list \<Rightarrow> string \<Rightarrow> bool" where
  "on_stack index requested vis i \<longleftrightarrow> dep_path index (vis @ [i]) \<and> hd (vis @ [i]) \<in> set requested
     \<and> (vis = [] \<longrightarrow> i \<in> pm_id ` set index)"

lemma on_path_step: "on_stack index requested vis i \<Longrightarrow> by_id index i = Some meta
    \<Longrightarrow> d \<in> set (pm_depends meta) \<Longrightarrow> on_stack index requested (vis @ [i]) d"
  using dep_path_snoc [of index vis i d] needsI [of index i meta d]
  by (cases vis) (auto simp: on_stack_def)

lemma dep_path_last: "dep_path index (ps @ [a, b]) \<Longrightarrow> (a, b) \<in> needs index"
  using dep_path_append [of index ps a "[b]"] by simp

lemma on_path_missing:
  assumes p: "on_stack index requested vis i" and b: "by_id index i = None"
  shows "real_error index requested (MissingDependency (if vis = [] then '''' else last vis) i)"
proof -
  have i: "i \<notin> pm_id ` set index" using b by (simp add: by_id_None)
  then obtain us a where v: "vis = us @ [a]"
    using p by (cases vis rule: rev_cases) (auto simp: on_stack_def)
  have path: "dep_path index (us @ [a, i])" and "hd (us @ [a, i]) \<in> set requested"
    using p by (auto simp: on_stack_def v)
  then have "set (us @ [a, i]) \<subseteq> wanted index requested"
    by (intro dep_path_wanted) (auto intro: wanted_request)
  with i dep_path_last [OF path] show ?thesis by (simp add: v)
qed

lemma emit_Err:
  "emit index i vis st = Err e \<Longrightarrow> on_stack index requested vis i \<Longrightarrow> real_error index requested e"
  "emit_all index ds vis st = Err e \<Longrightarrow> (\<And>d. d \<in> set ds \<Longrightarrow> on_stack index requested vis d)
    \<Longrightarrow> real_error index requested e"
proof (induction index i vis st and index ds vis st arbitrary: e and e rule: emit_induct)
  case (emit index i vis st)
  from emit.prems(1) have n: "i \<notin> snd st" by (subst (asm) emit.simps) (auto split: if_splits)
  show ?case
  proof (cases "i \<in> set vis")
    case True
    with emit.prems n show ?thesis
      by (subst (asm) emit.simps) (auto simp: on_stack_def butlast_append)
  next
    case v: False
    show ?thesis
    proof (cases "by_id index i")
      case None
      with emit.prems(1) n v on_path_missing [OF emit.prems(2) None] show ?thesis
        by (subst (asm) emit.simps) auto
    next
      case (Some meta)
      with emit.prems(1) n v have "emit_all index (pm_depends meta) (vis @ [i]) st = Err e"
        by (subst (asm) emit.simps) (auto split: sum.splits)
      from emit.IH [OF n v Some this on_path_step [OF emit.prems(2) Some]] show ?thesis .
    qed
  qed
next
  case (Nil index vis st)
  then show ?case by simp
next
  case (Cons index d ds vis st)
  show ?case
  proof (cases "emit index d vis st")
    case (Inl x)
    with Cons show ?thesis by auto
  next
    case (Inr st1)
    with Cons show ?thesis by auto
  qed
qed

subsection \<open>Which requests have a plan\<close>

text \<open>Everything the request needs is in the index, and none of it needs itself.\<close>

definition installable :: "package_index \<Rightarrow> string list \<Rightarrow> bool" where
  "installable index requested \<longleftrightarrow> (\<forall>i \<in> wanted index requested.
     i \<in> pm_id ` set index \<and> (i, i) \<notin> (needs index)\<^sup>+)"

lemma real_error_blocks: "real_error index requested e \<Longrightarrow> \<not> installable index requested"
proof (cases e)
  case (MissingDependency p m)
  assume "real_error index requested e"
  with MissingDependency have "m \<in> wanted index requested" "m \<notin> pm_id ` set index"
    by (auto intro: wanted_step wanted_request)
  then show ?thesis by (auto simp: installable_def)
next
  case (DependencyCycle chain)
  assume "real_error index requested e"
  with DependencyCycle have path: "dep_path index chain" and hd: "hd chain \<in> set requested"
    and rep: "last chain \<in> set (butlast chain)" by auto
  from rep have ne: "chain \<noteq> []" by auto
  from split_list [OF rep] obtain us ws where "butlast chain = us @ last chain # ws" by auto
  then have c: "chain = us @ last chain # ws @ [last chain]"
    by (metis append_Cons append_assoc append_butlast_last_id ne)
  have "(last chain, last chain) \<in> (needs index)\<^sup>+"
    using path by (subst (asm) c) (intro dep_path_trancl dep_path_append)
  moreover have "last chain \<in> wanted index requested"
    using dep_path_wanted [OF path ne, of requested] wanted_request [OF hd] ne last_in_set [OF ne]
    by auto
  ultimately show ?thesis by (auto simp: installable_def)
qed

lemma plan_needs_earlier:
  assumes "placed_ok index W (ps @ p # qs, placed)" "(pm_id p, b) \<in> (needs index)\<^sup>+"
  shows "b \<in> pm_id ` set ps"
  using assms(2)
proof (induction rule: trancl_induct)
  case (base b)
  then have "b \<in> set (pm_depends p)" using assms(1) by (auto simp: needs_def placed_ok_def)
  then show ?case using assms(1) deps_first_dep [of "{}" ps p qs b] by (simp add: placed_ok_def)
next
  case (step b c)
  then obtain q where q: "q \<in> set ps" "b = pm_id q" by auto
  then obtain us ws where ps: "ps = us @ q # ws" by (auto dest: split_list)
  have "c \<in> set (pm_depends q)"
    using step.hyps(2) assms(1) q by (auto simp: needs_def placed_ok_def)
  then show ?case using assms(1) deps_first_dep [of "{}" us q "ws @ p # qs" c]
    by (auto simp: placed_ok_def ps)
qed

lemma resolve_Ok:
  assumes "resolve index requested = Ok plan"
  shows "placed_ok index (wanted index requested) (plan, wanted index requested)"
proof -
  let ?W = "wanted index requested"
  from assms obtain placed where e: "emit_all index requested [] ([], {}) = Ok (plan, placed)"
    by (auto simp: resolve_def split: option.splits sum.splits)
  have "set requested \<subseteq> ?W" by (auto intro: wanted_request)
  moreover have "placed_ok index ?W ([], {})" by (simp add: placed_ok_def)
  ultimately have p: "placed_ok index ?W (plan, placed)" and r: "set requested \<subseteq> placed"
    using emit_Ok(2) [OF e closed_wanted] by auto
  have "a \<in> placed" if "(r, a) \<in> (needs index)\<^sup>*" "r \<in> set requested" for a r
    using that
  proof (induction rule: rtrancl_induct)
    case base
    with r show ?case by auto
  next
    case (step a b)
    then obtain us q ws where q: "plan = us @ q # ws" "a = pm_id q"
      using p by (auto simp: placed_ok_def dest: split_list)
    with step.hyps(2) plan_needs_earlier [OF p [unfolded q(1)], of b] p show ?case
      by (auto simp: placed_ok_def)
  qed
  then have "placed = ?W" using p by (auto simp: wanted_def placed_ok_def)
  with p show ?thesis by simp
qed

lemma resolve_Err:
  assumes "resolve index requested = Err e"
  shows "real_error index requested e"
proof (cases "List.find (\<lambda>r. by_id index r = None) requested")
  case (Some r)
  then have "r \<in> set requested" "r \<notin> pm_id ` set index" 
    by (auto simp: find_Some_iff by_id_None)
  with Some assms show ?thesis by (auto simp: resolve_def)
next
  case None
  with assms have "emit_all index requested [] ([], {}) = Err e"
    by (auto simp: resolve_def split: sum.splits)
  then show ?thesis
    using None by (rule_tac emit_Err(2)) (auto simp: on_stack_def find_None_iff by_id_None)
qed

lemma resolve_Ok_installable: "resolve index requested = Ok plan \<Longrightarrow> installable index requested"
proof -
  assume "resolve index requested = Ok plan"
  from resolve_Ok [OF this]
  have p: "placed_ok index (wanted index requested) (plan, wanted index requested)" .
  have "i \<in> pm_id ` set index \<and> (i, i) \<notin> (needs index)\<^sup>+" if i: "i \<in> wanted index requested" for i
  proof -
    obtain us q ws where q: "plan = us @ q # ws" "i = pm_id q"
      using p i by (auto simp: placed_ok_def dest: split_list)
    have "i \<notin> pm_id ` set us" using p by (auto simp: placed_ok_def deps_first_append q)
    with plan_needs_earlier [OF p [unfolded q(1)], of i] p show ?thesis
      by (auto simp: q placed_ok_def dest: by_id_Some)
  qed
  then show ?thesis by (simp add: installable_def)
qed

text \<open>C11: For every index and request the resolver returns a plan exactly when everything the
  request needs, directly or through dependencies, is in the index and nothing of it needs
  itself. A plan holds each needed package once, as the index's last entry for its id, nothing
  else, and every package after all the packages it depends on. An error tells the truth: a
  missing id is not in the index and is either requested or a dependency of the package the
  error names, which the request needs; a reported chain is a path of dependencies from a
  requested id whose last id occurs on it before.\<close>

theorem resolve_decides_installability:
  "case resolve index requested of
     Ok plan \<Rightarrow> installable index requested \<and> distinct (map pm_id plan)
       \<and> pm_id ` set plan = wanted index requested
       \<and> list_all (\<lambda>p. by_id index (pm_id p) = Some p) plan
       \<and> deps_first {} plan
   | Err e \<Rightarrow> \<not> installable index requested \<and> real_error index requested e"
proof (cases "resolve index requested")
  case (Inl e)
  with resolve_Err [OF Inl] show ?thesis by (simp add: real_error_blocks)
next
  case (Inr plan)
  from resolve_Ok [OF Inr] have "deps_first {} plan" "pm_id ` set plan = wanted index requested"
    "list_all (\<lambda>p. by_id index (pm_id p) = Some p) plan"
    by (auto simp: placed_ok_def list_all_iff)
  with resolve_Ok_installable [OF Inr] deps_first_distinct [of "{}" plan] Inr show ?thesis by simp
qed

section \<open>transactional.rs: executing a plan\<close>

text \<open>
  The trait \<open>PackageInstaller\<close>: three operations on a state of the installer's own, each of
  which returns an error text or nothing. Only tests implement it, so the installer stays a
  parameter.
\<close>

record 's installer =
  in_stage :: "string \<Rightarrow> 's \<Rightarrow> (unit, string) result \<times> 's"
  in_activate :: "string \<Rightarrow> 's \<Rightarrow> (unit, string) result \<times> 's"
  in_remove :: "string \<Rightarrow> 's \<Rightarrow> (unit, string) result \<times> 's"

text \<open>\<open>installer.stage(id).and_then(|_| installer.activate(id))\<close>\<close>

definition stage_and_activate :: "'s installer \<Rightarrow> string \<Rightarrow> 's \<Rightarrow> (unit, string) result \<times> 's" where
  "stage_and_activate inst i s =
    (case in_stage inst i s of
       (Err e, s1) \<Rightarrow> (Err e, s1)
     | (Ok _, s1) \<Rightarrow> in_activate inst i s1)"

fun rollback_line :: "string \<Rightarrow> (unit, string) result \<Rightarrow> string" where
  "rollback_line i (Inr _) = ''rolled back '' @ i"
| "rollback_line i (Inl re) = ''ROLLBACK FAILED for '' @ i @ '': '' @ re"

text \<open>The rollback loop; its list is \<open>activated.iter().rev()\<close>.\<close>

fun roll_back :: "'s installer \<Rightarrow> string list \<Rightarrow> 's \<Rightarrow> string list \<times> 's" where
  "roll_back inst [] s = ([], s)"
| "roll_back inst (i # is) s =
    (let (r, s1) = in_remove inst i s; (ls, s2) = roll_back inst is s1
     in (rollback_line i r # ls, s2))"

fun join :: "string \<Rightarrow> string list \<Rightarrow> string" where
  "join sep [] = []"
| "join sep [x] = x"
| "join sep (x # y # r) = x @ sep @ join sep (y # r)"

definition install_failed :: "string \<Rightarrow> string \<Rightarrow> string list \<Rightarrow> string" where
  "install_failed i e ls = ''install failed at `'' @ i @ ''`: '' @ e @ ''; rollback: ''
     @ (if ls = [] then ''nothing to roll back'' else join '', '' ls)"

fun execute_steps :: "'s installer \<Rightarrow> package_meta list \<Rightarrow> string list \<Rightarrow> 's
    \<Rightarrow> (nat, string) result \<times> 's" where
  "execute_steps inst [] activated s = (Ok (length activated), s)"
| "execute_steps inst (p # ps) activated s =
    (case stage_and_activate inst (pm_id p) s of
       (Err e, s1) \<Rightarrow>
         (let (ls, s2) = roll_back inst (rev activated) s1
          in (Err (install_failed (pm_id p) e ls), s2))
     | (Ok _, s1) \<Rightarrow> execute_steps inst ps (activated @ [pm_id p]) s1)"

definition execute_plan :: "'s installer \<Rightarrow> package_meta list \<Rightarrow> 's \<Rightarrow> (nat, string) result \<times> 's" where
  "execute_plan inst plan s = execute_steps inst plan [] s"

subsection \<open>The calls a run makes\<close>

datatype installer_call =
    Staged string "(unit, string) result"
  | Activated string "(unit, string) result"
  | Removed string "(unit, string) result"

text \<open>The same installer beside a journal of its calls and their outcomes.\<close>

definition journaled :: "'s installer \<Rightarrow> ('s \<times> installer_call list) installer" where
  "journaled inst = \<lparr>
     in_stage = (\<lambda>i (s, l). let (r, s') = in_stage inst i s in (r, s', l @ [Staged i r])),
     in_activate = (\<lambda>i (s, l). let (r, s') = in_activate inst i s in (r, s', l @ [Activated i r])),
     in_remove = (\<lambda>i (s, l). let (r, s') = in_remove inst i s in (r, s', l @ [Removed i r])) \<rparr>"

definition installs :: "string list \<Rightarrow> installer_call list" where
  "installs is = concat (map (\<lambda>i. [Staged i (Ok ()), Activated i (Ok ())]) is)"

text \<open>The calls that fail at one package.\<close>

definition failing_calls :: "string \<Rightarrow> string \<Rightarrow> installer_call list set" where
  "failing_calls i e = {[Staged i (Err e)], [Staged i (Ok ()), Activated i (Err e)]}"

lemma installs_simps [simp]: "installs [] = []"
  "installs (xs @ [i]) = installs xs @ [Staged i (Ok ()), Activated i (Ok ())]"
  by (simp_all add: installs_def)

lemma roll_back_logged:
  "roll_back (journaled inst) is (s, l) = (ls, s', l') \<Longrightarrow>
     roll_back inst is s = (ls, s') \<and> (\<exists>rs. length rs = length is
       \<and> ls = map2 rollback_line is rs \<and> l' = l @ map2 Removed is rs)"
proof (induction "is" arbitrary: s l ls s' l')
  case Nil
  then show ?case by simp
next
  case (Cons i "is")
  obtain r s1 where r: "in_remove inst i s = (r, s1)" by fastforce
  obtain ls2 s2 l2 where k: "roll_back (journaled inst) is (s1, l @ [Removed i r]) = (ls2, s2, l2)"
    by (metis prod_cases3)
  from Cons.IH [OF k] obtain rs where rs: "roll_back inst is s1 = (ls2, s2)" "length rs = length is"
    "ls2 = map2 rollback_line is rs" "l2 = (l @ [Removed i r]) @ map2 Removed is rs" by auto
  from Cons.prems have res: "ls = rollback_line i r # ls2" "s' = s2" "l' = l2"
    using r k by (auto simp: journaled_def)
  have "roll_back inst (i # is) s = (ls, s')" by (simp add: r rs(1) res)
  moreover have "length (r # rs) = length (i # is) \<and> ls = map2 rollback_line (i # is) (r # rs)
      \<and> l' = l @ map2 Removed (i # is) (r # rs)"
    by (simp add: rs(2-4) res)
  ultimately show ?case by blast
qed

lemma stage_and_activate_logged:
  "stage_and_activate (journaled inst) i (s, l) = (r, s', l') \<Longrightarrow>
     stage_and_activate inst i s = (r, s')
     \<and> (case r of Ok _ \<Rightarrow> l' = l @ [Staged i (Ok ()), Activated i (Ok ())]
        | Err e \<Rightarrow> \<exists>f \<in> failing_calls i e. l' = l @ f)"
  by (auto simp: stage_and_activate_def journaled_def failing_calls_def split: prod.splits sum.splits)

text \<open>How a run of a plan ends: all packages installed, or one failed and the ones before it
  were removed, the last installed first.\<close>

definition plan_outcome :: "string list \<Rightarrow> (nat, string) result \<Rightarrow> installer_call list \<Rightarrow> bool" where
  "plan_outcome ids r calls = (case r of
     Ok n \<Rightarrow> n = length ids \<and> calls = installs ids
   | Err m \<Rightarrow> (\<exists>before i after e f rs. ids = before @ i # after \<and> f \<in> failing_calls i e
       \<and> length rs = length before
       \<and> calls = installs before @ f @ map2 Removed (rev before) rs
       \<and> m = install_failed i e (map2 rollback_line (rev before) rs)))"

lemma run_outcome_failed: "f \<in> failing_calls i e \<Longrightarrow> length rs = length before \<Longrightarrow>
    plan_outcome (before @ i # after)
      (Err (install_failed i e (map2 rollback_line (rev before) rs)))
      (installs before @ f @ map2 Removed (rev before) rs)"
  unfolding plan_outcome_def by (simp, blast)

lemma execute_steps_logged:
  "execute_steps (journaled inst) ps done (s, installs done) = (r, s', l) \<Longrightarrow>
     execute_steps inst ps done s = (r, s') \<and> plan_outcome (done @ map pm_id ps) r l"
proof (induction ps arbitrary: "done" s)
  case Nil
  then show ?case by (auto simp: plan_outcome_def)
next
  case (Cons p ps)
  let ?i = "pm_id p"
  obtain q s1 l1 where q: "stage_and_activate (journaled inst) ?i (s, installs done) = (q, s1, l1)"
    by (metis prod_cases3)
  note st = stage_and_activate_logged [OF q]
  show ?case
  proof (cases q)
    case (Inr u)
    with st have "l1 = installs (done @ [?i])" by simp
    with Cons.prems q Inr have "execute_steps (journaled inst) ps (done @ [?i])
        (s1, installs (done @ [?i])) = (r, s', l)" by simp
    from Cons.IH [OF this] st Inr show ?thesis by simp
  next
    case (Inl e)
    with st obtain f where f: "f \<in> failing_calls ?i e" "l1 = installs done @ f" by auto
    obtain ls s2 l2 where k: "roll_back (journaled inst) (rev done) (s1, l1) = (ls, s2, l2)"
      by (metis prod_cases3)
    from roll_back_logged [OF k] obtain rs where rs: "roll_back inst (rev done) s1 = (ls, s2)"
      "length rs = length done" "ls = map2 rollback_line (rev done) rs"
      "l2 = l1 @ map2 Removed (rev done) rs" by auto
    have r: "r = Err (install_failed ?i e ls)" "s' = s2" "l = l2"
      using Cons.prems q Inl k by auto
    have "plan_outcome (done @ ?i # map pm_id ps) r l"
      using run_outcome_failed [OF f(1) rs(2)] by (simp add: r f(2) rs)
    with st Inl rs show ?thesis by (simp add: r)
  qed
qed

subsection \<open>What a run leaves installed\<close>

text \<open>
  The documented contract of the three operations, on the set \<open>act s\<close> of activated packages:
  staging never becomes visible, activation and removal happen or fail as a whole.
\<close>

definition lawful :: "'s installer \<Rightarrow> ('s \<Rightarrow> string set) \<Rightarrow> bool" where
  "lawful inst act \<longleftrightarrow> (\<forall>i s.
     act (snd (in_stage inst i s)) = act s
     \<and> act (snd (in_activate inst i s)) = (if is_ok (fst (in_activate inst i s)) then insert i (act s) else act s)
     \<and> act (snd (in_remove inst i s)) = (if is_ok (fst (in_remove inst i s)) then act s - {i} else act s))"

definition removed_ids :: "installer_call list \<Rightarrow> string set" where
  "removed_ids calls = {i. Removed i (Ok ()) \<in> set calls}"

definition installed_ids :: "installer_call list \<Rightarrow> string set" where
  "installed_ids calls = {i. Activated i (Ok ()) \<in> set calls}"

lemma call_sets [simp]:
  "removed_ids [] = {}" "installed_ids [] = {}"
  "removed_ids (c # cs) = (case c of Removed i r \<Rightarrow> if is_ok r then insert i (removed_ids cs) else removed_ids cs
     | _ \<Rightarrow> removed_ids cs)"
  "installed_ids (c # cs) = (case c of Activated i r \<Rightarrow> if is_ok r then insert i (installed_ids cs) else installed_ids cs
     | _ \<Rightarrow> installed_ids cs)"
  by (auto simp: removed_ids_def installed_ids_def is_ok_iff split: installer_call.splits)

lemma lawfulD:
  assumes "lawful inst act"
  shows "in_stage inst i s = (r, s') \<Longrightarrow> act s' = act s"
    and "in_activate inst i s = (r, s') \<Longrightarrow> act s' = (if is_ok r then insert i (act s) else act s)"
    and "in_remove inst i s = (r, s') \<Longrightarrow> act s' = (if is_ok r then act s - {i} else act s)"
  using assms unfolding lawful_def by (metis fst_conv snd_conv)+

lemma roll_back_active:
  assumes law: "lawful inst act"
  shows "roll_back (journaled inst) is (s, l) = (ls, s', l') \<Longrightarrow>
    \<exists>cs. l' = l @ cs \<and> installed_ids cs = {} \<and> act s' = act s - removed_ids cs"
proof (induction "is" arbitrary: s l ls s' l')
  case (Cons i "is")
  obtain r s1 where r: "in_remove inst i s = (r, s1)" by fastforce
  obtain ls2 s2 l2 where k: "roll_back (journaled inst) is (s1, l @ [Removed i r]) = (ls2, s2, l2)"
    by (metis prod_cases3)
  from Cons.IH [OF k] obtain cs where cs: "l2 = l @ Removed i r # cs" "installed_ids cs = {}"
    "act s2 = act s1 - removed_ids cs" by auto
  have "s' = s2" "l' = l2" using Cons.prems r k by (auto simp: journaled_def)
  with cs lawfulD(3) [OF law r] show ?case
    by (intro exI [of _ "Removed i r # cs"]) auto
qed auto

lemma call_sets_append:
  "removed_ids (xs @ ys) = removed_ids xs \<union> removed_ids ys"
  "installed_ids (xs @ ys) = installed_ids xs \<union> installed_ids ys"
  by (auto simp: removed_ids_def installed_ids_def)

lemma stage_and_activate_active:
  assumes "lawful inst act" "stage_and_activate (journaled inst) i (s, l) = (r, s', l')"
  shows "\<exists>cs. l' = l @ cs \<and> removed_ids cs = {} \<and> installed_ids cs = (if is_ok r then {i} else {})
    \<and> act s' = act s \<union> installed_ids cs"
  using assms(2) lawfulD [OF assms(1)]
  by (fastforce simp: stage_and_activate_def journaled_def split: prod.splits sum.splits)

lemma execute_steps_active:
  assumes law: "lawful inst act"
  shows "execute_steps (journaled inst) ps done (s, l) = (r, s', l') \<Longrightarrow>
    \<exists>cs. l' = l @ cs \<and> act s' = (act s \<union> installed_ids cs) - removed_ids cs"
proof (induction ps arbitrary: "done" s l)
  case (Cons p ps)
  obtain q s1 l1 where q: "stage_and_activate (journaled inst) (pm_id p) (s, l) = (q, s1, l1)"
    by (metis prod_cases3)
  from stage_and_activate_active [OF law q] obtain c1 where c1: "l1 = l @ c1" "removed_ids c1 = {}"
    "act s1 = act s \<union> installed_ids c1" by blast
  show ?case
  proof (cases q)
    case (Inr u)
    with Cons.prems q have "execute_steps (journaled inst) ps (done @ [pm_id p]) (s1, l1) = (r, s', l')"
      by simp
    from Cons.IH [OF this] obtain cs where "l' = l1 @ cs"
      "act s' = (act s1 \<union> installed_ids cs) - removed_ids cs" by blast
    with c1 show ?thesis by (intro exI [of _ "c1 @ cs"]) (auto simp: call_sets_append)
  next
    case (Inl e)
    obtain ls s2 l2 where k: "roll_back (journaled inst) (rev done) (s1, l1) = (ls, s2, l2)"
      by (metis prod_cases3)
    from roll_back_active [OF law k] obtain cs where "l2 = l1 @ cs" "installed_ids cs = {}"
      "act s2 = act s1 - removed_ids cs" by blast
    with c1 Cons.prems q Inl k show ?thesis
      by (intro exI [of _ "c1 @ cs"]) (auto simp: call_sets_append)
  qed
qed auto

text \<open>C19: Executing a plan on any installer stages and activates its packages in plan order. If all
  succeed the run returns their number and makes no other call. Otherwise it stops at the first
  package whose staging or activation fails, calls the removal of exactly the packages activated
  by this run, the last one first, whatever the removals answer, and its error names the failed
  package, the cause and the outcome of every removal. With an installer that keeps the documented
  contract of the three operations, the packages active at the end are those active before and
  those activated, less those whose removal succeeded.\<close>

theorem install_is_rolled_back:
  assumes "execute_plan (journaled inst) plan (s, []) = (r, s', calls)"
  shows "execute_plan inst plan s = (r, s') \<and> plan_outcome (map pm_id plan) r calls
    \<and> (lawful inst act \<longrightarrow> act s' = (act s \<union> installed_ids calls) - removed_ids calls)"
proof (intro conjI impI)
  have e: "execute_steps (journaled inst) plan [] (s, installs []) = (r, s', calls)"
    using assms by (simp add: execute_plan_def)
  from execute_steps_logged [OF e]
  show "execute_plan inst plan s = (r, s')" "plan_outcome (map pm_id plan) r calls"
    by (simp_all add: execute_plan_def)
  show "act s' = (act s \<union> installed_ids calls) - removed_ids calls" if "lawful inst act"
    using execute_steps_active [OF that e] by auto
qed

text \<open>An installer with a set of staged and a set of active ids that refuses one id.\<close>

definition mock_installer :: "string \<Rightarrow> (string set \<times> string set) installer" where
  "mock_installer fail_at = \<lparr>
     in_stage = (\<lambda>i (st, ac). if i = fail_at then (Err ''stage corruption'', st, ac)
                              else (Ok (), insert i st, ac)),
     in_activate = (\<lambda>i (st, ac). (Ok (), st - {i}, insert i ac)),
     in_remove = (\<lambda>i (st, ac). (Ok (), st, ac - {i})) \<rparr>"

definition lib_meta :: package_meta where
  "lib_meta = \<lparr> pm_id = ''lib'', pm_version = ''2'', pm_depends = [] \<rparr>"

definition app_meta :: package_meta where
  "app_meta = \<lparr> pm_id = ''app'', pm_version = ''1'', pm_depends = [''lib''] \<rparr>"

lemma mock_lawful: "lawful (mock_installer f) snd"
  by (auto simp: lawful_def mock_installer_def)

lemmas mock_run = execute_plan_def stage_and_activate_def journaled_def mock_installer_def lib_meta_def
  app_meta_def

theorem install_is_rolled_back_witness:
  "plan_outcome [''lib'', ''app'']
     (Err (install_failed ''app'' ''stage corruption'' [''rolled back lib'']))
     [Staged ''lib'' (Ok ()), Activated ''lib'' (Ok ()), Staged ''app'' (Err ''stage corruption''),
      Removed ''lib'' (Ok ())]
   \<and> snd (snd (execute_plan (mock_installer ''app'') [lib_meta, app_meta] ({}, {''old'', ''lib''})))
       = {''old''}"
proof -
  let ?calls = "[Staged ''lib'' (Ok ()), Activated ''lib'' (Ok ()),
    Staged ''app'' (Err ''stage corruption''), Removed ''lib'' (Ok ())]"
  let ?r = "Err (install_failed ''app'' ''stage corruption'' [''rolled back lib'']) :: (nat, string) result"
  have run: "execute_plan (journaled (mock_installer ''app'')) [lib_meta, app_meta]
      (({}, {''old'', ''lib''}), []) = (?r, ({}, {''old''}), ?calls)"
    by (auto simp: mock_run)
  show ?thesis
    using install_is_rolled_back [OF run, of snd] mock_lawful [of "''app''"]
    by (auto simp: lib_meta_def app_meta_def)
qed

text \<open>
  The module promises that a failed install leaves the system as if it never started. A package
  that was active before the plan and is part of it is gone afterwards: the executor removes what
  it activated and has no record of what the activation replaced.
\<close>

lemma failed_upgrade_uninstalls:
  "execute_plan (mock_installer ''app'') [lib_meta, app_meta] ({}, {''lib''})
     = (Err (install_failed ''app'' ''stage corruption'' [''rolled back lib'']), {}, {})"
  by (simp add: mock_run)

text \<open>An index with two entries for an id resolves to the last of them, not to the first.\<close>

lemma later_entry_wins:
  "resolve [lib_meta, lib_meta\<lparr>pm_version := ''1''\<rparr>] [''lib''] = Ok [lib_meta\<lparr>pm_version := ''1''\<rparr>]"
  by (simp add: resolve_def by_id_def emit.simps lib_meta_def)

text \<open>A reported chain starts at the request, so it can hold ids that are on no cycle.\<close>

lemma chain_has_a_lead_in:
  "resolve [app_meta, lib_meta\<lparr>pm_depends := [''lib'']\<rparr>] [''app'']
     = Err (DependencyCycle [''app'', ''lib'', ''lib''])"
  by (simp add: resolve_def by_id_def emit.simps lib_meta_def app_meta_def)

end
